(* ===== verification/DS_Prelude.thy ===== *)
theory DS_Prelude
  imports Main "HOL-Library.Word" "HOL-Library.List_Lexorder" "HOL-Library.Char_ord"
begin

section \<open>Shared vocabulary of the development\<close>

text \<open>
  What every component theory uses: the status codes of include/datasystem/utils/status.h and
  the result type of a fallible call, the machine integers that can wrap, C++'s ordered map as a
  strictly sorted association list, and the list lemmas the components share.

  A C++ function that returns a Status and fills output parameters becomes a HOL function into
  \<open>'a result\<close>: \<open>Inl code\<close> is the error return (output parameters untouched), \<open>Inr v\<close> is
  K_OK with the output values. Status messages are log text and are left out.
\<close>

named_theorems ds_simps \<open>simplification rules shared by the component proofs\<close>

type_synonym u32 = "32 word"
type_synonym u64 = "64 word"

subsection \<open>Status\<close>

datatype StatusCode =
    K_OK | K_DUPLICATED | K_INVALID | K_NOT_FOUND | K_RUNTIME_ERROR | K_OUT_OF_MEMORY
  | K_NOT_READY | K_NOT_AUTHORIZED | K_OUT_OF_RANGE | K_NO_SPACE | K_TRY_AGAIN
  | K_DATA_INCONSISTENCY | K_SHUTTING_DOWN
  | K_OTHER u32 \<comment> \<open>every other code of the enum, by its number\<close>

type_synonym 'a result = "StatusCode + 'a"

text \<open>RETURN_IF_NOT_OK: the error of the first call is the error of the caller.\<close>

fun bind_result :: "'a result \<Rightarrow> ('a \<Rightarrow> 'b result) \<Rightarrow> 'b result" where
  "bind_result (Inl e) f = Inl e"
| "bind_result (Inr x) f = f x"

text \<open>CHECK_FAIL_RETURN_STATUS(condition, code, message).\<close>

definition check_fail :: "bool \<Rightarrow> StatusCode \<Rightarrow> unit result" where
  "check_fail condition code = (if condition then Inr () else Inl code)"

lemma bind_result_Inr [ds_simps]:
  "bind_result r f = Inr y \<longleftrightarrow> (\<exists>x. r = Inr x \<and> f x = Inr y)"
  by (cases r) auto

lemma bind_result_Inl [ds_simps]:
  "bind_result r f = Inl e \<longleftrightarrow> r = Inl e \<or> (\<exists>x. r = Inr x \<and> f x = Inl e)"
  by (cases r) auto

lemma check_fail_simps [simp]:
  "check_fail c e = Inr u \<longleftrightarrow> c"
  "check_fail c e = Inl e' \<longleftrightarrow> \<not> c \<and> e' = e"
  "check_fail True e = Inr ()"
  "check_fail False e = Inl e"
  by (auto simp: check_fail_def)

lemma bind_check_fail [simp]:
  "bind_result (check_fail c e) f = (if c then f () else Inl e)"
  by (simp add: check_fail_def)

subsection \<open>Machine integers\<close>

text \<open>
  \<open>int64_t\<close> values are integers kept in range by an explicit two's-complement wrap;
  \<open>uint64_t\<close> and \<open>uint32_t\<close> values are words.
\<close>

definition INT64_MAX :: int where
  "INT64_MAX = 2 ^ 63 - 1"

definition wrap_s64 :: "int \<Rightarrow> int" where
  "wrap_s64 x = (x + 2 ^ 63) mod 2 ^ 64 - 2 ^ 63"

lemma wrap_s64_id: "- (2 ^ 63) \<le> x \<Longrightarrow> x \<le> INT64_MAX \<Longrightarrow> wrap_s64 x = x"
  by (simp add: wrap_s64_def INT64_MAX_def)

lemma wrap_s64_succ: "0 \<le> x \<Longrightarrow> x < INT64_MAX \<Longrightarrow> wrap_s64 (x + 1) = x + 1"
  by (rule wrap_s64_id) (simp_all add: INT64_MAX_def)

lemma wrap_s64_range: "- (2 ^ 63) \<le> wrap_s64 x \<and> wrap_s64 x \<le> INT64_MAX"
proof -
  have "0 \<le> (x + 2 ^ 63) mod 2 ^ 64" "(x + 2 ^ 63) mod 2 ^ 64 < (2::int) ^ 64"
    by simp_all
  then show ?thesis by (simp add: wrap_s64_def INT64_MAX_def)
qed

subsection \<open>std::map as a strictly sorted association list\<close>

type_synonym ('k, 'v) omap = "('k \<times> 'v) list"

definition omap_ok :: "('k::linorder, 'v) omap \<Rightarrow> bool" where
  "omap_ok m \<longleftrightarrow> sorted_wrt (<) (map fst m)"

text \<open>\<open>m[k] = v\<close> (and \<open>emplace\<close> of an absent key).\<close>

fun omap_set :: "'k::linorder \<Rightarrow> 'v \<Rightarrow> ('k, 'v) omap \<Rightarrow> ('k, 'v) omap" where
  "omap_set k v [] = [(k, v)]"
| "omap_set k v ((k', v') # m) =
     (if k < k' then (k, v) # (k', v') # m
      else if k = k' then (k, v) # m
      else (k', v') # omap_set k v m)"

definition omap_erase :: "'k \<Rightarrow> ('k, 'v) omap \<Rightarrow> ('k, 'v) omap" where
  "omap_erase k m = filter (\<lambda>p. fst p \<noteq> k) m"

text \<open>The iteration from \<open>lower_bound(lo)\<close> while the key is below \<open>hi\<close>.\<close>

definition omap_range :: "'k::linorder \<Rightarrow> 'k \<Rightarrow> ('k, 'v) omap \<Rightarrow> ('k, 'v) omap" where
  "omap_range lo hi m = takeWhile (\<lambda>p. fst p < hi) (dropWhile (\<lambda>p. fst p < lo) m)"

lemma omap_ok_Nil [simp]: "omap_ok []"
  by (simp add: omap_ok_def)

lemma omap_ok_Cons [simp]:
  "omap_ok ((k, v) # m) \<longleftrightarrow> (\<forall>k' \<in> fst ` set m. k < k') \<and> omap_ok m"
  by (auto simp: omap_ok_def)

lemma omap_ok_distinct: "omap_ok m \<Longrightarrow> distinct (map fst m)"
  by (simp add: omap_ok_def strict_sorted_iff)

lemma fst_set_omap_set: "fst ` set (omap_set k v m) = insert k (fst ` set m)"
  by (induction k v m rule: omap_set.induct) auto

lemma omap_ok_set [simp]: "omap_ok m \<Longrightarrow> omap_ok (omap_set k v m)"
proof (induction k v m rule: omap_set.induct)
  case (2 k v k' v' m)
  then show ?case by (force simp: fst_set_omap_set)
qed simp

lemma map_of_omap_set [simp]: "omap_ok m \<Longrightarrow> map_of (omap_set k v m) = (map_of m)(k \<mapsto> v)"
proof (induction k v m rule: omap_set.induct)
  case (2 k v k' v' m)
  then show ?case by (auto simp: fun_eq_iff)
qed simp

lemma omap_ok_filter [simp]: "omap_ok m \<Longrightarrow> omap_ok (filter P m)"
  by (induction m) auto

lemma omap_ok_erase [simp]: "omap_ok m \<Longrightarrow> omap_ok (omap_erase k m)"
  by (simp add: omap_erase_def)

lemma map_of_omap_erase [simp]: "map_of (omap_erase k m) = (map_of m)(k := None)"
  by (induction m) (auto simp: omap_erase_def fun_eq_iff)

text \<open>On a sorted map the iteration visits exactly the keys of the half-open interval.\<close>

lemma omap_range_filter:
  "omap_ok m \<Longrightarrow> omap_range lo hi m = filter (\<lambda>p. lo \<le> fst p \<and> fst p < hi) m"
proof (induction m)
  case Nil
  then show ?case by (simp add: omap_range_def)
next
  case (Cons p m)
  obtain k v where p: "p = (k, v)" by (cases p)
  have ok: "omap_ok m" and above: "\<forall>q \<in> set m. k < fst q"
    using Cons.prems by (auto simp: p)
  show ?case
  proof (cases "k < lo")
    case True
    then show ?thesis using Cons.IH [OF ok] by (auto simp: p omap_range_def)
  next
    case False
    have "takeWhile (\<lambda>q. fst q < hi) m = filter (\<lambda>q. lo \<le> fst q \<and> fst q < hi) m"
      if "k < hi"
    proof -
      have "dropWhile (\<lambda>q. fst q < lo) m = m"
        using above False by (cases m) auto
      then show ?thesis using Cons.IH [OF ok] by (simp add: omap_range_def)
    qed
    moreover have "filter (\<lambda>q. lo \<le> fst q \<and> fst q < hi) m = []" if "\<not> k < hi"
      using above that by (force simp: filter_empty_conv)
    ultimately show ?thesis using False by (auto simp: p omap_range_def)
  qed
qed

lemma map_of_eq_Some_iff_omap: "omap_ok m \<Longrightarrow> map_of m k = Some v \<longleftrightarrow> (k, v) \<in> set m"
  by (simp add: omap_ok_distinct)

lemma omap_keys_values: "omap_ok m \<Longrightarrow> map (\<lambda>k. (k, the (map_of m k))) (map fst m) = m"
  by (auto simp: map_of_eq_Some_iff_omap intro!: map_idI)
     (metis map_of_eq_Some_iff_omap option.sel)

lemma omap_eqI:
  assumes "omap_ok m" and "omap_ok m'" and "map_of m = map_of m'"
  shows "m = m'"
proof -
  have "fst ` set m = fst ` set m'"
    using assms(3) by (metis dom_map_of_conv_image_fst)
  then have "map fst m = map fst m'"
    using assms(1,2) unfolding omap_ok_def by (intro strict_sorted_equal) auto
  then show ?thesis
    using omap_keys_values [OF assms(1)] omap_keys_values [OF assms(2)] assms(3) by simp
qed

subsection \<open>Options\<close>

lemma option_eqI: "(\<And>r. x = Some r \<longleftrightarrow> y = Some r) \<Longrightarrow> x = y"
  by (cases x; cases y) auto

end
