(* ===== verification/MemoryKv.thy ===== *)
theory MemoryKv
  imports DS_Prelude
begin

section \<open>The in-memory KV store of the coordinator\<close>

text \<open>
  Models src/datasystem/common/coordinator/memory_kv_store.{h,cpp}, key_value_entry.h and
  watch_event.h. Every operation holds \<open>mutex_\<close> for its whole body, so it is one atomic step on
  the record \<open>MemoryKvStore\<close>. The mutation callback is invoked after the lock is released; an
  operation therefore returns the list of events it hands to the callback, in call order, and
  \<open>mk_hasCallback\<close> says whether a callback is installed.
\<close>

subsection \<open>Data\<close>

record KeyValueEntry =
  kv_key :: string
  kv_value :: string
  kv_version :: int
  kv_modRevision :: int

datatype WatchEventType = PUT | DELETE | REWATCH

record WatchEvent =
  we_type :: WatchEventType
  we_entry :: KeyValueEntry
  we_revision :: int

record ValueEntry =
  ve_value :: string
  ve_version :: int
  ve_createRevision :: int
  ve_modRevision :: int
  ve_ttlMs :: int
  ve_ttlGeneration :: u64

record MemoryKvStore =
  mk_data :: "(string, ValueEntry) omap"
  mk_hasCallback :: bool
  mk_revision :: int

definition COORDINATOR_NO_VERSION_CHECK :: int where
  "COORDINATOR_NO_VERSION_CHECK = -1"

definition COORDINATOR_KEY_NOT_EXISTS_VERSION :: int where
  "COORDINATOR_KEY_NOT_EXISTS_VERSION = 0"

definition COORDINATOR_NO_MOD_REVISION_CHECK :: int where
  "COORDINATOR_NO_MOD_REVISION_CHECK = 0"

definition COORDINATOR_NO_GLOBAL_REVISION_CHECK :: int where
  "COORDINATOR_NO_GLOBAL_REVISION_CHECK = 0"

lemmas coordinator_consts [simp] =
  COORDINATOR_NO_VERSION_CHECK_def COORDINATOR_KEY_NOT_EXISTS_VERSION_def
  COORDINATOR_NO_MOD_REVISION_CHECK_def COORDINATOR_NO_GLOBAL_REVISION_CHECK_def

definition empty_store :: MemoryKvStore where
  "empty_store = \<lparr>mk_data = [], mk_hasCallback = False, mk_revision = 1\<rparr>"

definition to_kv :: "string \<Rightarrow> ValueEntry \<Rightarrow> KeyValueEntry" where
  "to_kv k e = \<lparr>kv_key = k, kv_value = ve_value e, kv_version = ve_version e,
                kv_modRevision = ve_modRevision e\<rparr>"

subsection \<open>Operations\<close>

text \<open>The guards of Put, in the order of the code.\<close>

definition put_checks :: "MemoryKvStore \<Rightarrow> string \<Rightarrow> int \<Rightarrow> int \<Rightarrow> int \<Rightarrow> unit result" where
  "put_checks s key expectedVersion expectedModRevision expectedGlobalRevision =
     (if expectedGlobalRevision \<noteq> COORDINATOR_NO_GLOBAL_REVISION_CHECK
         \<and> mk_revision s \<noteq> expectedGlobalRevision
      then Inl K_DATA_INCONSISTENCY
      else case map_of (mk_data s) key of
        None \<Rightarrow>
          (if expectedModRevision \<noteq> COORDINATOR_NO_MOD_REVISION_CHECK then Inl K_NOT_FOUND
           else if expectedVersion = COORDINATOR_KEY_NOT_EXISTS_VERSION then Inr ()
           else if expectedVersion \<noteq> COORDINATOR_NO_VERSION_CHECK then Inl K_NOT_FOUND
           else Inr ())
      | Some e \<Rightarrow>
          (if expectedModRevision \<noteq> COORDINATOR_NO_MOD_REVISION_CHECK
              \<and> ve_modRevision e \<noteq> expectedModRevision
           then Inl K_DATA_INCONSISTENCY
           else if expectedVersion = COORDINATOR_KEY_NOT_EXISTS_VERSION then Inl K_DUPLICATED
           else if expectedVersion \<noteq> COORDINATOR_NO_VERSION_CHECK
                   \<and> ve_version e \<noteq> expectedVersion
           then Inl K_DATA_INCONSISTENCY
           else Inr ()))"

text \<open>The entry Put stores: an update of the existing one, or a fresh one.\<close>

definition put_entry :: "ValueEntry option \<Rightarrow> string \<Rightarrow> int \<Rightarrow> int \<Rightarrow> ValueEntry" where
  "put_entry old value ttlMs newRevision =
     (case old of
        Some e \<Rightarrow> e\<lparr>ve_version := wrap_s64 (ve_version e + 1), ve_value := value,
                    ve_modRevision := newRevision, ve_ttlMs := ttlMs,
                    ve_ttlGeneration := ve_ttlGeneration e + 1\<rparr>
      | None \<Rightarrow> \<lparr>ve_value = value, ve_version = 1, ve_createRevision = newRevision,
                 ve_modRevision = newRevision, ve_ttlMs = ttlMs, ve_ttlGeneration = 1\<rparr>)"

text \<open>Outputs of a successful Put: version, revision, ttlGeneration.\<close>

definition Put :: "MemoryKvStore \<Rightarrow> string \<Rightarrow> string \<Rightarrow> int \<Rightarrow> int \<Rightarrow> int \<Rightarrow> int
    \<Rightarrow> (int \<times> int \<times> u64) result \<times> MemoryKvStore \<times> WatchEvent list" where
  "Put s key value ttlMs expectedVersion expectedModRevision expectedGlobalRevision =
     (case put_checks s key expectedVersion expectedModRevision expectedGlobalRevision of
        Inl c \<Rightarrow> (Inl c, s, [])
      | Inr _ \<Rightarrow>
          (let newRevision = wrap_s64 (mk_revision s + 1);
               stored = put_entry (map_of (mk_data s) key) value ttlMs newRevision;
               s' = s\<lparr>mk_data := omap_set key stored (mk_data s), mk_revision := newRevision\<rparr>;
               events = (if mk_hasCallback s
                         then [\<lparr>we_type = PUT, we_entry = to_kv key stored,
                                we_revision = newRevision\<rparr>]
                         else [])
           in (Inr (ve_version stored, newRevision, ve_ttlGeneration stored), s', events)))"

text \<open>
  Range appends to the caller's vector; the outputs are the vector, the snapshot revision and,
  when the caller passes a pointer (\<open>wantUnchanged\<close>), the unchanged flag.
\<close>

definition Range_kv :: "MemoryKvStore \<Rightarrow> string \<Rightarrow> string \<Rightarrow> KeyValueEntry list \<Rightarrow> int \<Rightarrow> bool
    \<Rightarrow> KeyValueEntry list \<times> int \<times> bool" where
  "Range_kv s key rangeEnd kvs knownModRevision wantUnchanged =
     (if rangeEnd = [] then
        (case map_of (mk_data s) key of
           None \<Rightarrow> (kvs, mk_revision s, False)
         | Some e \<Rightarrow>
             (if wantUnchanged \<and> knownModRevision > 0 \<and> ve_modRevision e = knownModRevision
              then (kvs, mk_revision s, True)
              else (kvs @ [to_kv key e], mk_revision s, False)))
      else (kvs @ map (\<lambda>(k, e). to_kv k e) (omap_range key rangeEnd (mk_data s)),
            mk_revision s, False))"

definition delete_targets :: "MemoryKvStore \<Rightarrow> string \<Rightarrow> string \<Rightarrow> (string, ValueEntry) omap" where
  "delete_targets s key rangeEnd =
     (if rangeEnd = [] then
        (case map_of (mk_data s) key of None \<Rightarrow> [] | Some e \<Rightarrow> [(key, e)])
      else omap_range key rangeEnd (mk_data s))"

text \<open>
  Delete appends the removed entries to \<open>deletedEntries\<close> and reports that vector's size as
  \<open>deleted\<close>; outputs are deleted, revision and the vector.
\<close>

definition Delete :: "MemoryKvStore \<Rightarrow> string \<Rightarrow> string \<Rightarrow> KeyValueEntry list \<Rightarrow> int
    \<Rightarrow> (int \<times> int \<times> KeyValueEntry list) result \<times> MemoryKvStore \<times> WatchEvent list" where
  "Delete s key rangeEnd deletedEntries expectedModRevision =
     (if expectedModRevision \<noteq> COORDINATOR_NO_MOD_REVISION_CHECK \<and> rangeEnd \<noteq> []
      then (Inl K_INVALID, s, [])
      else case delete_targets s key rangeEnd of
        [] \<Rightarrow> (Inr (0, mk_revision s, deletedEntries), s, [])
      | (k0, e0) # rest \<Rightarrow>
          (if expectedModRevision \<noteq> COORDINATOR_NO_MOD_REVISION_CHECK
              \<and> ve_modRevision e0 \<noteq> expectedModRevision
           then (Inl K_TRY_AGAIN, s, [])
           else
             (let newRevision = wrap_s64 (mk_revision s + 1);
                  kves = map (\<lambda>(k, e). to_kv k e) ((k0, e0) # rest);
                  events = (if mk_hasCallback s
                            then map (\<lambda>kve. \<lparr>we_type = DELETE, we_entry = kve,
                                              we_revision = newRevision\<rparr>) kves
                            else []);
                  deletedEntries' = deletedEntries @ kves;
                  s' = s\<lparr>mk_data := foldl (\<lambda>d (k, e). omap_erase k d) (mk_data s)
                                          ((k0, e0) # rest),
                         mk_revision := newRevision\<rparr>
              in (Inr (int (length deletedEntries'), newRevision, deletedEntries'),
                  s', events))))"

definition DeleteIfTtlExpired :: "MemoryKvStore \<Rightarrow> string \<Rightarrow> int \<Rightarrow> u64
    \<Rightarrow> bool \<times> MemoryKvStore \<times> WatchEvent list" where
  "DeleteIfTtlExpired s key revision ttlGeneration =
     (case map_of (mk_data s) key of
        None \<Rightarrow> (False, s, [])
      | Some e \<Rightarrow>
          (if ve_modRevision e \<noteq> revision then (False, s, [])
           else if ve_ttlMs e \<le> 0 \<or> ve_ttlGeneration e \<noteq> ttlGeneration then (False, s, [])
           else
             (let deleteRevision = wrap_s64 (mk_revision s + 1);
                  events = (if mk_hasCallback s
                            then [\<lparr>we_type = DELETE, we_entry = to_kv key e,
                                   we_revision = deleteRevision\<rparr>]
                            else [])
              in (True, s\<lparr>mk_data := omap_erase key (mk_data s),
                          mk_revision := deleteRevision\<rparr>, events))))"

text \<open>Outputs of KeepAlive: ttlMs, remainingTtlMs, revision, ttlGeneration.\<close>

definition KeepAlive :: "MemoryKvStore \<Rightarrow> string \<Rightarrow> int
    \<Rightarrow> (int \<times> int \<times> int \<times> u64) result \<times> MemoryKvStore" where
  "KeepAlive s key expectedModRevision =
     (case map_of (mk_data s) key of
        None \<Rightarrow> (Inl K_NOT_FOUND, s)
      | Some e \<Rightarrow>
          (if ve_ttlMs e \<le> 0 then (Inl K_NOT_FOUND, s)
           else if expectedModRevision \<noteq> COORDINATOR_NO_MOD_REVISION_CHECK
                   \<and> ve_modRevision e \<noteq> expectedModRevision
           then (Inl K_TRY_AGAIN, s)
           else
             (let entry = e\<lparr>ve_ttlGeneration := ve_ttlGeneration e + 1\<rparr>
              in (Inr (ve_ttlMs entry, ve_ttlMs entry, ve_modRevision entry,
                       ve_ttlGeneration entry),
                  s\<lparr>mk_data := omap_set key entry (mk_data s)\<rparr>))))"

definition CurrentRevision :: "MemoryKvStore \<Rightarrow> int" where
  "CurrentRevision s = mk_revision s"

definition SetMutationCallback :: "MemoryKvStore \<Rightarrow> bool \<Rightarrow> MemoryKvStore" where
  "SetMutationCallback s present = s\<lparr>mk_hasCallback := present\<rparr>"

subsection \<open>Runs of operations\<close>

text \<open>
  The operations that change the store, as requests, and the run of a sequence of them: the final
  store and the events handed to the callback.
\<close>

datatype KvOp =
    OpPut string string int int int int
  | OpDelete string string int
  | OpExpire string int u64
  | OpKeepAlive string int

fun kv_step :: "MemoryKvStore \<Rightarrow> KvOp \<Rightarrow> MemoryKvStore \<times> WatchEvent list" where
  "kv_step s (OpPut k v ttl ev em eg) = snd (Put s k v ttl ev em eg)"
| "kv_step s (OpDelete k r em) = snd (Delete s k r [] em)"
| "kv_step s (OpExpire k r g) = snd (DeleteIfTtlExpired s k r g)"
| "kv_step s (OpKeepAlive k em) = (snd (KeepAlive s k em), [])"

fun kv_exec :: "MemoryKvStore \<Rightarrow> KvOp list \<Rightarrow> MemoryKvStore \<times> WatchEvent list" where
  "kv_exec s [] = (s, [])"
| "kv_exec s (op # ops) =
     (let (s1, evs1) = kv_step s op; (s2, evs2) = kv_exec s1 ops in (s2, evs1 @ evs2))"

subsection \<open>Well-formed stores\<close>

definition entry_ok :: "int \<Rightarrow> ValueEntry \<Rightarrow> bool" where
  "entry_ok r e \<longleftrightarrow> 1 \<le> ve_version e \<and> 1 \<le> ve_createRevision e
     \<and> ve_createRevision e \<le> ve_modRevision e \<and> ve_modRevision e \<le> r
     \<and> ve_version e \<le> ve_modRevision e - ve_createRevision e + 1"

definition kv_inv :: "MemoryKvStore \<Rightarrow> bool" where
  "kv_inv s \<longleftrightarrow> omap_ok (mk_data s) \<and> 1 \<le> mk_revision s \<and> mk_revision s \<le> INT64_MAX
     \<and> (\<forall>k e. map_of (mk_data s) k = Some e \<longrightarrow> entry_ok (mk_revision s) e)"

text \<open>What a single step may do to the entry of one key and to the global revision.\<close>

lemma foldl_omap_erase:
  "foldl (\<lambda>d (k, e). omap_erase k d) d xs = filter (\<lambda>p. fst p \<notin> fst ` set xs) d"
proof (induction xs arbitrary: d)
  case (Cons x xs)
  have "filter (\<lambda>p. fst p \<notin> fst ` set xs) (omap_erase (fst x) d)
      = filter (\<lambda>p. fst p \<notin> fst ` set (x # xs)) d"
    by (simp add: omap_erase_def conj_commute)
  then show ?case using Cons by (simp add: split_def)
qed simp

lemma map_of_filter_keys: "map_of (filter (\<lambda>p. P (fst p)) d) k = (if P k then map_of d k else None)"
  by (induction d) auto

lemma map_of_filter_notin:
  "map_of (filter (\<lambda>p. fst p \<notin> K) d) k = (if k \<in> K then None else map_of d k)"
  using map_of_filter_keys [of "\<lambda>k. k \<notin> K" d k] by simp

lemma delete_targets_map_of:
  assumes "omap_ok (mk_data s)"
  shows "k \<in> fst ` set (delete_targets s key rangeEnd) \<longleftrightarrow>
    map_of (mk_data s) k \<noteq> None
      \<and> (if rangeEnd = [] then k = key else key \<le> k \<and> k < rangeEnd)"
proof (cases "rangeEnd = []")
  case True
  then show ?thesis by (cases "map_of (mk_data s) key") (auto simp: delete_targets_def)
next
  case False
  then have "delete_targets s key rangeEnd
      = filter (\<lambda>p. key \<le> fst p \<and> fst p < rangeEnd) (mk_data s)"
    by (simp add: delete_targets_def omap_range_filter [OF assms])
  then have "k \<in> fst ` set (delete_targets s key rangeEnd) \<longleftrightarrow>
      k \<in> fst ` set (mk_data s) \<and> key \<le> k \<and> k < rangeEnd"
    by auto
  then show ?thesis using False by (simp add: map_of_eq_None_iff)
qed

text \<open>The two outcomes of each operation: no effect, or the committed mutation.\<close>

definition put_event :: "string \<Rightarrow> ValueEntry \<Rightarrow> int \<Rightarrow> WatchEvent" where
  "put_event k e r = \<lparr>we_type = PUT, we_entry = to_kv k e, we_revision = r\<rparr>"

definition delete_event :: "string \<Rightarrow> ValueEntry \<Rightarrow> int \<Rightarrow> WatchEvent" where
  "delete_event k e r = \<lparr>we_type = DELETE, we_entry = to_kv k e, we_revision = r\<rparr>"

definition callback_events :: "MemoryKvStore \<Rightarrow> WatchEvent list \<Rightarrow> WatchEvent list" where
  "callback_events s evs = (if mk_hasCallback s then evs else [])"

lemma Put_fail: "put_checks s k ev em eg = Inl c \<Longrightarrow> Put s k v ttl ev em eg = (Inl c, s, [])"
  by (simp add: Put_def)

lemma Put_commit:
  assumes "put_checks s k ev em eg = Inr u" and "r = wrap_s64 (mk_revision s + 1)"
    and "e = put_entry (map_of (mk_data s) k) v ttl r"
  shows "Put s k v ttl ev em eg = (Inr (ve_version e, r, ve_ttlGeneration e),
         s\<lparr>mk_data := omap_set k e (mk_data s), mk_revision := r\<rparr>,
         callback_events s [put_event k e r])"
  using assms by (simp add: Put_def Let_def callback_events_def put_event_def)

lemma Put_cases:
  obtains (fail) c where "put_checks s k ev em eg = Inl c" "Put s k v ttl ev em eg = (Inl c, s, [])"
  | (commit) e r where "put_checks s k ev em eg = Inr ()" "r = wrap_s64 (mk_revision s + 1)"
      "e = put_entry (map_of (mk_data s) k) v ttl r"
      "Put s k v ttl ev em eg = (Inr (ve_version e, r, ve_ttlGeneration e),
         s\<lparr>mk_data := omap_set k e (mk_data s), mk_revision := r\<rparr>,
         callback_events s [put_event k e r])"
proof (cases "put_checks s k ev em eg")
  case (Inl c)
  from Inl Put_fail [OF Inl] show ?thesis by (rule fail)
next
  case (Inr u)
  have "put_checks s k ev em eg = Inr ()" using Inr by simp
  from commit [OF this refl refl Put_commit [OF this refl refl]] show ?thesis .
qed

lemma Delete_commit:
  assumes "delete_targets s k re = (k0, e0) # rest"
    and "\<not> (em \<noteq> 0 \<and> (re \<noteq> [] \<or> ve_modRevision e0 \<noteq> em))"
    and "r = wrap_s64 (mk_revision s + 1)"
  shows "Delete s k re dels em =
         (Inr (int (length dels + length (delete_targets s k re)), r,
               dels @ map (\<lambda>(k, e). to_kv k e) (delete_targets s k re)),
          s\<lparr>mk_data := filter (\<lambda>p. fst p \<notin> fst ` set (delete_targets s k re)) (mk_data s),
            mk_revision := r\<rparr>,
          callback_events s (map (\<lambda>(k, e). delete_event k e r) (delete_targets s k re)))"
proof -
  have "foldl (\<lambda>d (k, e). omap_erase k d) (mk_data s) (delete_targets s k re)
      = filter (\<lambda>p. fst p \<notin> fst ` set (delete_targets s k re)) (mk_data s)"
    by (rule foldl_omap_erase)
  then show ?thesis
    using assms
    by (cases "em = 0"; cases re)
       (simp_all add: Delete_def callback_events_def Let_def delete_event_def split_def)
qed

lemma Delete_cases:
  obtains (noop) res where "Delete s k re dels em = (res, s, [])"
      "\<forall>n r ds. res = Inr (n, r, ds) \<longrightarrow> delete_targets s k re = [] \<and> n = 0 \<and> r = mk_revision s"
  | (commit) r where "delete_targets s k re \<noteq> []" "r = wrap_s64 (mk_revision s + 1)"
      "Delete s k re dels em =
         (Inr (int (length dels + length (delete_targets s k re)), r,
               dels @ map (\<lambda>(k, e). to_kv k e) (delete_targets s k re)),
          s\<lparr>mk_data := filter (\<lambda>p. fst p \<notin> fst ` set (delete_targets s k re)) (mk_data s),
            mk_revision := r\<rparr>,
          callback_events s (map (\<lambda>(k, e). delete_event k e r) (delete_targets s k re)))"
proof (cases "delete_targets s k re")
  case Nil
  then have "Delete s k re dels em =
      (if em \<noteq> 0 \<and> re \<noteq> [] then Inl K_INVALID else Inr (0, mk_revision s, dels), s, [])"
    by (simp add: Delete_def)
  then show ?thesis by (rule noop) (use Nil in simp)
next
  case (Cons p rest)
  obtain k0 e0 where p: "p = (k0, e0)" by (cases p)
  note targets = Cons [unfolded p]
  show ?thesis
  proof (cases "em \<noteq> 0 \<and> (re \<noteq> [] \<or> ve_modRevision e0 \<noteq> em)")
    case True
    then have "Delete s k re dels em =
        (if re \<noteq> [] then Inl K_INVALID else Inl K_TRY_AGAIN, s, [])"
      using targets by (cases re) (simp_all add: Delete_def)
    then show ?thesis by (rule noop) simp
  next
    case False
    show ?thesis
      by (rule commit [OF _ refl Delete_commit [OF targets False refl]]) (simp add: Cons)
  qed
qed

lemma DeleteIfTtlExpired_commit:
  assumes "map_of (mk_data s) k = Some e" and "ve_modRevision e = r"
    and "ve_ttlGeneration e = g" and "0 < ve_ttlMs e" and "r' = wrap_s64 (mk_revision s + 1)"
  shows "DeleteIfTtlExpired s k r g =
         (True, s\<lparr>mk_data := omap_erase k (mk_data s), mk_revision := r'\<rparr>,
          callback_events s [delete_event k e r'])"
  using assms by (simp add: DeleteIfTtlExpired_def Let_def callback_events_def delete_event_def)

lemma DeleteIfTtlExpired_noop:
  assumes "\<not> (\<exists>e. map_of (mk_data s) k = Some e \<and> ve_modRevision e = r
                \<and> ve_ttlGeneration e = g \<and> 0 < ve_ttlMs e)"
  shows "DeleteIfTtlExpired s k r g = (False, s, [])"
  using assms by (auto simp: DeleteIfTtlExpired_def split: option.split)

lemma DeleteIfTtlExpired_cases:
  obtains (noop) "DeleteIfTtlExpired s k r g = (False, s, [])"
  | (commit) e r' where "map_of (mk_data s) k = Some e" "ve_modRevision e = r"
      "ve_ttlGeneration e = g" "0 < ve_ttlMs e" "r' = wrap_s64 (mk_revision s + 1)"
      "DeleteIfTtlExpired s k r g =
         (True, s\<lparr>mk_data := omap_erase k (mk_data s), mk_revision := r'\<rparr>,
          callback_events s [delete_event k e r'])"
proof (cases "\<exists>e. map_of (mk_data s) k = Some e \<and> ve_modRevision e = r
                \<and> ve_ttlGeneration e = g \<and> 0 < ve_ttlMs e")
  case True
  then obtain e where e: "map_of (mk_data s) k = Some e" "ve_modRevision e = r"
    "ve_ttlGeneration e = g" "0 < ve_ttlMs e" by blast
  show ?thesis by (rule commit [OF e refl DeleteIfTtlExpired_commit [OF e refl]])
next
  case False
  then show ?thesis by (intro noop DeleteIfTtlExpired_noop)
qed

lemma KeepAlive_commit:
  assumes "map_of (mk_data s) k = Some e" and "0 < ve_ttlMs e"
    and "em = 0 \<or> ve_modRevision e = em"
  shows "KeepAlive s k em =
         (Inr (ve_ttlMs e, ve_ttlMs e, ve_modRevision e, ve_ttlGeneration e + 1),
          s\<lparr>mk_data := omap_set k (e\<lparr>ve_ttlGeneration := ve_ttlGeneration e + 1\<rparr>) (mk_data s)\<rparr>)"
  using assms by (auto simp: KeepAlive_def Let_def)

lemma KeepAlive_cases:
  obtains (noop) c where "KeepAlive s k em = (Inl c, s)"
  | (commit) e where "map_of (mk_data s) k = Some e" "0 < ve_ttlMs e"
      "KeepAlive s k em =
         (Inr (ve_ttlMs e, ve_ttlMs e, ve_modRevision e, ve_ttlGeneration e + 1),
          s\<lparr>mk_data := omap_set k (e\<lparr>ve_ttlGeneration := ve_ttlGeneration e + 1\<rparr>) (mk_data s)\<rparr>)"
proof (cases "\<exists>e. map_of (mk_data s) k = Some e \<and> 0 < ve_ttlMs e \<and> (em = 0 \<or> ve_modRevision e = em)")
  case True
  then obtain e where e: "map_of (mk_data s) k = Some e" "0 < ve_ttlMs e"
    "em = 0 \<or> ve_modRevision e = em" by blast
  show ?thesis by (rule commit [OF e(1,2) KeepAlive_commit [OF e]])
next
  case False
  then have "\<exists>c. KeepAlive s k em = (Inl c, s)"
    by (auto simp: KeepAlive_def not_le split: option.split)
  then show ?thesis using noop by blast
qed

subsection \<open>One step of the store\<close>

text \<open>
  Every step of the store is one of four changes. The case rule below is what all the proofs about
  runs use.
\<close>

lemma kv_step_cases:
  obtains (noop) "kv_step s op = (s, [])"
  | (put) k v ttl ev em eg e r where "op = OpPut k v ttl ev em eg"
      "r = wrap_s64 (mk_revision s + 1)" "e = put_entry (map_of (mk_data s) k) v ttl r"
      "kv_step s op = (s\<lparr>mk_data := omap_set k e (mk_data s), mk_revision := r\<rparr>,
                       callback_events s [put_event k e r])"
  | (delete) ts r where "ts \<noteq> []" "r = wrap_s64 (mk_revision s + 1)"
      "omap_ok (mk_data s) \<Longrightarrow> \<forall>(k, e) \<in> set ts. map_of (mk_data s) k = Some e"
      "kv_step s op = (s\<lparr>mk_data := filter (\<lambda>p. fst p \<notin> fst ` set ts) (mk_data s),
                         mk_revision := r\<rparr>,
                       callback_events s (map (\<lambda>(k, e). delete_event k e r) ts))"
  | (renew) k em e where "op = OpKeepAlive k em" "map_of (mk_data s) k = Some e" "0 < ve_ttlMs e"
      "kv_step s op = (s\<lparr>mk_data := omap_set k (e\<lparr>ve_ttlGeneration := ve_ttlGeneration e + 1\<rparr>)
                                             (mk_data s)\<rparr>, [])"
proof (cases op)
  case (OpPut k v ttl ev em eg)
  show ?thesis
  proof (cases rule: Put_cases [of s k ev em eg v ttl])
    case (fail c)
    then show ?thesis using noop OpPut by simp
  next
    case (commit e r)
    then show ?thesis using put [OF OpPut] OpPut by simp
  qed
next
  case (OpDelete k re em)
  have targets: "\<forall>(k', e) \<in> set (delete_targets s k re). map_of (mk_data s) k' = Some e"
    if "omap_ok (mk_data s)"
  proof (cases "re = []")
    case True
    then show ?thesis by (cases "map_of (mk_data s) k") (auto simp: delete_targets_def)
  next
    case False
    then show ?thesis
      using that by (auto simp: delete_targets_def omap_range_filter map_of_eq_Some_iff_omap)
  qed
  show ?thesis
  proof (cases rule: Delete_cases [of s k re "[]" em])
    case (noop res)
    then show ?thesis using that(1) OpDelete by simp
  next
    case (commit r)
    then show ?thesis using delete [OF commit(1) commit(2) targets] OpDelete by simp
  qed
next
  case (OpExpire k r g)
  show ?thesis
  proof (cases rule: DeleteIfTtlExpired_cases [of s k r g])
    case noop
    then show ?thesis using that(1) OpExpire by simp
  next
    case (commit e r')
    then show ?thesis
      using delete [of "[(k, e)]" r'] OpExpire by (simp add: omap_erase_def)
  qed
next
  case (OpKeepAlive k em)
  show ?thesis
  proof (cases rule: KeepAlive_cases [of s k em])
    case (noop c)
    then show ?thesis using that(1) OpKeepAlive by simp
  next
    case (commit e)
    then show ?thesis using renew [OF OpKeepAlive commit(1,2)] OpKeepAlive by simp
  qed
qed

lemma kv_step_omap_ok: "omap_ok (mk_data s) \<Longrightarrow> omap_ok (mk_data (fst (kv_step s op)))"
  by (cases rule: kv_step_cases [of s op]) simp_all

lemma kv_step_hasCallback [simp]: "mk_hasCallback (fst (kv_step s op)) = mk_hasCallback s"
  by (cases rule: kv_step_cases [of s op]) simp_all

lemma kv_step_revision:
  assumes "1 \<le> mk_revision s" and "mk_revision s < INT64_MAX"
  shows "mk_revision s \<le> mk_revision (fst (kv_step s op))"
    and "mk_revision (fst (kv_step s op)) \<le> mk_revision s + 1"
    and "\<forall>ev \<in> set (snd (kv_step s op)). we_revision ev = mk_revision (fst (kv_step s op))
           \<and> mk_revision s < we_revision ev"
proof -
  have "wrap_s64 (mk_revision s + 1) = mk_revision s + 1"
    using assms by (intro wrap_s64_succ) simp_all
  then show "mk_revision s \<le> mk_revision (fst (kv_step s op))"
    and "mk_revision (fst (kv_step s op)) \<le> mk_revision s + 1"
    and "\<forall>ev \<in> set (snd (kv_step s op)). we_revision ev = mk_revision (fst (kv_step s op))
           \<and> mk_revision s < we_revision ev"
    by (cases rule: kv_step_cases [of s op];
        auto simp: callback_events_def put_event_def delete_event_def split: if_splits)+
qed

subsection \<open>The invariant\<close>

lemma entry_ok_mono: "entry_ok r e \<Longrightarrow> r \<le> r' \<Longrightarrow> entry_ok r' e"
  by (auto simp: entry_ok_def)

lemma entry_ok_put_entry:
  assumes "1 \<le> r" and "r < INT64_MAX" and "\<forall>e. old = Some e \<longrightarrow> entry_ok r e"
  shows "entry_ok (r + 1) (put_entry old v ttl (r + 1))"
proof (cases old)
  case None
  then show ?thesis using assms by (simp add: put_entry_def entry_ok_def)
next
  case (Some e)
  then have e: "entry_ok r e" using assms by simp
  then have "wrap_s64 (ve_version e + 1) = ve_version e + 1"
    using assms(2) by (intro wrap_s64_succ) (auto simp: entry_ok_def)
  then show ?thesis using Some e by (auto simp: put_entry_def entry_ok_def)
qed

lemma kv_inv_empty: "kv_inv empty_store"
  by (simp add: kv_inv_def empty_store_def INT64_MAX_def)

lemma kv_inv_step:
  assumes inv: "kv_inv s" and room: "mk_revision s < INT64_MAX"
  shows "kv_inv (fst (kv_step s op))"
proof -
  have ok: "omap_ok (mk_data s)" and r1: "1 \<le> mk_revision s"
    and es: "\<And>k e. map_of (mk_data s) k = Some e \<Longrightarrow> entry_ok (mk_revision s) e"
    using inv by (auto simp: kv_inv_def)
  have wrap: "wrap_s64 (mk_revision s + 1) = mk_revision s + 1"
    using r1 room by (intro wrap_s64_succ) simp_all
  have es': "entry_ok (mk_revision s + 1) e" if "map_of (mk_data s) k = Some e" for k e
    using es [OF that] by (rule entry_ok_mono) simp
  show ?thesis
  proof (cases rule: kv_step_cases [of s op])
    case noop
    then show ?thesis using inv by simp
  next
    case (put k v ttl ev em eg e r)
    have "entry_ok (mk_revision s + 1) e"
      using put(2,3) wrap entry_ok_put_entry [OF r1 room] es by simp
    then show ?thesis using put ok r1 room wrap es' by (auto simp: kv_inv_def)
  next
    case (delete ts r)
    then show ?thesis using ok r1 room wrap es' by (auto simp: kv_inv_def map_of_filter_notin)
  next
    case (renew k em e)
    have "entry_ok (mk_revision s) (e\<lparr>ve_ttlGeneration := ve_ttlGeneration e + 1\<rparr>)"
      using es [OF renew(2)] by (simp add: entry_ok_def)
    then show ?thesis using renew ok r1 room es by (auto simp: kv_inv_def)
  qed
qed

lemma kv_exec_Cons_conv:
  "fst (kv_exec s (op # ops)) = fst (kv_exec (fst (kv_step s op)) ops)"
  "snd (kv_exec s (op # ops)) = snd (kv_step s op) @ snd (kv_exec (fst (kv_step s op)) ops)"
  by (simp_all add: split_def Let_def)

lemma kv_exec_append:
  "fst (kv_exec s (ops1 @ ops2)) = fst (kv_exec (fst (kv_exec s ops1)) ops2)"
  "snd (kv_exec s (ops1 @ ops2)) = snd (kv_exec s ops1) @ snd (kv_exec (fst (kv_exec s ops1)) ops2)"
  by (induction ops1 arbitrary: s) (simp_all add: split_def Let_def)

lemma kv_exec_inv:
  "kv_inv s \<Longrightarrow> mk_revision s + int (length ops) \<le> INT64_MAX \<Longrightarrow>
     kv_inv (fst (kv_exec s ops)) \<and> mk_revision s \<le> mk_revision (fst (kv_exec s ops))
     \<and> mk_revision (fst (kv_exec s ops)) \<le> mk_revision s + int (length ops)"
proof (induction ops arbitrary: s)
  case Nil
  then show ?case by simp
next
  case (Cons op ops)
  let ?s1 = "fst (kv_step s op)"
  have r: "1 \<le> mk_revision s" "mk_revision s < INT64_MAX"
    using Cons.prems by (auto simp: kv_inv_def)
  note rev = kv_step_revision [OF r, of op]
  have "kv_inv ?s1" using Cons.prems(1) r(2) by (rule kv_inv_step)
  moreover have "mk_revision ?s1 + int (length ops) \<le> INT64_MAX"
    using rev(2) Cons.prems(2) by simp
  ultimately have "kv_inv (fst (kv_exec ?s1 ops)) \<and> mk_revision ?s1 \<le> mk_revision (fst (kv_exec ?s1 ops))
     \<and> mk_revision (fst (kv_exec ?s1 ops)) \<le> mk_revision ?s1 + int (length ops)"
    by (rule Cons.IH)
  then show ?case using rev by (simp only: kv_exec_Cons_conv) auto
qed

subsection \<open>The event stream determines the store\<close>

text \<open>
  What a watcher can see of a store: for every key the entry it would read. An event applied to
  such a view is what a watcher does with it.
\<close>

definition kv_view :: "MemoryKvStore \<Rightarrow> string \<Rightarrow> KeyValueEntry option" where
  "kv_view s k = map_option (to_kv k) (map_of (mk_data s) k)"

fun apply_event :: "(string \<Rightarrow> KeyValueEntry option) \<Rightarrow> WatchEvent \<Rightarrow> string \<Rightarrow> KeyValueEntry option" where
  "apply_event view ev =
     (case we_type ev of
        PUT \<Rightarrow> view(kv_key (we_entry ev) \<mapsto> we_entry ev)
      | DELETE \<Rightarrow> view(kv_key (we_entry ev) := None)
      | REWATCH \<Rightarrow> view)"

lemma apply_put_event [simp]: "apply_event view (put_event k e r) = view(k \<mapsto> to_kv k e)"
  by (simp add: put_event_def to_kv_def)

lemma apply_delete_event [simp]: "apply_event view (delete_event k e r) = view(k := None)"
  by (simp add: delete_event_def to_kv_def)

declare apply_event.simps [simp del]

lemma foldl_delete_events:
  "foldl apply_event view (map (\<lambda>(k, e). delete_event k e r) ts)
     = (\<lambda>k. if k \<in> fst ` set ts then None else view k)"
  by (induction ts arbitrary: view) (auto simp: fun_eq_iff)

lemma kv_step_view:
  assumes "omap_ok (mk_data s)" and "mk_hasCallback s"
  shows "kv_view (fst (kv_step s op)) = foldl apply_event (kv_view s) (snd (kv_step s op))"
proof (cases rule: kv_step_cases [of s op])
  case noop
  then show ?thesis by simp
next
  case (put k v ttl ev em eg e r)
  then show ?thesis using assms by (auto simp: kv_view_def callback_events_def)
next
  case (delete ts r)
  then show ?thesis
    using assms
    by (auto simp: kv_view_def callback_events_def foldl_delete_events map_of_filter_notin)
next
  case (renew k em e)
  then show ?thesis using assms by (auto simp: kv_view_def fun_eq_iff to_kv_def)
qed

lemma kv_exec_view:
  "omap_ok (mk_data s) \<Longrightarrow> mk_hasCallback s \<Longrightarrow>
     kv_view (fst (kv_exec s ops)) = foldl apply_event (kv_view s) (snd (kv_exec s ops))"
proof (induction ops arbitrary: s)
  case (Cons op ops)
  then show ?case
    by (simp only: kv_exec_Cons_conv kv_step_view [symmetric] foldl_append kv_step_omap_ok
          kv_step_hasCallback)
qed simp

lemma kv_exec_event_revisions:
  "kv_inv s \<Longrightarrow> mk_revision s + int (length ops) \<le> INT64_MAX \<Longrightarrow>
     sorted (map we_revision (snd (kv_exec s ops)))
     \<and> (\<forall>ev \<in> set (snd (kv_exec s ops)).
           mk_revision s < we_revision ev \<and> we_revision ev \<le> mk_revision (fst (kv_exec s ops)))"
proof (induction ops arbitrary: s)
  case Nil
  then show ?case by simp
next
  case (Cons op ops)
  let ?s1 = "fst (kv_step s op)"
  have r: "1 \<le> mk_revision s" "mk_revision s < INT64_MAX"
    using Cons.prems by (auto simp: kv_inv_def)
  note rev = kv_step_revision [OF r, of op]
  have inv1: "kv_inv ?s1" using Cons.prems(1) r(2) by (rule kv_inv_step)
  have room: "mk_revision ?s1 + int (length ops) \<le> INT64_MAX"
    using rev(2) Cons.prems(2) by simp
  note IH = Cons.IH [OF inv1 room]
  have "sorted (map we_revision (snd (kv_step s op)))"
    using rev(3) by (auto simp: sorted_iff_nth_mono)
  then show ?case
    using IH rev kv_exec_inv [OF inv1 room]
    by (simp only: kv_exec_Cons_conv) (fastforce simp: sorted_append)
qed

subsection \<open>Leases: the pair of modification revision and TTL generation\<close>

definition newer_lease :: "ValueEntry \<Rightarrow> ValueEntry \<Rightarrow> bool" where
  "newer_lease e e' \<longleftrightarrow> ve_modRevision e < ve_modRevision e'
     \<or> ve_modRevision e = ve_modRevision e' \<and> ve_ttlGeneration e < ve_ttlGeneration e'"

text \<open>Every lease of \<open>k\<close> at least as old as \<open>e\<close> is gone from the store.\<close>

definition lease_over :: "MemoryKvStore \<Rightarrow> string \<Rightarrow> ValueEntry \<Rightarrow> bool" where
  "lease_over s k e \<longleftrightarrow> ve_modRevision e \<le> mk_revision s
     \<and> (\<forall>e'. map_of (mk_data s) k = Some e' \<longrightarrow> newer_lease e e')"

definition gens_below :: "nat \<Rightarrow> MemoryKvStore \<Rightarrow> bool" where
  "gens_below n s \<longleftrightarrow> (\<forall>k e. map_of (mk_data s) k = Some e \<longrightarrow> unat (ve_ttlGeneration e) \<le> n)"

lemma unat_gen_succ: "unat (g :: u64) \<le> n \<Longrightarrow> n + 1 < 2 ^ 64 \<Longrightarrow> unat (g + 1) = unat g + 1"
  by (simp add: unat_word_ariths)

lemma gen_succ_greater: "unat (g :: u64) \<le> n \<Longrightarrow> n + 1 < 2 ^ 64 \<Longrightarrow> g < g + 1"
  using unat_gen_succ [of g n] by (simp add: word_less_nat_alt)

lemma gens_below_step:
  assumes "omap_ok (mk_data s)" and "gens_below n s" and "n + 1 < 2 ^ 64"
  shows "gens_below (n + 1) (fst (kv_step s op))"
proof (cases rule: kv_step_cases [of s op])
  case noop
  then show ?thesis using assms by (auto simp: gens_below_def intro: le_SucI)
next
  case (put k v ttl ev em eg e r)
  have "unat (ve_ttlGeneration e) \<le> n + 1"
  proof (cases "map_of (mk_data s) k")
    case (Some e0)
    then have "unat (ve_ttlGeneration e0) \<le> n" using assms(2) by (auto simp: gens_below_def)
    then show ?thesis using unat_gen_succ [OF _ assms(3)] put Some by (simp add: put_entry_def)
  qed (simp add: put put_entry_def)
  then show ?thesis using put assms by (auto simp: gens_below_def intro: le_SucI)
next
  case (delete ts r)
  then show ?thesis
    using assms by (auto simp: gens_below_def map_of_filter_notin intro: le_SucI split: if_splits)
next
  case (renew k em e)
  then have "unat (ve_ttlGeneration e) \<le> n" using assms(2) by (auto simp: gens_below_def)
  then have "unat (ve_ttlGeneration e + 1) \<le> n + 1" using unat_gen_succ [OF _ assms(3)] by simp
  then show ?thesis using renew assms by (auto simp: gens_below_def intro: le_SucI)
qed

text \<open>A step that touches the entry of \<open>k\<close> ends the lease; a lease that is over stays over.\<close>

lemma lease_over_touched:
  assumes inv: "kv_inv s" and room: "mk_revision s < INT64_MAX"
    and gens: "gens_below n s" "n + 1 < 2 ^ 64"
    and e: "map_of (mk_data s) k = Some e"
    and touched: "map_of (mk_data (fst (kv_step s op))) k \<noteq> Some e"
  shows "lease_over (fst (kv_step s op)) k e"
proof -
  have ok: "omap_ok (mk_data s)" and r1: "1 \<le> mk_revision s"
    and le: "ve_modRevision e \<le> mk_revision s"
    using inv e by (auto simp: kv_inv_def entry_ok_def)
  have wrap: "wrap_s64 (mk_revision s + 1) = mk_revision s + 1"
    using r1 room by (intro wrap_s64_succ) simp_all
  have gen: "ve_ttlGeneration e < ve_ttlGeneration e + 1"
    using gens e by (intro gen_succ_greater [of _ n]) (auto simp: gens_below_def)
  show ?thesis
  proof (cases rule: kv_step_cases [of s op])
    case noop
    then show ?thesis using touched e by simp
  next
    case (put k' v ttl ev em eg e' r)
    then show ?thesis
      using touched e ok le wrap
      by (auto simp: lease_over_def newer_lease_def put_entry_def split: if_splits option.splits)
  next
    case (delete ts r)
    then show ?thesis
      using touched e ok le wrap by (auto simp: lease_over_def map_of_filter_notin split: if_splits)
  next
    case (renew k' em e')
    then show ?thesis
      using touched e ok le gen by (auto simp: lease_over_def newer_lease_def split: if_splits)
  qed
qed

lemma lease_over_step:
  assumes inv: "kv_inv s" and room: "mk_revision s < INT64_MAX"
    and gens: "gens_below n s" "n + 1 < 2 ^ 64"
    and over: "lease_over s k e"
  shows "lease_over (fst (kv_step s op)) k e"
proof -
  have ok: "omap_ok (mk_data s)" and r1: "1 \<le> mk_revision s"
    using inv by (auto simp: kv_inv_def)
  have wrap: "wrap_s64 (mk_revision s + 1) = mk_revision s + 1"
    using r1 room by (intro wrap_s64_succ) simp_all
  have gen: "ve_ttlGeneration e' < ve_ttlGeneration e' + 1"
    if "map_of (mk_data s) k' = Some e'" for k' e'
    using gens that by (intro gen_succ_greater [of _ n]) (auto simp: gens_below_def)
  show ?thesis
  proof (cases rule: kv_step_cases [of s op])
    case noop
    then show ?thesis using over by simp
  next
    case (put k' v ttl ev em eg e' r)
    then show ?thesis
      using over ok wrap
      by (auto simp: lease_over_def newer_lease_def put_entry_def split: if_splits option.splits)
  next
    case (delete ts r)
    then show ?thesis
      using over wrap by (auto simp: lease_over_def map_of_filter_notin split: if_splits)
  next
    case (renew k' em e')
    then show ?thesis
      using over ok gen [OF renew(2)]
      by (auto simp: lease_over_def newer_lease_def split: if_splits)
  qed
qed

lemma kv_exec_gens_below:
  "kv_inv s \<Longrightarrow> mk_revision s + int (length ops) \<le> INT64_MAX \<Longrightarrow> gens_below n s \<Longrightarrow>
   n + length ops < 2 ^ 64 \<Longrightarrow> gens_below (n + length ops) (fst (kv_exec s ops))"
proof (induction ops arbitrary: s n)
  case (Cons op ops)
  let ?s1 = "fst (kv_step s op)"
  have r: "1 \<le> mk_revision s" "mk_revision s < INT64_MAX"
    using Cons.prems by (auto simp: kv_inv_def)
  have "gens_below (n + 1) ?s1"
    using Cons.prems by (intro gens_below_step) (auto simp: kv_inv_def)
  moreover have "mk_revision ?s1 + int (length ops) \<le> INT64_MAX"
    using kv_step_revision(2) [OF r, of op] Cons.prems(2) by simp
  ultimately have "gens_below (n + 1 + length ops) (fst (kv_exec ?s1 ops))"
    using Cons.IH [of ?s1 "n + 1"] kv_inv_step [OF Cons.prems(1) r(2)] Cons.prems(4) by simp
  then show ?case by (simp only: kv_exec_Cons_conv) simp
qed simp

lemma kv_exec_lease_over:
  "kv_inv s \<Longrightarrow> mk_revision s + int (length ops) \<le> INT64_MAX \<Longrightarrow> gens_below n s \<Longrightarrow>
   n + length ops < 2 ^ 64 \<Longrightarrow> lease_over s k e \<Longrightarrow> lease_over (fst (kv_exec s ops)) k e"
proof (induction ops arbitrary: s n)
  case (Cons op ops)
  let ?s1 = "fst (kv_step s op)"
  have r: "1 \<le> mk_revision s" "mk_revision s < INT64_MAX"
    using Cons.prems by (auto simp: kv_inv_def)
  have "gens_below (n + 1) ?s1"
    using Cons.prems by (intro gens_below_step) (auto simp: kv_inv_def)
  moreover have "mk_revision ?s1 + int (length ops) \<le> INT64_MAX"
    using kv_step_revision(2) [OF r, of op] Cons.prems(2) by simp
  moreover have "lease_over ?s1 k e"
    using Cons.prems by (intro lease_over_step [OF Cons.prems(1) r(2) Cons.prems(3)]) simp_all
  ultimately have "lease_over (fst (kv_exec ?s1 ops)) k e"
    using Cons.IH [of ?s1 "n + 1"] kv_inv_step [OF Cons.prems(1) r(2)] Cons.prems(4) by simp
  then show ?case by (simp only: kv_exec_Cons_conv)
qed simp

lemma lease_over_no_expiry:
  "lease_over s k e \<Longrightarrow>
     DeleteIfTtlExpired s k (ve_modRevision e) (ve_ttlGeneration e) = (False, s, [])"
  by (rule DeleteIfTtlExpired_noop) (auto simp: lease_over_def newer_lease_def)

subsection \<open>Properties of the store\<close>

definition IsCoordinatorCasConflict :: "StatusCode \<Rightarrow> bool" where
  "IsCoordinatorCasConflict c \<longleftrightarrow> c = K_DATA_INCONSISTENCY \<or> c = K_DUPLICATED \<or> c = K_NOT_FOUND"

text \<open>The store as the coordinator starts it, and its runs.\<close>

definition started_store :: MemoryKvStore where
  "started_store = SetMutationCallback empty_store True"

definition kv_run :: "KvOp list \<Rightarrow> MemoryKvStore \<times> WatchEvent list" where
  "kv_run ops = kv_exec started_store ops"

lemma started_store_facts [simp]:
  "kv_inv started_store" "mk_revision started_store = 1" "mk_hasCallback started_store"
  "gens_below 0 started_store" "mk_data started_store = []"
  by (simp_all add: started_store_def SetMutationCallback_def empty_store_def kv_inv_def
        gens_below_def INT64_MAX_def)

lemma kv_exec_hasCallback [simp]: "mk_hasCallback (fst (kv_exec s ops)) = mk_hasCallback s"
proof (induction ops arbitrary: s)
  case (Cons op ops)
  then show ?case by (simp only: kv_exec_Cons_conv kv_step_hasCallback)
qed simp

lemma kv_run_facts:
  assumes "int (length ops) < INT64_MAX"
  shows "kv_inv (fst (kv_run ops))" "1 \<le> mk_revision (fst (kv_run ops))"
    "mk_revision (fst (kv_run ops)) \<le> 1 + int (length ops)"
    "gens_below (length ops) (fst (kv_run ops))" "mk_hasCallback (fst (kv_run ops))"
  using assms kv_exec_inv [of started_store ops] kv_exec_gens_below [of started_store ops 0]
  by (auto simp: kv_run_def INT64_MAX_def)


text \<open>
  C2. A TTL check that was scheduled for an earlier lease never deletes: whatever entry \<open>e\<close> a key
  had at some point of a run, once any later operation has changed the key (another Put, a
  KeepAlive, a delete, a delete followed by a re-creation), DeleteIfTtlExpired for the revision
  and TTL generation of \<open>e\<close> returns false and changes nothing, at every later point.
\<close>

theorem stale_expiry_never_deletes:
  assumes bound: "int (length (ops1 @ op # ops2)) < INT64_MAX"
    and e: "map_of (mk_data (fst (kv_run ops1))) k = Some e"
    and touched: "map_of (mk_data (fst (kv_run (ops1 @ [op])))) k \<noteq> Some e"
  shows "DeleteIfTtlExpired (fst (kv_run (ops1 @ op # ops2))) k
           (ve_modRevision e) (ve_ttlGeneration e)
         = (False, fst (kv_run (ops1 @ op # ops2)), [])"
proof (rule lease_over_no_expiry)
  let ?s = "fst (kv_run ops1)"
  let ?s1 = "fst (kv_step ?s op)"
  let ?n = "length ops1"
  have split: "fst (kv_run (ops1 @ op # zs)) = fst (kv_exec ?s1 zs)" for zs
    unfolding kv_run_def by (simp only: kv_exec_append kv_exec_Cons_conv)
  have n: "?n + 1 + length ops2 < 2 ^ 64"
    using bound by (simp add: INT64_MAX_def)
  have len: "int ?n < INT64_MAX" using bound by simp
  note s = kv_run_facts [OF len]
  have room: "mk_revision ?s + int (length (op # ops2)) \<le> INT64_MAX"
    using s(3) bound by simp
  then have r: "mk_revision ?s < INT64_MAX" by simp
  have "lease_over ?s1 k e"
    using touched n split [of "[]"] by (intro lease_over_touched [OF s(1) r s(4) _ e]) simp_all
  moreover have "gens_below (?n + 1) ?s1"
    using s(1,4) n by (intro gens_below_step) (auto simp: kv_inv_def)
  moreover have "mk_revision ?s1 + int (length ops2) \<le> INT64_MAX"
    using kv_step_revision(2) [OF s(2) r, of op] room by simp
  ultimately have "lease_over (fst (kv_exec ?s1 ops2)) k e"
    using kv_exec_lease_over [OF kv_inv_step [OF s(1) r]] n by blast
  then show "lease_over (fst (kv_run (ops1 @ op # ops2))) k e"
    by (simp only: split)
qed

text \<open>The admission rule of a conditional Put, as a predicate on the entry and the revision.\<close>

definition put_admissible :: "int \<Rightarrow> ValueEntry option \<Rightarrow> int \<Rightarrow> int \<Rightarrow> int \<Rightarrow> bool" where
  "put_admissible rv old expectedVersion expectedModRevision expectedGlobalRevision \<longleftrightarrow>
     (expectedGlobalRevision = 0 \<or> rv = expectedGlobalRevision)
     \<and> (expectedModRevision = 0 \<or> (\<exists>e. old = Some e \<and> ve_modRevision e = expectedModRevision))
     \<and> (expectedVersion = -1
        \<or> expectedVersion = 0 \<and> old = None
        \<or> expectedVersion \<noteq> 0 \<and> (\<exists>e. old = Some e \<and> ve_version e = expectedVersion))"

lemma put_checks_iff:
  "put_checks s k ev em eg = Inr u \<longleftrightarrow> put_admissible (mk_revision s) (map_of (mk_data s) k) ev em eg"
  by (cases "map_of (mk_data s) k") (auto simp: put_checks_def put_admissible_def)

lemma put_checks_conflict: "put_checks s k ev em eg = Inl c \<Longrightarrow> IsCoordinatorCasConflict c"
  by (auto simp: put_checks_def IsCoordinatorCasConflict_def split: if_splits option.splits)

text \<open>
  C3. Put is a compare-and-swap register per key. On a well-formed store it commits exactly when
  the expected version, modification revision and global revision are admissible; then the
  revision grows by one, the key (and only it) holds the value with that modification revision,
  with version 1 when it was absent and the previous version plus one otherwise. When it does
  not commit it reports one of the three codes coordinator_status.h classifies as a CAS conflict,
  and neither the store nor the watchers see anything.
\<close>

theorem put_is_compare_and_swap:
  assumes "kv_inv s" and "mk_revision s < INT64_MAX"
  shows "case Put s k v ttl ev em eg of
      (Inl c, s', evs) \<Rightarrow>
        \<not> put_admissible (mk_revision s) (map_of (mk_data s) k) ev em eg
        \<and> IsCoordinatorCasConflict c \<and> s' = s \<and> evs = []
    | (Inr (version, revision, gen), s', evs) \<Rightarrow>
        put_admissible (mk_revision s) (map_of (mk_data s) k) ev em eg
        \<and> revision = mk_revision s + 1 \<and> mk_revision s' = revision
        \<and> version = (case map_of (mk_data s) k of None \<Rightarrow> 1 | Some e \<Rightarrow> ve_version e + 1)
        \<and> kv_view s' = (kv_view s)(k \<mapsto> \<lparr>kv_key = k, kv_value = v, kv_version = version,
                                           kv_modRevision = revision\<rparr>)"
proof (cases rule: Put_cases [of s k ev em eg v ttl])
  case (fail c)
  then show ?thesis using put_checks_iff [of s k ev em eg] by (auto dest: put_checks_conflict)
next
  case (commit e r)
  have ok: "omap_ok (mk_data s)" and r1: "1 \<le> mk_revision s"
    and es: "\<And>e. map_of (mk_data s) k = Some e \<Longrightarrow> entry_ok (mk_revision s) e"
    using assms(1) by (auto simp: kv_inv_def)
  have wrap: "wrap_s64 (mk_revision s + 1) = mk_revision s + 1"
    using r1 assms(2) by (intro wrap_s64_succ) simp_all
  have version: "ve_version e = (case map_of (mk_data s) k of None \<Rightarrow> 1 | Some e \<Rightarrow> ve_version e + 1)"
  proof (cases "map_of (mk_data s) k")
    case (Some e0)
    then have "wrap_s64 (ve_version e0 + 1) = ve_version e0 + 1"
      using es [OF Some] assms(2) by (intro wrap_s64_succ) (auto simp: entry_ok_def)
    then show ?thesis using commit(3) Some by (simp add: put_entry_def)
  qed (simp add: commit(3) put_entry_def)
  have "ve_value e = v" "ve_modRevision e = r"
    using commit(3) by (auto simp: put_entry_def split: option.splits)
  moreover have "put_admissible (mk_revision s) (map_of (mk_data s) k) ev em eg"
    using commit(1) put_checks_iff by metis
  ultimately show ?thesis
    using commit(2,4) version wrap ok by (simp add: kv_view_def fun_eq_iff to_kv_def)
qed

text \<open>
  A range read is exact: on a well-formed store, Range over \<open>[key, rangeEnd)\<close> returns the
  entries of precisely the stored keys in that interval, in strictly increasing key order,
  together with the revision at which they were read.
\<close>

lemma range_read_is_exact:
  assumes "kv_inv s" and "rangeEnd \<noteq> []"
  shows "\<exists>kvs. Range_kv s key rangeEnd [] known want = (kvs, mk_revision s, False)
     \<and> sorted_wrt (<) (map kv_key kvs)
     \<and> (\<forall>kv. kv \<in> set kvs \<longleftrightarrow>
          key \<le> kv_key kv \<and> kv_key kv < rangeEnd \<and> kv_view s (kv_key kv) = Some kv)"
proof -
  have ok: "omap_ok (mk_data s)" using assms(1) by (simp add: kv_inv_def)
  let ?es = "filter (\<lambda>p. key \<le> fst p \<and> fst p < rangeEnd) (mk_data s)"
  let ?kvs = "map (\<lambda>(k, e). to_kv k e) ?es"
  have keys: "map kv_key ?kvs = map fst ?es" by (simp add: to_kv_def split_def)
  have "Range_kv s key rangeEnd [] known want = (?kvs, mk_revision s, False)"
    using assms(2) by (simp add: Range_kv_def omap_range_filter [OF ok])
  moreover have "sorted_wrt (<) (map kv_key ?kvs)"
    unfolding keys using omap_ok_filter [OF ok] by (simp add: omap_ok_def)
  moreover have "kv \<in> set ?kvs \<longleftrightarrow>
      key \<le> kv_key kv \<and> kv_key kv < rangeEnd \<and> kv_view s (kv_key kv) = Some kv" for kv
    using map_of_eq_Some_iff_omap [OF ok] by (force simp: kv_view_def to_kv_def)
  ultimately show ?thesis by blast
qed


subsection \<open>Concrete runs\<close>

text \<open>
  A short history: key a is created with a lease; then key b is created on condition that the
  global revision is still 2, and key a is deleted.
\<close>

definition demo_first :: "KvOp list" where
  "demo_first = [OpPut ''a'' ''1'' 5 (-1) 0 0]"

definition demo_rest :: "KvOp list" where
  "demo_rest = [OpPut ''b'' ''2'' 0 0 0 2, OpDelete ''a'' [] 0]"

definition demo_lease :: ValueEntry where
  "demo_lease = \<lparr>ve_value = ''1'', ve_version = 1, ve_createRevision = 2, ve_modRevision = 2,
                 ve_ttlMs = 5, ve_ttlGeneration = 1\<rparr>"

lemmas kv_run_eval = kv_run_def started_store_def empty_store_def SetMutationCallback_def
  Put_def put_checks_def put_entry_def Delete_def delete_targets_def DeleteIfTtlExpired_def
  KeepAlive_def to_kv_def wrap_s64_def INT64_MAX_def omap_range_def Let_def less_char_def demo_first_def demo_rest_def demo_lease_def


theorem stale_expiry_never_deletes_witness:
  "map_of (mk_data (fst (kv_run demo_first))) ''a'' = Some demo_lease
   \<and> DeleteIfTtlExpired (fst (kv_run (demo_first @ OpKeepAlive ''a'' 0 # []))) ''a''
       (ve_modRevision demo_lease) (ve_ttlGeneration demo_lease)
     = (False, fst (kv_run (demo_first @ OpKeepAlive ''a'' 0 # [])), [])"
proof (intro conjI stale_expiry_never_deletes)
  show "map_of (mk_data (fst (kv_run demo_first))) ''a'' = Some demo_lease"
    "map_of (mk_data (fst (kv_run demo_first))) ''a'' = Some demo_lease"
    "map_of (mk_data (fst (kv_run (demo_first @ [OpKeepAlive ''a'' 0])))) ''a'' \<noteq> Some demo_lease"
    "int (length (demo_first @ OpKeepAlive ''a'' 0 # [])) < INT64_MAX"
    by (simp_all add: kv_run_eval)
qed

theorem put_is_compare_and_swap_witness:
  "fst (Put (fst (kv_run demo_first)) ''a'' ''2'' 0 1 0 0) = Inr (2, 3, 2)
   \<and> (case Put (fst (kv_run demo_first)) ''a'' ''2'' 0 0 0 0 of
      (Inl c, s', evs) \<Rightarrow> IsCoordinatorCasConflict c | (Inr _, _, _) \<Rightarrow> False)"
proof -
  let ?s = "fst (kv_run demo_first)"
  have "kv_inv ?s" "mk_revision ?s < INT64_MAX"
    by (rule kv_run_facts) (simp_all add: kv_run_eval)
  from put_is_compare_and_swap [OF this, where k = "''a''" and v = "''2''" and ttl = 0
      and ev = 0 and em = 0 and eg = 0]
  have "case Put ?s ''a'' ''2'' 0 0 0 0 of
      (Inl c, s', evs) \<Rightarrow> IsCoordinatorCasConflict c
    | (Inr _, _, _) \<Rightarrow> put_admissible (mk_revision ?s) (map_of (mk_data ?s) ''a'') 0 0 0"
    by (auto split: prod.splits sum.splits)
  then show ?thesis by (auto simp: kv_run_eval put_admissible_def)
qed

lemma range_read_is_exact_witness:
  "\<exists>kvs. Range_kv (fst (kv_run demo_first)) ''a'' ''b'' [] 0 False = (kvs, 2, False)
     \<and> (\<forall>kv. kv \<in> set kvs \<longleftrightarrow> ''a'' \<le> kv_key kv \<and> kv_key kv < ''b''
            \<and> kv_view (fst (kv_run demo_first)) (kv_key kv) = Some kv)"
proof -
  have "kv_inv (fst (kv_run demo_first))" "mk_revision (fst (kv_run demo_first)) = 2"
    by (rule kv_run_facts) (simp_all add: kv_run_eval)
  then show ?thesis
    using range_read_is_exact [of "fst (kv_run demo_first)" "''b''" "''a''" 0 False] by auto
qed


end
