(* ===== verification/TtlManager.thy ===== *)
theory TtlManager
  imports DS_Prelude
begin

section \<open>Lease expiry scheduling\<close>

text \<open>
  Models src/datasystem/common/coordinator/ttl_manager.{h,cpp}. The multimap \<open>expiryMap_\<close> is the
  list of its nodes in iteration order; a node has an address, so that the iterators stored in
  \<open>expiryIndex_\<close> are those addresses and the comparison \<open>indexIt->second == it\<close> is equality of
  addresses. Time points are nanoseconds of the steady clock, an input of the operations that
  read the clock. One pass of the body of CheckExpiration is \<open>CheckExpiration\<close>: the condition
  variable only decides when a pass happens, and a pass on a queue with nothing due does nothing.
\<close>

subsection \<open>Data\<close>

record TtlScheduleRecord =
  tr_key :: string
  tr_revision :: int
  tr_ttlGeneration :: u64
  tr_expireTime :: int

record ExpiredTtlRecord =
  er_key :: string
  er_revision :: int
  er_ttlGeneration :: u64

type_synonym ttl_node = "nat \<times> TtlScheduleRecord"

record TtlManager =
  tm_expiryMap :: "ttl_node list"
  tm_expiryIndex :: "string \<rightharpoonup> nat"
  tm_nextNode :: nat
  tm_hasCallback :: bool
  tm_running :: bool

definition MAX_EXPIRED_KEYS_PER_CHECK :: nat where
  "MAX_EXPIRED_KEYS_PER_CHECK = 1024"

definition new_TtlManager :: TtlManager where
  "new_TtlManager = \<lparr>tm_expiryMap = [], tm_expiryIndex = Map.empty, tm_nextNode = 0,
                    tm_hasCallback = False, tm_running = False\<rparr>"

subsection \<open>Operations\<close>

text \<open>std::multimap::emplace puts the node after the nodes with an equal key.\<close>

fun multimap_emplace :: "ttl_node \<Rightarrow> ttl_node list \<Rightarrow> ttl_node list" where
  "multimap_emplace n [] = [n]"
| "multimap_emplace n (m # ms) =
     (if tr_expireTime (snd n) < tr_expireTime (snd m) then n # m # ms
      else m # multimap_emplace n ms)"

definition node_erase :: "nat \<Rightarrow> ttl_node list \<Rightarrow> ttl_node list" where
  "node_erase a ms = filter (\<lambda>n. fst n \<noteq> a) ms"

definition NANOS_PER_MILLI :: int where
  "NANOS_PER_MILLI = 1000000"

definition expire_time :: "int \<Rightarrow> int \<Rightarrow> int" where
  "expire_time now ttlMs = wrap_s64 (now + wrap_s64 (ttlMs * NANOS_PER_MILLI))"

text \<open>Whether the record of an already scheduled lease is newer than the one offered.\<close>

definition older_lease :: "int \<Rightarrow> u64 \<Rightarrow> TtlScheduleRecord \<Rightarrow> bool" where
  "older_lease revision ttlGeneration existing \<longleftrightarrow>
     revision < tr_revision existing
     \<or> revision = tr_revision existing \<and> ttlGeneration < tr_ttlGeneration existing"

definition Schedule :: "TtlManager \<Rightarrow> int \<Rightarrow> string \<Rightarrow> int \<Rightarrow> int \<Rightarrow> u64 \<Rightarrow> TtlManager" where
  "Schedule m now key ttlMs revision ttlGeneration =
     (if ttlMs \<le> 0 then m
      else
        let expireTime = expire_time now ttlMs;
            record = \<lparr>tr_key = key, tr_revision = revision, tr_ttlGeneration = ttlGeneration,
                      tr_expireTime = expireTime\<rparr>;
            emplace = (\<lambda>ms. m\<lparr>tm_expiryMap := multimap_emplace (tm_nextNode m, record) ms,
                              tm_expiryIndex := (tm_expiryIndex m)(key \<mapsto> tm_nextNode m),
                              tm_nextNode := Suc (tm_nextNode m)\<rparr>)
        in case tm_expiryIndex m key of
             None \<Rightarrow> emplace (tm_expiryMap m)
           | Some a \<Rightarrow>
               (case map_of (tm_expiryMap m) a of
                  None \<Rightarrow> emplace (tm_expiryMap m)
                | Some existing \<Rightarrow>
                    (if older_lease revision ttlGeneration existing then m
                     else emplace (node_erase a (tm_expiryMap m)))))"

definition SetExpireCallback :: "TtlManager \<Rightarrow> bool \<Rightarrow> TtlManager" where
  "SetExpireCallback m cb = m\<lparr>tm_hasCallback := cb\<rparr>"

definition Ttl_Start :: "TtlManager \<Rightarrow> TtlManager" where
  "Ttl_Start m = (if tm_running m then m else m\<lparr>tm_running := True\<rparr>)"

definition Ttl_Stop :: "TtlManager \<Rightarrow> TtlManager" where
  "Ttl_Stop m = (if \<not> tm_running m then m else m\<lparr>tm_running := False\<rparr>)"

text \<open>The drain loop of CheckExpiration, on the two containers and \<open>expiredKeys\<close>.\<close>

fun drain_expired :: "int \<Rightarrow> ttl_node list \<Rightarrow> (string \<rightharpoonup> nat) \<Rightarrow> ExpiredTtlRecord list
    \<Rightarrow> ttl_node list \<times> (string \<rightharpoonup> nat) \<times> ExpiredTtlRecord list" where
  "drain_expired now [] idx expired = ([], idx, expired)"
| "drain_expired now ((a, r) # ms) idx expired =
     (if tr_expireTime r \<le> now \<and> length expired < MAX_EXPIRED_KEYS_PER_CHECK then
        drain_expired now ms
          (if idx (tr_key r) = Some a then idx(tr_key r := None) else idx)
          (expired @ [\<lparr>er_key = tr_key r, er_revision = tr_revision r,
                       er_ttlGeneration = tr_ttlGeneration r\<rparr>])
      else ((a, r) # ms, idx, expired))"

text \<open>
  One pass of the expiration thread: the new state and the records it passes to the callback,
  in order.
\<close>

definition CheckExpiration :: "TtlManager \<Rightarrow> int \<Rightarrow> TtlManager \<times> ExpiredTtlRecord list" where
  "CheckExpiration m now =
     (if \<not> tm_running m then (m, [])
      else case drain_expired now (tm_expiryMap m) (tm_expiryIndex m) [] of
        (ms, idx, expired) \<Rightarrow>
          (m\<lparr>tm_expiryMap := ms, tm_expiryIndex := idx\<rparr>,
           if tm_hasCallback m then expired else []))"

subsection \<open>Invariant\<close>

text \<open>
  The nodes are ordered by expiry time and have distinct addresses below the next fresh one; the
  index points at the node of each scheduled key, and every node is indexed by its key.
\<close>

definition ttl_inv :: "TtlManager \<Rightarrow> bool" where
  "ttl_inv m \<longleftrightarrow>
     sorted (map (tr_expireTime \<circ> snd) (tm_expiryMap m))
     \<and> distinct (map fst (tm_expiryMap m))
     \<and> (\<forall>n \<in> set (tm_expiryMap m). fst n < tm_nextNode m)
     \<and> (\<forall>k a. tm_expiryIndex m k = Some a
          \<longleftrightarrow> (\<exists>r. (a, r) \<in> set (tm_expiryMap m) \<and> tr_key r = k))"

text \<open>What the containers mean: the scheduled record of each key.\<close>

definition ttl_view :: "TtlManager \<Rightarrow> string \<Rightarrow> TtlScheduleRecord option" where
  "ttl_view m k = (case tm_expiryIndex m k of None \<Rightarrow> None | Some a \<Rightarrow> map_of (tm_expiryMap m) a)"

lemma set_multimap_emplace [simp]: "set (multimap_emplace n ms) = insert n (set ms)"
  by (induction ms) auto

lemma sorted_multimap_emplace:
  "sorted (map (tr_expireTime \<circ> snd) ms)
     \<Longrightarrow> sorted (map (tr_expireTime \<circ> snd) (multimap_emplace n ms))"
  by (induction ms) (auto simp: not_less)

lemma distinct_multimap_emplace [simp]:
  "distinct (map fst (multimap_emplace n ms)) \<longleftrightarrow> fst n \<notin> fst ` set ms \<and> distinct (map fst ms)"
  by (induction ms) auto

lemma node_erase_facts [simp]:
  "set (node_erase a ms) = {n \<in> set ms. fst n \<noteq> a}"
  "sorted (map (tr_expireTime \<circ> snd) ms) \<Longrightarrow> sorted (map (tr_expireTime \<circ> snd) (node_erase a ms))"
  "distinct (map fst ms) \<Longrightarrow> distinct (map fst (node_erase a ms))"
  by (auto simp: node_erase_def sorted_filter distinct_map_filter)

lemma ttl_view_iff:
  assumes "ttl_inv m"
  shows "ttl_view m k = Some r \<longleftrightarrow> (\<exists>a. (a, r) \<in> set (tm_expiryMap m)) \<and> tr_key r = k"
proof -
  have d: "distinct (map fst (tm_expiryMap m))"
    and idx: "\<And>a. tm_expiryIndex m k = Some a
          \<longleftrightarrow> (\<exists>r. (a, r) \<in> set (tm_expiryMap m) \<and> tr_key r = k)"
    using assms by (auto simp: ttl_inv_def)
  show ?thesis
  proof (cases "tm_expiryIndex m k")
    case None
    then show ?thesis using idx by (auto simp: ttl_view_def)
  next
    case (Some a)
    then obtain r' where r': "(a, r') \<in> set (tm_expiryMap m)" "tr_key r' = k" using idx by blast
    then have "map_of (tm_expiryMap m) a = Some r'" using d by simp
    moreover have "b = a \<and> r = r'" if "(b, r) \<in> set (tm_expiryMap m)" "tr_key r = k" for b
      using that idx [of b] Some d r' by (auto dest: eq_key_imp_eq_value)
    ultimately show ?thesis using r' Some by (auto simp: ttl_view_def)
  qed
qed

lemma new_TtlManager_inv [simp]: "ttl_inv new_TtlManager"
  by (simp add: ttl_inv_def new_TtlManager_def)

subsection \<open>Schedule\<close>

text \<open>The nodes left once the record of a key has been erased.\<close>

definition nodes_without :: "TtlManager \<Rightarrow> string \<Rightarrow> ttl_node list" where
  "nodes_without m k = (case tm_expiryIndex m k of None \<Rightarrow> tm_expiryMap m
                        | Some a \<Rightarrow> node_erase a (tm_expiryMap m))"

lemma nodes_without_facts:
  assumes "ttl_inv m"
  shows "set (nodes_without m k) = {n \<in> set (tm_expiryMap m). tr_key (snd n) \<noteq> k}"
    "sorted (map (tr_expireTime \<circ> snd) (nodes_without m k))"
    "distinct (map fst (nodes_without m k))"
proof -
  have idx: "\<And>a. tm_expiryIndex m k = Some a
          \<longleftrightarrow> (\<exists>r. (a, r) \<in> set (tm_expiryMap m) \<and> tr_key r = k)"
    and d: "distinct (map fst (tm_expiryMap m))"
    using assms by (auto simp: ttl_inv_def)
  show "set (nodes_without m k) = {n \<in> set (tm_expiryMap m). tr_key (snd n) \<noteq> k}"
  proof (cases "tm_expiryIndex m k")
    case None
    then have "tr_key (snd n) \<noteq> k" if "n \<in> set (tm_expiryMap m)" for n
      using idx [of "fst n"] that prod.collapse [of n] by auto
    then show ?thesis using None by (simp add: nodes_without_def) blast
  next
    case (Some a)
    then obtain r' where r': "(a, r') \<in> set (tm_expiryMap m)" "tr_key r' = k" using idx by blast
    have "fst n \<noteq> a \<longleftrightarrow> tr_key (snd n) \<noteq> k" if "n \<in> set (tm_expiryMap m)" for n
    proof -
      obtain b r where "n = (b, r)" by (cases n)
      then show ?thesis
        using that idx [of b] Some r' eq_key_imp_eq_value [OF d, of a r r'] by auto
    qed
    then show ?thesis using Some by (simp add: nodes_without_def) blast
  qed
qed (use assms in \<open>auto simp: nodes_without_def ttl_inv_def split: option.splits\<close>)

lemma Schedule_cases:
  assumes "ttl_inv m"
  obtains (ignored) "ttlMs \<le> 0 \<or> (\<exists>r. ttl_view m k = Some r \<and> older_lease rv gen r)"
      "Schedule m now k ttlMs rv gen = m"
  | (scheduled) "0 < ttlMs" "\<forall>r. ttl_view m k = Some r \<longrightarrow> \<not> older_lease rv gen r"
      "Schedule m now k ttlMs rv gen =
         m\<lparr>tm_expiryMap := multimap_emplace (tm_nextNode m,
               \<lparr>tr_key = k, tr_revision = rv, tr_ttlGeneration = gen,
                tr_expireTime = expire_time now ttlMs\<rparr>) (nodes_without m k),
           tm_expiryIndex := (tm_expiryIndex m)(k \<mapsto> tm_nextNode m),
           tm_nextNode := Suc (tm_nextNode m)\<rparr>"
proof (cases "ttlMs \<le> 0")
  case True
  then show ?thesis by (intro ignored) (auto simp: Schedule_def)
next
  case pos: False
  show ?thesis
  proof (cases "tm_expiryIndex m k")
    case None
    then show ?thesis
      using pos by (intro scheduled) (auto simp: Schedule_def Let_def nodes_without_def ttl_view_def)
  next
    case (Some a)
    have d: "distinct (map fst (tm_expiryMap m))" using assms by (simp add: ttl_inv_def)
    obtain r where "(a, r) \<in> set (tm_expiryMap m)" using assms Some by (auto simp: ttl_inv_def)
    then have r: "map_of (tm_expiryMap m) a = Some r" using d by simp
    show ?thesis
    proof (cases "older_lease rv gen r")
      case True
      then show ?thesis
        using pos Some r by (intro ignored) (auto simp: Schedule_def ttl_view_def)
    next
      case False
      then show ?thesis
        using pos Some r
        by (intro scheduled) (auto simp: Schedule_def Let_def nodes_without_def ttl_view_def)
    qed
  qed
qed

lemma Schedule_inv [simp]:
  assumes "ttl_inv m"
  shows "ttl_inv (Schedule m now k ttlMs rv gen)"
  using assms
proof (cases rule: Schedule_cases [where ttlMs = ttlMs and k = k and rv = rv and gen = gen and now = now])
  case ignored
  then show ?thesis using assms by simp
next
  case scheduled
  note f = nodes_without_facts [OF assms, of k]
  have lt: "\<And>a r. (a, r) \<in> set (tm_expiryMap m) \<Longrightarrow> a < tm_nextNode m"
    and idx: "\<And>k a. tm_expiryIndex m k = Some a
          \<longleftrightarrow> (\<exists>r. (a, r) \<in> set (tm_expiryMap m) \<and> tr_key r = k)"
    using assms by (auto simp: ttl_inv_def)
  have fresh: "tm_nextNode m \<notin> fst ` set (nodes_without m k)"
    using lt by (force simp: f(1))
  show ?thesis
    unfolding scheduled(3) ttl_inv_def
    using fresh lt by (auto simp: f sorted_multimap_emplace idx less_SucI)
qed

text \<open>
  The contract of Schedule on the view: leases are ordered by revision and then by TTL generation,
  and a key keeps the largest one it was offered. The deadline is the sum of the clock and the TTL
  in the arithmetic of the 64-bit clock.
\<close>

definition lease_le :: "int \<times> u64 \<Rightarrow> int \<times> u64 \<Rightarrow> bool" where
  "lease_le a b \<longleftrightarrow> fst a < fst b \<or> fst a = fst b \<and> snd a \<le> snd b"

lemma older_lease_iff: "older_lease rv g r \<longleftrightarrow> \<not> lease_le (tr_revision r, tr_ttlGeneration r) (rv, g)"
  by (auto simp: older_lease_def lease_le_def)

lemma expire_time_wrap: "expire_time now t = wrap_s64 (now + t * NANOS_PER_MILLI)"
  by (simp add: expire_time_def wrap_s64_def mod_simps algebra_simps)

definition schedule_spec :: "(string \<Rightarrow> TtlScheduleRecord option) \<Rightarrow> int \<Rightarrow> string \<Rightarrow> int \<Rightarrow> int \<Rightarrow> u64
    \<Rightarrow> (string \<Rightarrow> TtlScheduleRecord option)" where
  "schedule_spec v now k ttlMs rv gen =
     (if ttlMs \<le> 0 \<or> (\<exists>r. v k = Some r \<and> \<not> lease_le (tr_revision r, tr_ttlGeneration r) (rv, gen)) then v
      else v(k \<mapsto> \<lparr>tr_key = k, tr_revision = rv, tr_ttlGeneration = gen,
                   tr_expireTime = wrap_s64 (now + ttlMs * NANOS_PER_MILLI)\<rparr>))"

lemma schedule_spec_older:
  "schedule_spec v now k ttlMs rv gen =
     (if ttlMs \<le> 0 \<or> (case v k of None \<Rightarrow> False | Some r \<Rightarrow> older_lease rv gen r) then v
      else v(k \<mapsto> \<lparr>tr_key = k, tr_revision = rv, tr_ttlGeneration = gen,
                   tr_expireTime = expire_time now ttlMs\<rparr>))"
  by (auto simp: schedule_spec_def older_lease_iff expire_time_wrap split: option.splits)

lemma Schedule_view:
  assumes "ttl_inv m"
  shows "ttl_view (Schedule m now k ttlMs rv gen) = schedule_spec (ttl_view m) now k ttlMs rv gen"
  using assms
proof (cases rule: Schedule_cases [where ttlMs = ttlMs and k = k and rv = rv and gen = gen and now = now])
  case ignored
  then show ?thesis by (auto simp: schedule_spec_older)
next
  case scheduled
  let ?r = "\<lparr>tr_key = k, tr_revision = rv, tr_ttlGeneration = gen,
             tr_expireTime = expire_time now ttlMs\<rparr>"
  have "ttl_view (Schedule m now k ttlMs rv gen) k' = Some r
      \<longleftrightarrow> ((ttl_view m)(k \<mapsto> ?r)) k' = Some r" for k' r
    using ttl_view_iff [OF assms, of k' r]
      ttl_view_iff [OF Schedule_inv [OF assms], of now k ttlMs rv gen k' r]
      nodes_without_facts(1) [OF assms, of k] scheduled(3)
    by auto
  then have "ttl_view (Schedule m now k ttlMs rv gen) = (ttl_view m)(k \<mapsto> ?r)"
    by (intro ext option_eqI) simp
  then show ?thesis
    using scheduled(1,2) by (auto simp: schedule_spec_older split: option.splits)
qed

subsection \<open>The expiration pass\<close>

definition expired_of :: "TtlScheduleRecord \<Rightarrow> ExpiredTtlRecord" where
  "expired_of r = \<lparr>er_key = tr_key r, er_revision = tr_revision r,
                   er_ttlGeneration = tr_ttlGeneration r\<rparr>"

text \<open>The nodes one pass takes out: the due ones, from the front, up to the batch limit.\<close>

definition due_batch :: "int \<Rightarrow> nat \<Rightarrow> ttl_node list \<Rightarrow> ttl_node list" where
  "due_batch now room ms = take room (takeWhile (\<lambda>n. tr_expireTime (snd n) \<le> now) ms)"

lemma due_batch_simps [simp]:
  "due_batch now room [] = []"
  "due_batch now 0 ms = []"
  "due_batch now (Suc room) (n # ms) =
     (if tr_expireTime (snd n) \<le> now then n # due_batch now room ms else [])"
  by (auto simp: due_batch_def)

definition index_without :: "ttl_node list \<Rightarrow> (string \<rightharpoonup> nat) \<Rightarrow> (string \<rightharpoonup> nat)" where
  "index_without B idx k =
     (case idx k of None \<Rightarrow> None
      | Some a \<Rightarrow> if \<exists>r. (a, r) \<in> set B \<and> tr_key r = k then None else Some a)"

lemma index_without_Nil [simp]: "index_without [] idx = idx"
  by (rule ext) (auto simp: index_without_def split: option.splits)

lemma index_without_Cons:
  "index_without ((a, r) # B) idx =
     index_without B (if idx (tr_key r) = Some a then idx(tr_key r := None) else idx)"
  by (rule ext) (auto simp: index_without_def split: option.splits)

lemma drain_expired_eq:
  "drain_expired now ms idx ex =
     (let B = due_batch now (MAX_EXPIRED_KEYS_PER_CHECK - length ex) ms
      in (drop (length B) ms, index_without B idx, ex @ map (expired_of \<circ> snd) B))"
proof (induction now ms idx ex rule: drain_expired.induct)
  case (2 now a r ms idx ex)
  show ?case
  proof (cases "tr_expireTime r \<le> now \<and> length ex < MAX_EXPIRED_KEYS_PER_CHECK")
    case True
    then have room: "MAX_EXPIRED_KEYS_PER_CHECK - length ex
        = Suc (MAX_EXPIRED_KEYS_PER_CHECK - Suc (length ex))"
      by (simp add: Suc_diff_Suc)
    show ?thesis
      unfolding room using 2 [OF True] True
      by (simp add: index_without_Cons Let_def expired_of_def)
  next
    case False
    then have "due_batch now (MAX_EXPIRED_KEYS_PER_CHECK - length ex) ((a, r) # ms) = []"
      by (cases "MAX_EXPIRED_KEYS_PER_CHECK - length ex") auto
    then show ?thesis using False by auto
  qed
qed simp

lemma due_batch_prefix: "due_batch now room ms @ drop (length (due_batch now room ms)) ms = ms"
proof (induction ms arbitrary: room)
  case (Cons n ms)
  then show ?case by (cases room) auto
qed simp

lemma due_batch_due: "n \<in> set (due_batch now room ms) \<Longrightarrow> tr_expireTime (snd n) \<le> now"
  by (auto simp: due_batch_def dest!: in_set_takeD set_takeWhileD)

lemma due_batch_length:
  "sorted (map (tr_expireTime \<circ> snd) ms) \<Longrightarrow>
     length (due_batch now room ms)
       = min room (length (filter (\<lambda>n. tr_expireTime (snd n) \<le> now) ms))"
proof -
  assume "sorted (map (tr_expireTime \<circ> snd) ms)"
  then have "takeWhile (\<lambda>n. tr_expireTime (snd n) \<le> now) ms
      = filter (\<lambda>n. tr_expireTime (snd n) \<le> now) ms"
    by (induction ms) (auto intro!: filter_False [symmetric])
  then show ?thesis by (simp add: due_batch_def min.commute)
qed

lemma CheckExpiration_eq:
  assumes "tm_running m"
  shows "CheckExpiration m now =
    (let B = due_batch now MAX_EXPIRED_KEYS_PER_CHECK (tm_expiryMap m)
     in (m\<lparr>tm_expiryMap := drop (length B) (tm_expiryMap m),
           tm_expiryIndex := index_without B (tm_expiryIndex m)\<rparr>,
         if tm_hasCallback m then map (expired_of \<circ> snd) B else []))"
  using assms by (simp add: CheckExpiration_def drain_expired_eq Let_def)

lemma CheckExpiration_inv [simp]:
  assumes "ttl_inv m"
  shows "ttl_inv (fst (CheckExpiration m now))"
proof (cases "tm_running m")
  case True
  let ?B = "due_batch now MAX_EXPIRED_KEYS_PER_CHECK (tm_expiryMap m)"
  let ?ms = "drop (length ?B) (tm_expiryMap m)"
  have split: "tm_expiryMap m = ?B @ ?ms" by (rule due_batch_prefix [symmetric])
  have sets: "set (tm_expiryMap m) = set ?B \<union> set ?ms" by (subst split) simp
  have d: "distinct (map fst (?B @ ?ms))" using assms split by (simp add: ttl_inv_def)
  have so: "sorted (map (tr_expireTime \<circ> snd) ?ms)"
    using assms by (simp add: ttl_inv_def drop_map [symmetric] sorted_wrt_drop)
  have idx: "index_without ?B (tm_expiryIndex m) k = Some a
      \<longleftrightarrow> (\<exists>r. (a, r) \<in> set ?ms \<and> tr_key r = k)" for k a
  proof -
    have old: "tm_expiryIndex m k = Some a \<longleftrightarrow>
        (\<exists>r. (a, r) \<in> set ?B \<union> set ?ms \<and> tr_key r = k)"
      using assms by (simp add: ttl_inv_def sets)
    have "(a, r) \<in> set ?ms \<Longrightarrow> (a, r') \<notin> set ?B" for r r'
      using d by (force simp: image_iff)
    then show ?thesis using old by (auto simp: index_without_def split: option.splits)
  qed
  have "\<forall>n \<in> set ?ms. fst n < tm_nextNode m"
    using assms sets by (auto simp: ttl_inv_def)
  then show ?thesis
    using d so idx True by (simp add: CheckExpiration_eq Let_def ttl_inv_def)
qed (use assms in \<open>simp add: CheckExpiration_def\<close>)

text \<open>A pass moves the records of its batch out of the view and hands them to the callback.\<close>

lemma CheckExpiration_view:
  fixes now :: int
  assumes "ttl_inv m" and "tm_running m"
  defines "B \<equiv> due_batch now MAX_EXPIRED_KEYS_PER_CHECK (tm_expiryMap m)"
  shows "ttl_view (fst (CheckExpiration m now)) k
    = (if k \<in> (tr_key \<circ> snd) ` set B then None else ttl_view m k)"
proof -
  let ?m = "fst (CheckExpiration m now)"
  let ?ms = "drop (length B) (tm_expiryMap m)"
  have sets: "set (tm_expiryMap m) = set B \<union> set ?ms"
    using due_batch_prefix [of now MAX_EXPIRED_KEYS_PER_CHECK "tm_expiryMap m"]
    by (metis B_def set_append)
  have map: "tm_expiryMap ?m = ?ms" using assms(2) by (simp add: CheckExpiration_eq Let_def B_def)
  have d: "distinct (map fst (B @ ?ms))"
    using assms(1) due_batch_prefix [of now MAX_EXPIRED_KEYS_PER_CHECK "tm_expiryMap m"]
    by (simp add: ttl_inv_def B_def)
  have uniq: "n = n'" if "n \<in> set B \<union> set ?ms" "n' \<in> set B \<union> set ?ms"
    "tr_key (snd n) = tr_key (snd n')" for n n'
  proof -
    obtain a r b r' where n: "n = (a, r)" "n' = (b, r')" by (metis surj_pair)
    have "ttl_view m (tr_key r) = Some r" "ttl_view m (tr_key r) = Some r'"
      using that n ttl_view_iff [OF assms(1)] sets by auto
    moreover have "tm_expiryIndex m (tr_key r) = Some a" "tm_expiryIndex m (tr_key r) = Some b"
      using that n assms(1) sets by (auto simp: ttl_inv_def)
    ultimately show ?thesis using n by simp
  qed
  have disj: "set B \<inter> set ?ms = {}" using d by (simp only: distinct_map distinct_append)
  have out: "tr_key r \<notin> (tr_key \<circ> snd) ` set B" if "(a, r) \<in> set ?ms" for a r
  proof
    assume "tr_key r \<in> (tr_key \<circ> snd) ` set B"
    then obtain n where "n \<in> set B" "tr_key (snd n) = tr_key r" by auto
    then show False using uniq [of n "(a, r)"] that disj by auto
  qed
  have into: "tr_key r \<in> (tr_key \<circ> snd) ` set B" if "(a, r) \<in> set B" for a r
    using that by force
  have "ttl_view ?m k = Some r \<longleftrightarrow>
      (if k \<in> (tr_key \<circ> snd) ` set B then None else ttl_view m k) = Some r" for r
  proof -
    have "(\<exists>a. (a, r) \<in> set ?ms) \<and> tr_key r = k \<longleftrightarrow>
        k \<notin> (tr_key \<circ> snd) ` set B \<and> (\<exists>a. (a, r) \<in> set B \<union> set ?ms) \<and> tr_key r = k"
      using out [of _ r] into [of _ r] by blast
    then show ?thesis
      using ttl_view_iff [OF CheckExpiration_inv [OF assms(1)], of now k r]
        ttl_view_iff [OF assms(1), of k r] by (simp add: map sets)
  qed
  then show ?thesis by (intro option_eqI) simp
qed

subsection \<open>Properties\<close>

text \<open>
  C5. The schedule keeps the newest lease of every key. On a well-formed manager, Schedule
  implements its contract on the map from keys to scheduled leases: a lease with a positive TTL
  replaces whatever was scheduled for its key unless the scheduled one has a larger revision, or
  the same revision and a larger TTL generation, in which case nothing changes; other keys are
  untouched, and the manager stays well-formed.
\<close>

theorem schedule_refines_newest_lease:
  "ttl_inv m \<Longrightarrow>
     ttl_inv (Schedule m now k ttlMs rv gen)
     \<and> ttl_view (Schedule m now k ttlMs rv gen) = schedule_spec (ttl_view m) now k ttlMs rv gen"
  by (simp add: Schedule_view)

text \<open>The keys that are due at a time.\<close>

definition due_keys :: "TtlManager \<Rightarrow> int \<Rightarrow> string set" where
  "due_keys m now = {k. \<exists>r. ttl_view m k = Some r \<and> tr_expireTime r \<le> now}"

lemma distinct_keys:
  assumes "ttl_inv m"
  shows "distinct (map (tr_key \<circ> snd) (tm_expiryMap m))"
proof -
  have idx: "tm_expiryIndex m (tr_key (snd n)) = Some (fst n)" if "n \<in> set (tm_expiryMap m)" for n
    using assms that by (simp add: ttl_inv_def) (metis prod.collapse)
  have d: "distinct (map fst (tm_expiryMap m))" using assms by (simp add: ttl_inv_def)
  have "inj_on (tr_key \<circ> snd) (set (tm_expiryMap m))"
  proof (rule inj_onI)
    fix n n' assume n: "n \<in> set (tm_expiryMap m)" "n' \<in> set (tm_expiryMap m)"
      and eq: "(tr_key \<circ> snd) n = (tr_key \<circ> snd) n'"
    then have "fst n = fst n'" using idx by (metis comp_apply option.inject)
    then show "n = n'" using n d by (auto simp: distinct_map dest: inj_onD)
  qed
  then show ?thesis using d by (simp add: distinct_map)
qed

lemma due_keys_eq:
  assumes "ttl_inv m"
  shows "due_keys m now =
    (tr_key \<circ> snd) ` set (filter (\<lambda>n. tr_expireTime (snd n) \<le> now) (tm_expiryMap m))"
  using ttl_view_iff [OF assms] by (force simp: due_keys_def)

lemma card_due_keys:
  assumes "ttl_inv m"
  shows "card (due_keys m now)
    = length (filter (\<lambda>n. tr_expireTime (snd n) \<le> now) (tm_expiryMap m))"
proof -
  let ?f = "filter (\<lambda>n. tr_expireTime (snd n) \<le> now) (tm_expiryMap m)"
  have "distinct (map (tr_key \<circ> snd) ?f)"
    using distinct_keys [OF assms] by (rule distinct_map_filter)
  then show ?thesis
    using due_keys_eq [OF assms] distinct_card [of "map (tr_key \<circ> snd) ?f"] by simp
qed

lemma expiration_pass_facts:
  assumes "ttl_inv m" and "tm_running m" and "tm_hasCallback m"
    and "CheckExpiration m now = (m', expired)"
  shows "ttl_inv m'"
    and "distinct (map er_key expired)"
    and "length expired = min MAX_EXPIRED_KEYS_PER_CHECK (card (due_keys m now))"
    and "er_key ` set expired \<subseteq> due_keys m now"
    and "x \<in> set expired \<Longrightarrow> map_option expired_of (ttl_view m (er_key x)) = Some x"
    and "ttl_view m' k = (if k \<in> er_key ` set expired then None else ttl_view m k)"
proof -
  let ?B = "due_batch now MAX_EXPIRED_KEYS_PER_CHECK (tm_expiryMap m)"
  have ex: "expired = map (expired_of \<circ> snd) ?B" and m': "m' = fst (CheckExpiration m now)"
    using assms(2-4) by (auto simp: CheckExpiration_eq Let_def)
  have keys: "map er_key expired = map (tr_key \<circ> snd) ?B"
    by (simp add: ex expired_of_def)
  have sub: "n \<in> set (tm_expiryMap m) \<and> tr_expireTime (snd n) \<le> now" if "n \<in> set ?B" for n
    using that by (auto simp: due_batch_def dest!: in_set_takeD set_takeWhileD)
  show "ttl_inv m'" using assms(1) by (simp add: m')
  have "distinct (map (tr_key \<circ> snd) (?B @ drop (length ?B) (tm_expiryMap m)))"
    using distinct_keys [OF assms(1)] by (simp only: due_batch_prefix)
  then show "distinct (map er_key expired)" by (simp add: keys)
  show "length expired = min MAX_EXPIRED_KEYS_PER_CHECK (card (due_keys m now))"
    using assms(1) by (simp add: ex due_batch_length card_due_keys ttl_inv_def)
  have view: "ttl_view m (tr_key (snd n)) = Some (snd n)" if "n \<in> set ?B" for n
    using sub [OF that] ttl_view_iff [OF assms(1), of "tr_key (snd n)" "snd n"]
    by (metis prod.collapse)
  have image: "er_key ` set expired = (tr_key \<circ> snd) ` set ?B"
    using keys by (metis list.set_map)
  show "er_key ` set expired \<subseteq> due_keys m now"
    unfolding image using sub view by (force simp: due_keys_def)
  show "map_option expired_of (ttl_view m (er_key x)) = Some x" if "x \<in> set expired"
    using that view by (auto simp: ex expired_of_def)
  show "ttl_view m' k = (if k \<in> er_key ` set expired then None else ttl_view m k)"
    unfolding image m' by (rule CheckExpiration_view [OF assms(1,2)])
qed

text \<open>
  C6. An expiration pass is exact. On a well-formed running manager with a callback, a pass at
  time \<open>now\<close> hands to the callback only records whose expiry time has been reached, each with the
  revision and TTL generation that were scheduled for its key, no key twice, and exactly
  \<open>min 1024\<close> of the due ones; the keys it hands over are no longer scheduled and every other key
  keeps its schedule, so no lease is dropped without being reported. The manager stays
  well-formed.
\<close>

theorem expiration_pass_is_exact:
  assumes "ttl_inv m" and "tm_running m" and "tm_hasCallback m"
    and "CheckExpiration m now = (m', expired)"
  shows "ttl_inv m'
    \<and> distinct (map er_key expired)
    \<and> length expired = min MAX_EXPIRED_KEYS_PER_CHECK (card (due_keys m now))
    \<and> er_key ` set expired \<subseteq> due_keys m now
    \<and> (\<forall>x \<in> set expired. map_option expired_of (ttl_view m (er_key x)) = Some x)
    \<and> (\<forall>k. ttl_view m' k = (if k \<in> er_key ` set expired then None else ttl_view m k))"
  using expiration_pass_facts [OF assms] by blast

text \<open>Repeated passes, at the times given.\<close>

fun check_passes :: "TtlManager \<Rightarrow> int list \<Rightarrow> TtlManager \<times> ExpiredTtlRecord list" where
  "check_passes m [] = (m, [])"
| "check_passes m (now # nows) =
     (case CheckExpiration m now of (m1, ex1) \<Rightarrow>
        case check_passes m1 nows of (m2, ex2) \<Rightarrow> (m2, ex1 @ ex2))"

lemma CheckExpiration_flags [simp]:
  "tm_running (fst (CheckExpiration m now)) = tm_running m"
  "tm_hasCallback (fst (CheckExpiration m now)) = tm_hasCallback m"
  by (auto simp: CheckExpiration_def split: prod.splits)

lemma finite_due_keys: "ttl_inv m \<Longrightarrow> finite (due_keys m now)"
  by (simp add: due_keys_eq)

lemma filter_drop_sorted:
  "sorted (map (tr_expireTime \<circ> snd) ms) \<Longrightarrow>
     filter (\<lambda>n. tr_expireTime (snd n) \<le> t) (drop k ms)
       = drop k (filter (\<lambda>n. tr_expireTime (snd n) \<le> t) ms)"
proof (induction ms arbitrary: k)
  case (Cons n ms)
  have none: "filter (\<lambda>n. tr_expireTime (snd n) \<le> t) ms = []"
    if "\<not> tr_expireTime (snd n) \<le> t"
    using that Cons.prems by (auto simp: filter_empty_conv)
  then have none': "filter (\<lambda>n. tr_expireTime (snd n) \<le> t) (drop j ms) = []"
    if "\<not> tr_expireTime (snd n) \<le> t" for j
    using that Cons by simp
  show ?case
  proof (cases k)
    case (Suc j)
    then show ?thesis using Cons none' none by (cases "tr_expireTime (snd n) \<le> t") auto
  qed simp
qed simp

text \<open>A pass at or after time t takes out 1024 of the leases due at t, or all of them.\<close>

lemma pass_reduces_due:
  assumes "ttl_inv m" and "tm_running m" and "t \<le> now"
  shows "card (due_keys (fst (CheckExpiration m now)) t)
    \<le> card (due_keys m t) - MAX_EXPIRED_KEYS_PER_CHECK"
proof -
  let ?m = "fst (CheckExpiration m now)"
  let ?due = "\<lambda>t. filter (\<lambda>n. tr_expireTime (snd n) \<le> t) (tm_expiryMap m)"
  let ?B = "due_batch now MAX_EXPIRED_KEYS_PER_CHECK (tm_expiryMap m)"
  have sorted: "sorted (map (tr_expireTime \<circ> snd) (tm_expiryMap m))"
    using assms(1) by (simp add: ttl_inv_def)
  have "tm_expiryMap ?m = drop (length ?B) (tm_expiryMap m)"
    using assms(2) by (simp add: CheckExpiration_eq Let_def)
  then have "card (due_keys ?m t) = length (?due t) - length ?B"
    using card_due_keys [OF CheckExpiration_inv [OF assms(1)], of now t]
    by (simp add: filter_drop_sorted [OF sorted])
  moreover have "length ?B = min MAX_EXPIRED_KEYS_PER_CHECK (length (?due now))"
    by (rule due_batch_length [OF sorted])
  moreover have "length (?due t) \<le> length (?due now)"
  proof -
    have "?due t = filter (\<lambda>n. tr_expireTime (snd n) \<le> t) (?due now)"
      using assms(3) by (auto intro: filter_cong [OF refl])
    then show ?thesis by (metis length_filter_le)
  qed
  ultimately show ?thesis by (simp add: card_due_keys [OF assms(1)])
qed

lemma check_passes_due:
  assumes "ttl_inv m" and "tm_running m" and "\<forall>now \<in> set nows. t \<le> now"
  shows "ttl_inv (fst (check_passes m nows))
    \<and> card (due_keys (fst (check_passes m nows)) t)
      \<le> card (due_keys m t) - MAX_EXPIRED_KEYS_PER_CHECK * length nows"
  using assms
proof (induction nows arbitrary: m)
  case (Cons now nows)
  let ?m = "fst (CheckExpiration m now)"
  have "fst (check_passes m (now # nows)) = fst (check_passes ?m nows)"
    by (simp split: prod.splits)
  then show ?case
    using Cons.IH [of ?m] Cons.prems pass_reduces_due [of m t now] by auto
qed simp

lemma check_passes_reports:
  assumes "ttl_inv m" and "tm_running m" and "tm_hasCallback m"
    and "ttl_view m k = Some r" and "check_passes m nows = (m', expired)"
  shows "ttl_view m' k = Some r \<or> expired_of r \<in> set expired"
  using assms
proof (induction nows arbitrary: m m' expired)
  case (Cons now nows)
  obtain m1 ex1 where p1: "CheckExpiration m now = (m1, ex1)" by fastforce
  obtain m2 ex2 where p2: "check_passes m1 nows = (m2, ex2)" by fastforce
  note facts = expiration_pass_facts [OF Cons.prems(1-3) p1]
  have flags: "tm_running m1" "tm_hasCallback m1"
    using CheckExpiration_flags [of m now] p1 Cons.prems(2,3) by simp_all
  have res: "m' = m2" "expired = ex1 @ ex2" using Cons.prems(5) p1 p2 by simp_all
  show ?case
  proof (cases "k \<in> er_key ` set ex1")
    case True
    then obtain x where x: "x \<in> set ex1" "k = er_key x" by auto
    then show ?thesis using facts(5) [OF x(1)] Cons.prems(4) res by simp
  next
    case False
    then have "ttl_view m1 k = Some r" using facts(6) [of k] Cons.prems(4) by simp
    then show ?thesis using Cons.IH [OF facts(1) flags _ p2] res by auto
  qed
qed simp

text \<open>
  C7. Every due lease is eventually reported. Take a well-formed running manager and a time t.
  However many leases are due at t, the expiration thread reports each of them, with the revision
  and generation that were scheduled, within one pass per 1024 due leases, as long as the passes
  run at or after t; afterwards nothing due at t is scheduled.
\<close>

theorem due_leases_are_reported:
  assumes "ttl_inv m" and "tm_running m" and "tm_hasCallback m"
    and "\<forall>now \<in> set nows. t \<le> now"
    and "card (due_keys m t) \<le> MAX_EXPIRED_KEYS_PER_CHECK * length nows"
    and "check_passes m nows = (m', expired)"
  shows "due_keys m' t = {}
    \<and> (\<forall>k r. ttl_view m k = Some r \<and> tr_expireTime r \<le> t \<longrightarrow> expired_of r \<in> set expired)"
proof -
  have m': "m' = fst (check_passes m nows)" using assms(6) by simp
  have "card (due_keys m' t) = 0"
    unfolding m' using check_passes_due [OF assms(1,2,4)] assms(5) by simp
  then have none: "due_keys m' t = {}"
    using finite_due_keys check_passes_due [OF assms(1,2,4)] by (simp add: m')
  moreover have "expired_of r \<in> set expired"
    if "ttl_view m k = Some r" "tr_expireTime r \<le> t" for k r
    using check_passes_reports [OF assms(1-3) that(1) assms(6)] none that(2)
    by (auto simp: due_keys_def)
  ultimately show ?thesis by blast
qed

subsection \<open>Concrete schedules\<close>

definition demo_manager :: TtlManager where
  "demo_manager =
     Schedule (Schedule (Ttl_Start (SetExpireCallback new_TtlManager True)) 0 ''a'' 5 2 1)
       0 ''b'' 9 3 1"

lemma demo_manager_facts [simp]:
  "ttl_inv demo_manager" "tm_running demo_manager" "tm_hasCallback demo_manager"
proof -
  have "ttl_inv (Ttl_Start (SetExpireCallback new_TtlManager True))"
    by (simp add: ttl_inv_def Ttl_Start_def SetExpireCallback_def new_TtlManager_def)
  then show "ttl_inv demo_manager" by (simp add: demo_manager_def)
qed (simp_all add: demo_manager_def Schedule_def Ttl_Start_def SetExpireCallback_def
      new_TtlManager_def Let_def)

lemmas ttl_eval = demo_manager_def Schedule_def Ttl_Start_def SetExpireCallback_def
  new_TtlManager_def Let_def expire_time_def NANOS_PER_MILLI_def wrap_s64_def
  older_lease_def node_erase_def

theorem schedule_refines_newest_lease_witness:
  "ttl_view (Schedule demo_manager 0 ''a'' 7 2 2)
     = schedule_spec (ttl_view demo_manager) 0 ''a'' 7 2 2
   \<and> map_option tr_expireTime (ttl_view (Schedule demo_manager 0 ''a'' 7 2 2) ''a'') = Some 7000000"
proof
  show "ttl_view (Schedule demo_manager 0 ''a'' 7 2 2)
     = schedule_spec (ttl_view demo_manager) 0 ''a'' 7 2 2"
    using schedule_refines_newest_lease [OF demo_manager_facts(1), of 0 "''a''" 7 2 2] by simp
  show "map_option tr_expireTime (ttl_view (Schedule demo_manager 0 ''a'' 7 2 2) ''a'')
      = Some 7000000"
    by (simp add: ttl_eval ttl_view_def)
qed

theorem expiration_pass_is_exact_witness:
  "\<exists>m' expired. CheckExpiration demo_manager 6000000 = (m', expired)
     \<and> map er_key expired = [''a'']
     \<and> (\<forall>k. ttl_view m' k = (if k \<in> er_key ` set expired then None else ttl_view demo_manager k))"
proof -
  obtain m' expired where p: "CheckExpiration demo_manager 6000000 = (m', expired)" by fastforce
  have "map er_key expired = [''a'']"
    using p by (auto simp: ttl_eval CheckExpiration_def MAX_EXPIRED_KEYS_PER_CHECK_def)
  moreover have "\<forall>k. ttl_view m' k
      = (if k \<in> er_key ` set expired then None else ttl_view demo_manager k)"
    using expiration_pass_is_exact [OF demo_manager_facts p] by (elim conjE)
  ultimately show ?thesis using p by (intro exI conjI)
qed

theorem due_leases_are_reported_witness:
  "due_keys (fst (check_passes demo_manager [9000000])) 9000000 = {}
   \<and> expired_of \<lparr>tr_key = ''b'', tr_revision = 3, tr_ttlGeneration = 1, tr_expireTime = 9000000\<rparr>
       \<in> set (snd (check_passes demo_manager [9000000]))"
proof -
  let ?r = "\<lparr>tr_key = ''b'', tr_revision = 3, tr_ttlGeneration = 1, tr_expireTime = 9000000\<rparr>"
  have b: "ttl_view demo_manager ''b'' = Some ?r" by (simp add: ttl_eval ttl_view_def)
  have few: "card (due_keys demo_manager 9000000) \<le> MAX_EXPIRED_KEYS_PER_CHECK * length [9000000::int]"
    by (subst card_due_keys) (simp_all add: MAX_EXPIRED_KEYS_PER_CHECK_def, simp add: ttl_eval)
  show ?thesis
    using due_leases_are_reported [OF demo_manager_facts _ few prod.collapse [symmetric]] b by auto
qed

end
