(* ===== verification/WatchRegistry.thy ===== *)
theory WatchRegistry
  imports DS_Prelude
begin

section \<open>The registry of watchers\<close>

text \<open>
  Models src/datasystem/common/coordinator/watch_registry.{h,cpp}. Every operation holds
  \<open>mutex_\<close>, so it is one step on the record below. An unordered_set of watch ids is a list
  without repetition; its iteration order is unspecified in C++, so the properties only speak of
  the set of matched watchers. The watcher objects are shared pointers; Cancel clears \<open>active\<close> in
  the object and drops it from \<open>watchers_\<close> in the same critical section.
\<close>

subsection \<open>Data\<close>

record WatcherEntry =
  wt_watchId :: int
  wt_watcherAddr :: string
  wt_registrationId :: string
  wt_active :: bool

record WatchRange =
  wr_key :: string
  wr_rangeEnd :: string
  wr_watchIds :: "int list"

record WatchRegistry =
  rg_watchers :: "int \<rightharpoonup> WatcherEntry"
  rg_watchIdsByRegistrationId :: "string \<rightharpoonup> int"
  rg_watchScopesById :: "int \<rightharpoonup> string \<times> string"
  rg_exactWatchIdsByKey :: "string \<rightharpoonup> int list"
  rg_rangeWatches :: "WatchRange list"
  rg_nextWatchId :: int

definition new_WatchRegistry :: WatchRegistry where
  "new_WatchRegistry = \<lparr>rg_watchers = Map.empty, rg_watchIdsByRegistrationId = Map.empty,
     rg_watchScopesById = Map.empty, rg_exactWatchIdsByKey = Map.empty, rg_rangeWatches = [],
     rg_nextWatchId = 1\<rparr>"

subsection \<open>Operations\<close>

definition IsSameRange :: "WatchRange \<Rightarrow> string \<Rightarrow> string \<Rightarrow> bool" where
  "IsSameRange w key rangeEnd \<longleftrightarrow> wr_key w = key \<and> wr_rangeEnd w = rangeEnd"

definition IsKeyInRange :: "string \<Rightarrow> WatchRange \<Rightarrow> bool" where
  "IsKeyInRange key w \<longleftrightarrow> wr_key w \<le> key \<and> key < wr_rangeEnd w"

definition IsInTableScope :: "string \<Rightarrow> string \<Rightarrow> bool" where
  "IsInTableScope key table \<longleftrightarrow>
     key = table
     \<or> (length table < length key \<and> take (length table) key = table
        \<and> key ! length table = CHR ''/'')"

text \<open>Insertion into the first group of the same range, or a new group at the end.\<close>

fun add_range_watch :: "string \<Rightarrow> string \<Rightarrow> int \<Rightarrow> WatchRange list \<Rightarrow> WatchRange list" where
  "add_range_watch key rangeEnd watchId [] =
     [\<lparr>wr_key = key, wr_rangeEnd = rangeEnd, wr_watchIds = [watchId]\<rparr>]"
| "add_range_watch key rangeEnd watchId (w # ws) =
     (if IsSameRange w key rangeEnd
      then w\<lparr>wr_watchIds := List.insert watchId (wr_watchIds w)\<rparr> # ws
      else w # add_range_watch key rangeEnd watchId ws)"

text \<open>Outputs of a successful registration: the watch id and \<open>created\<close>.\<close>

definition Register :: "WatchRegistry \<Rightarrow> string \<Rightarrow> string \<Rightarrow> string \<Rightarrow> string
    \<Rightarrow> (int \<times> bool) result \<times> WatchRegistry" where
  "Register r key rangeEnd watcherAddr registrationId =
     (case (if registrationId \<noteq> [] then rg_watchIdsByRegistrationId r registrationId else None) of
        Some registered \<Rightarrow>
          (if \<not> (case rg_watchers r registered of None \<Rightarrow> False
                 | Some watcher \<Rightarrow> wt_watcherAddr watcher = watcherAddr)
           then (Inl K_INVALID, r)
           else if \<not> (case rg_watchScopesById r registered of None \<Rightarrow> False
                      | Some scope \<Rightarrow> fst scope = key \<and> snd scope = rangeEnd)
           then (Inl K_INVALID, r)
           else (Inr (registered, False), r))
      | None \<Rightarrow>
          (let watchId = rg_nextWatchId r;
               entry = \<lparr>wt_watchId = watchId, wt_watcherAddr = watcherAddr,
                        wt_registrationId = registrationId, wt_active = True\<rparr>;
               r1 = r\<lparr>rg_nextWatchId := wrap_s64 (watchId + 1),
                      rg_watchers := (rg_watchers r)(watchId \<mapsto> entry),
                      rg_watchIdsByRegistrationId :=
                        (if registrationId \<noteq> []
                         then (rg_watchIdsByRegistrationId r)(registrationId \<mapsto> watchId)
                         else rg_watchIdsByRegistrationId r),
                      rg_watchScopesById := (rg_watchScopesById r)(watchId \<mapsto> (key, rangeEnd))\<rparr>
           in if rangeEnd = []
              then (Inr (watchId, True),
                    r1\<lparr>rg_exactWatchIdsByKey := (rg_exactWatchIdsByKey r)
                        (key \<mapsto> List.insert watchId
                           (case rg_exactWatchIdsByKey r key of None \<Rightarrow> [] | Some ids \<Rightarrow> ids))\<rparr>)
              else (Inr (watchId, True),
                    r1\<lparr>rg_rangeWatches :=
                         add_range_watch key rangeEnd watchId (rg_rangeWatches r)\<rparr>)))"

text \<open>The three-argument overload discards the status; a failed call would leave the id at 0.\<close>

definition Register_anonymous :: "WatchRegistry \<Rightarrow> string \<Rightarrow> string \<Rightarrow> string \<Rightarrow> int \<times> WatchRegistry" where
  "Register_anonymous r key rangeEnd watcherAddr =
     (case Register r key rangeEnd watcherAddr [] of
        (Inr (watchId, created), r') \<Rightarrow> (watchId, r')
      | (Inl _, r') \<Rightarrow> (0, r'))"

text \<open>The erase loop over the range groups: drop the id everywhere, and groups left empty.\<close>

fun erase_range_watch :: "int \<Rightarrow> WatchRange list \<Rightarrow> WatchRange list" where
  "erase_range_watch watchId [] = []"
| "erase_range_watch watchId (w # ws) =
     (let w' = w\<lparr>wr_watchIds := remove1 watchId (wr_watchIds w)\<rparr>
      in if wr_watchIds w' = [] then erase_range_watch watchId ws
         else w' # erase_range_watch watchId ws)"

definition Cancel :: "WatchRegistry \<Rightarrow> int \<Rightarrow> string \<Rightarrow> unit result \<times> WatchRegistry" where
  "Cancel r watchId watcherAddr =
     (case rg_watchers r watchId of
        None \<Rightarrow> (Inl K_NOT_FOUND, r)
      | Some watcher \<Rightarrow>
          (if watcherAddr \<noteq> [] \<and> wt_watcherAddr watcher \<noteq> watcherAddr then (Inl K_INVALID, r)
           else
             let r1 = (if wt_registrationId watcher \<noteq> []
                       then r\<lparr>rg_watchIdsByRegistrationId :=
                              (rg_watchIdsByRegistrationId r)(wt_registrationId watcher := None)\<rparr>
                       else r);
                 r2 = (case rg_watchScopesById r watchId of
                         Some (key, []) \<Rightarrow>
                           (case rg_exactWatchIdsByKey r key of
                              None \<Rightarrow> r1
                            | Some ids \<Rightarrow>
                                (let ids' = remove1 watchId ids
                                 in r1\<lparr>rg_exactWatchIdsByKey := (rg_exactWatchIdsByKey r)
                                        (key := (if ids' = [] then None else Some ids'))\<rparr>))
                       | _ \<Rightarrow> r1\<lparr>rg_rangeWatches := erase_range_watch watchId (rg_rangeWatches r)\<rparr>)
             in (Inr (), r2\<lparr>rg_watchScopesById := (rg_watchScopesById r2)(watchId := None),
                            rg_watchers := (rg_watchers r2)(watchId := None)\<rparr>)))"

text \<open>The live watchers among a list of ids, in order.\<close>

definition live_watchers :: "WatchRegistry \<Rightarrow> int list \<Rightarrow> WatcherEntry list" where
  "live_watchers r ids = concat (map (\<lambda>i. case rg_watchers r i of None \<Rightarrow> []
     | Some w \<Rightarrow> if wt_active w then [w] else []) ids)"

definition MatchWatchers :: "WatchRegistry \<Rightarrow> string \<Rightarrow> WatcherEntry list \<Rightarrow> WatcherEntry list" where
  "MatchWatchers r key matched =
     matched
     @ (case rg_exactWatchIdsByKey r key of None \<Rightarrow> [] | Some ids \<Rightarrow> live_watchers r ids)
     @ concat (map (\<lambda>w. if \<not> IsKeyInRange key w then [] else live_watchers r (wr_watchIds w))
                 (rg_rangeWatches r))"

definition IsWatchInScopes :: "WatchRegistry \<Rightarrow> int \<Rightarrow> string list \<Rightarrow> bool" where
  "IsWatchInScopes r watchId tableScopes =
     (case rg_watchScopesById r watchId of None \<Rightarrow> False
      | Some scope \<Rightarrow> list_ex (IsInTableScope (fst scope)) tableScopes)"

subsection \<open>Invariant\<close>

text \<open>
  The exact index and the range groups are the inverse of the scope table: a watch id is listed
  exactly where its scope says.
\<close>

definition exact_ok :: "WatchRegistry \<Rightarrow> bool" where
  "exact_ok r \<longleftrightarrow>
     (\<forall>k ids. rg_exactWatchIdsByKey r k = Some ids \<longrightarrow> ids \<noteq> [] \<and> distinct ids)
     \<and> (\<forall>k i. rg_watchScopesById r i = Some (k, [])
          \<longleftrightarrow> (\<exists>ids. rg_exactWatchIdsByKey r k = Some ids \<and> i \<in> set ids))"

definition in_group :: "WatchRange list \<Rightarrow> string \<Rightarrow> string \<Rightarrow> int \<Rightarrow> bool" where
  "in_group ws k e i \<longleftrightarrow> (\<exists>w \<in> set ws. wr_key w = k \<and> wr_rangeEnd w = e \<and> i \<in> set (wr_watchIds w))"

definition groups_ok :: "WatchRange list \<Rightarrow> bool" where
  "groups_ok ws \<longleftrightarrow>
     distinct (map (\<lambda>w. (wr_key w, wr_rangeEnd w)) ws)
     \<and> (\<forall>w \<in> set ws. wr_rangeEnd w \<noteq> [] \<and> wr_watchIds w \<noteq> [] \<and> distinct (wr_watchIds w))"

definition ranges_ok :: "(int \<rightharpoonup> string \<times> string) \<Rightarrow> WatchRange list \<Rightarrow> bool" where
  "ranges_ok scopes ws \<longleftrightarrow>
     groups_ok ws
     \<and> (\<forall>k e i. e \<noteq> [] \<longrightarrow> (scopes i = Some (k, e) \<longleftrightarrow> in_group ws k e i))"

definition watchers_ok :: "WatchRegistry \<Rightarrow> bool" where
  "watchers_ok r \<longleftrightarrow>
     dom (rg_watchers r) = dom (rg_watchScopesById r)
     \<and> (\<forall>i w. rg_watchers r i = Some w \<longrightarrow> wt_watchId w = i \<and> wt_active w
          \<and> 1 \<le> i \<and> i < rg_nextWatchId r)
     \<and> (\<forall>rid i. rg_watchIdsByRegistrationId r rid = Some i
          \<longleftrightarrow> rid \<noteq> [] \<and> (\<exists>w. rg_watchers r i = Some w \<and> wt_registrationId w = rid))
     \<and> 1 \<le> rg_nextWatchId r"

definition reg_inv :: "WatchRegistry \<Rightarrow> bool" where
  "reg_inv r \<longleftrightarrow> watchers_ok r \<and> exact_ok r \<and> ranges_ok (rg_watchScopesById r) (rg_rangeWatches r)"

lemma in_group_simps [simp]:
  "\<not> in_group [] k e i"
  "in_group (w # ws) k e i
     \<longleftrightarrow> wr_key w = k \<and> wr_rangeEnd w = e \<and> i \<in> set (wr_watchIds w) \<or> in_group ws k e i"
  by (auto simp: in_group_def)

lemma groups_ok_simps [simp]:
  "groups_ok []"
  "groups_ok (w # ws) \<longleftrightarrow> groups_ok ws
     \<and> wr_rangeEnd w \<noteq> [] \<and> wr_watchIds w \<noteq> [] \<and> distinct (wr_watchIds w)
     \<and> (wr_key w, wr_rangeEnd w) \<notin> (\<lambda>w. (wr_key w, wr_rangeEnd w)) ` set ws"
  by (auto simp: groups_ok_def)

lemma new_WatchRegistry_inv [simp]: "reg_inv new_WatchRegistry"
  by (simp add: reg_inv_def watchers_ok_def exact_ok_def ranges_ok_def new_WatchRegistry_def)

lemma insert_not_Nil [simp]: "List.insert i xs \<noteq> []"
  by (auto simp: List.insert_def)

lemma set_keys_add_range_watch:
  "(\<lambda>w. (wr_key w, wr_rangeEnd w)) ` set (add_range_watch k e i ws)
     = insert (k, e) ((\<lambda>w. (wr_key w, wr_rangeEnd w)) ` set ws)"
  by (induction ws) (auto simp: IsSameRange_def)

lemma groups_ok_add [simp]:
  "groups_ok ws \<Longrightarrow> e \<noteq> [] \<Longrightarrow> groups_ok (add_range_watch k e i ws)"
  by (induction ws) (auto simp: IsSameRange_def set_keys_add_range_watch)

lemma in_group_add [simp]:
  "in_group (add_range_watch k e i ws) k' e' j \<longleftrightarrow> in_group ws k' e' j \<or> (k' = k \<and> e' = e \<and> j = i)"
  by (induction ws) (auto simp: IsSameRange_def)

lemma set_keys_erase_range_watch:
  "(\<lambda>w. (wr_key w, wr_rangeEnd w)) ` set (erase_range_watch i ws)
     \<subseteq> (\<lambda>w. (wr_key w, wr_rangeEnd w)) ` set ws"
  by (induction ws) (auto simp: Let_def)

lemma groups_ok_erase [simp]: "groups_ok ws \<Longrightarrow> groups_ok (erase_range_watch i ws)"
proof (induction ws)
  case (Cons w ws)
  then show ?case using set_keys_erase_range_watch [of i ws] by (auto simp: Let_def)
qed simp

lemma in_group_erase [simp]:
  "groups_ok ws \<Longrightarrow>
     in_group (erase_range_watch i ws) k e j \<longleftrightarrow> in_group ws k e j \<and> j \<noteq> i"
proof (induction ws)
  case (Cons w ws)
  have ids: "set (remove1 i (wr_watchIds w)) = set (wr_watchIds w) - {i}"
    using Cons.prems by (simp add: set_remove1_eq)
  then have "remove1 i (wr_watchIds w) = [] \<Longrightarrow> j \<in> set (wr_watchIds w) \<Longrightarrow> j = i" by auto
  then show ?case using Cons ids by (auto simp: Let_def)
qed simp

subsection \<open>Registration and cancellation\<close>

text \<open>What the registry holds: per watch id its range, its address and its registration id.\<close>

record Watch =
  wa_key :: string
  wa_rangeEnd :: string
  wa_watcherAddr :: string
  wa_registrationId :: string

definition reg_view :: "WatchRegistry \<Rightarrow> int \<rightharpoonup> Watch" where
  "reg_view r i =
     (case (rg_watchers r i, rg_watchScopesById r i) of
        (Some w, Some (k, e)) \<Rightarrow> Some \<lparr>wa_key = k, wa_rangeEnd = e,
          wa_watcherAddr = wt_watcherAddr w, wa_registrationId = wt_registrationId w\<rparr>
      | _ \<Rightarrow> None)"

text \<open>A fresh registration, as Register performs it when the registration id is not known.\<close>

definition register_fresh :: "WatchRegistry \<Rightarrow> string \<Rightarrow> string \<Rightarrow> string \<Rightarrow> string \<Rightarrow> WatchRegistry" where
  "register_fresh r key rangeEnd addr rid =
     (let i = rg_nextWatchId r in
      r\<lparr>rg_nextWatchId := wrap_s64 (i + 1),
        rg_watchers := (rg_watchers r)(i \<mapsto> \<lparr>wt_watchId = i, wt_watcherAddr = addr,
                        wt_registrationId = rid, wt_active = True\<rparr>),
        rg_watchIdsByRegistrationId :=
          (if rid \<noteq> [] then (rg_watchIdsByRegistrationId r)(rid \<mapsto> i)
           else rg_watchIdsByRegistrationId r),
        rg_watchScopesById := (rg_watchScopesById r)(i \<mapsto> (key, rangeEnd)),
        rg_exactWatchIdsByKey :=
          (if rangeEnd = [] then (rg_exactWatchIdsByKey r)
             (key \<mapsto> List.insert i (case rg_exactWatchIdsByKey r key of None \<Rightarrow> [] | Some ids \<Rightarrow> ids))
           else rg_exactWatchIdsByKey r),
        rg_rangeWatches :=
          (if rangeEnd = [] then rg_rangeWatches r
           else add_range_watch key rangeEnd i (rg_rangeWatches r))\<rparr>)"

lemma Register_fresh:
  "rid = [] \<or> rg_watchIdsByRegistrationId r rid = None \<Longrightarrow>
     Register r key rangeEnd addr rid
       = (Inr (rg_nextWatchId r, True), register_fresh r key rangeEnd addr rid)"
  by (auto simp: Register_def register_fresh_def Let_def)

lemma next_unused:
  assumes "watchers_ok r"
  shows "rg_watchers r (rg_nextWatchId r) = None" "rg_watchScopesById r (rg_nextWatchId r) = None"
proof -
  show none: "rg_watchers r (rg_nextWatchId r) = None"
    using assms by (cases "rg_watchers r (rg_nextWatchId r)") (auto simp: watchers_ok_def)
  have "dom (rg_watchers r) = dom (rg_watchScopesById r)" using assms by (simp add: watchers_ok_def)
  then show "rg_watchScopesById r (rg_nextWatchId r) = None" using none by (metis domIff)
qed

lemma watchers_ok_fresh:
  assumes "watchers_ok r" and "rg_nextWatchId r < INT64_MAX"
    and "rid = [] \<or> rg_watchIdsByRegistrationId r rid = None"
  shows "watchers_ok (register_fresh r key rangeEnd addr rid)"
proof -
  note fresh = next_unused(1) [OF assms(1)]
  have nxt: "wrap_s64 (rg_nextWatchId r + 1) = rg_nextWatchId r + 1"
    using assms(1,2) by (intro wrap_s64_succ) (auto simp: watchers_ok_def)
  have old: "\<And>i w. rg_watchers r i = Some w \<Longrightarrow> wt_watchId w = i \<and> wt_active w
        \<and> 1 \<le> i \<and> i < rg_nextWatchId r"
    and reg: "\<And>rid i. rg_watchIdsByRegistrationId r rid = Some i
        \<longleftrightarrow> rid \<noteq> [] \<and> (\<exists>w. rg_watchers r i = Some w \<and> wt_registrationId w = rid)"
    and dom: "dom (rg_watchers r) = dom (rg_watchScopesById r)" and n1: "1 \<le> rg_nextWatchId r"
    using assms(1) by (auto simp: watchers_ok_def)
  let ?r = "register_fresh r key rangeEnd addr rid"
  have "rg_watchIdsByRegistrationId ?r rid' = Some i
      \<longleftrightarrow> rid' \<noteq> [] \<and> (\<exists>w. rg_watchers ?r i = Some w \<and> wt_registrationId w = rid')" for rid' i
  proof (cases "rid' = rid \<and> rid \<noteq> []")
    case True
    then have "\<forall>w. rg_watchers r i = Some w \<longrightarrow> wt_registrationId w \<noteq> rid"
      using reg [of rid i] assms(3) by auto
    then show ?thesis using True by (auto simp: register_fresh_def Let_def)
  next
    case False
    then have "rg_watchIdsByRegistrationId ?r rid' = rg_watchIdsByRegistrationId r rid'"
      by (auto simp: register_fresh_def Let_def)
    then show ?thesis using False reg [of rid' i] fresh by (auto simp: register_fresh_def Let_def)
  qed
  moreover have "dom (rg_watchers ?r) = dom (rg_watchScopesById ?r)" "1 \<le> rg_nextWatchId ?r"
    using dom n1 nxt by (simp_all add: register_fresh_def Let_def)
  moreover have "wt_watchId w = i \<and> wt_active w \<and> 1 \<le> i \<and> i < rg_nextWatchId ?r"
    if "rg_watchers ?r i = Some w" for i w
    using that old [of i w] n1 nxt by (auto simp: register_fresh_def Let_def split: if_splits)
  ultimately show ?thesis unfolding watchers_ok_def by blast
qed

lemma exact_ok_fresh:
  assumes "exact_ok r" and "rg_watchScopesById r (rg_nextWatchId r) = None"
  shows "exact_ok (register_fresh r key rangeEnd addr rid)"
proof -
  let ?r = "register_fresh r key rangeEnd addr rid"
  have ex: "\<And>k i. rg_watchScopesById r i = Some (k, [])
      \<longleftrightarrow> (\<exists>ids. rg_exactWatchIdsByKey r k = Some ids \<and> i \<in> set ids)"
    and ids: "\<And>k ids. rg_exactWatchIdsByKey r k = Some ids \<Longrightarrow> ids \<noteq> [] \<and> distinct ids"
    using assms(1) by (auto simp: exact_ok_def)
  have "rg_watchScopesById ?r i = Some (k, [])
      \<longleftrightarrow> (\<exists>ids. rg_exactWatchIdsByKey ?r k = Some ids \<and> i \<in> set ids)" for k i
    using ex [of i k] assms(2)
    by (cases "rg_exactWatchIdsByKey r k") (auto simp: register_fresh_def Let_def)
  moreover have "ids \<noteq> [] \<and> distinct ids" if "rg_exactWatchIdsByKey ?r k = Some ids" for k ids
    using that ids [of k]
    by (cases "rg_exactWatchIdsByKey r k")
      (auto simp: register_fresh_def Let_def split: if_splits)
  ultimately show ?thesis unfolding exact_ok_def by blast
qed

lemma reg_inv_fresh:
  assumes "reg_inv r" and "rg_nextWatchId r < INT64_MAX"
    and "rid = [] \<or> rg_watchIdsByRegistrationId r rid = None"
  shows "reg_inv (register_fresh r key rangeEnd addr rid)"
proof -
  have none: "rg_watchScopesById r (rg_nextWatchId r) = None"
    using assms(1) by (simp add: reg_inv_def next_unused)
  have groups: "groups_ok (rg_rangeWatches r)"
    and ranges: "\<And>k e i. e \<noteq> [] \<Longrightarrow>
      rg_watchScopesById r i = Some (k, e) \<longleftrightarrow> in_group (rg_rangeWatches r) k e i"
    using assms(1) by (auto simp: reg_inv_def ranges_ok_def)
  have "e \<noteq> [] \<Longrightarrow> \<not> in_group (rg_rangeWatches r) k e (rg_nextWatchId r)" for k e
    using ranges [of e "rg_nextWatchId r" k] none by simp
  then have "ranges_ok (rg_watchScopesById (register_fresh r key rangeEnd addr rid))
      (rg_rangeWatches (register_fresh r key rangeEnd addr rid))"
    using groups ranges by (auto simp: ranges_ok_def register_fresh_def Let_def)
  then show ?thesis
    using assms none by (simp add: reg_inv_def watchers_ok_fresh exact_ok_fresh)
qed

lemma reg_view_dom: "watchers_ok r \<Longrightarrow> reg_view r i = None \<longleftrightarrow> rg_watchers r i = None"
proof -
  assume "watchers_ok r"
  then have "rg_watchers r i = None \<longleftrightarrow> rg_watchScopesById r i = None"
    by (metis domIff watchers_ok_def)
  then show ?thesis by (auto simp: reg_view_def split: option.splits)
qed

lemma reg_view_Some:
  "reg_view r i = Some a \<longleftrightarrow>
     (\<exists>w. rg_watchers r i = Some w \<and> rg_watchScopesById r i = Some (wa_key a, wa_rangeEnd a)
        \<and> wt_watcherAddr w = wa_watcherAddr a \<and> wt_registrationId w = wa_registrationId a)"
  by (cases a) (auto simp: reg_view_def split: option.splits)

lemma reg_view_fresh:
  "reg_view (register_fresh r key rangeEnd addr rid)
     = (reg_view r)(rg_nextWatchId r \<mapsto> \<lparr>wa_key = key, wa_rangeEnd = rangeEnd,
          wa_watcherAddr = addr, wa_registrationId = rid\<rparr>)"
  by (rule ext) (simp add: reg_view_def register_fresh_def Let_def)

text \<open>Cancellation of a watch that the caller may cancel.\<close>

definition unregister :: "WatchRegistry \<Rightarrow> int \<Rightarrow> WatcherEntry \<Rightarrow> WatchRegistry" where
  "unregister r i w =
     r\<lparr>rg_watchIdsByRegistrationId :=
         (if wt_registrationId w \<noteq> []
          then (rg_watchIdsByRegistrationId r)(wt_registrationId w := None)
          else rg_watchIdsByRegistrationId r),
       rg_exactWatchIdsByKey :=
         (case rg_watchScopesById r i of
            Some (key, []) \<Rightarrow>
              (case rg_exactWatchIdsByKey r key of None \<Rightarrow> rg_exactWatchIdsByKey r
               | Some ids \<Rightarrow> (rg_exactWatchIdsByKey r)
                   (key := (if remove1 i ids = [] then None else Some (remove1 i ids))))
          | _ \<Rightarrow> rg_exactWatchIdsByKey r),
       rg_rangeWatches :=
         (case rg_watchScopesById r i of Some (key, []) \<Rightarrow> rg_rangeWatches r
          | _ \<Rightarrow> erase_range_watch i (rg_rangeWatches r)),
       rg_watchScopesById := (rg_watchScopesById r)(i := None),
       rg_watchers := (rg_watchers r)(i := None)\<rparr>"

lemma Cancel_commit:
  "rg_watchers r i = Some w \<Longrightarrow> addr = [] \<or> wt_watcherAddr w = addr \<Longrightarrow>
     Cancel r i addr = (Inr (), unregister r i w)"
  by (auto simp: Cancel_def unregister_def Let_def split: option.splits list.splits)

lemma watchers_ok_unregister:
  assumes "watchers_ok r" and "rg_watchers r i = Some w"
  shows "watchers_ok (unregister r i w)"
proof -
  have old: "\<And>j v. rg_watchers r j = Some v \<Longrightarrow> wt_watchId v = j \<and> wt_active v
        \<and> 1 \<le> j \<and> j < rg_nextWatchId r"
    and reg: "\<And>rid j. rg_watchIdsByRegistrationId r rid = Some j
        \<longleftrightarrow> rid \<noteq> [] \<and> (\<exists>v. rg_watchers r j = Some v \<and> wt_registrationId v = rid)"
    and dom: "dom (rg_watchers r) = dom (rg_watchScopesById r)" and n1: "1 \<le> rg_nextWatchId r"
    using assms(1) by (auto simp: watchers_ok_def)
  let ?r = "unregister r i w"
  have "rg_watchIdsByRegistrationId ?r rid = Some j
      \<longleftrightarrow> rid \<noteq> [] \<and> (\<exists>v. rg_watchers ?r j = Some v \<and> wt_registrationId v = rid)" for rid j
  proof (cases "rid = wt_registrationId w \<and> rid \<noteq> []")
    case True
    then have "rg_watchIdsByRegistrationId r rid = Some i" using reg assms(2) by blast
    then have "v = w \<and> j = i" if "rg_watchers r j = Some v" "wt_registrationId v = rid" for v
      using that reg [of rid j] True assms(2) by auto
    then show ?thesis using True by (auto simp: unregister_def)
  next
    case False
    then show ?thesis using reg [of rid j] assms(2) by (auto simp: unregister_def)
  qed
  moreover have "dom (rg_watchers ?r) = dom (rg_watchScopesById ?r)" "1 \<le> rg_nextWatchId ?r"
    using dom n1 by (simp_all add: unregister_def)
  moreover have "wt_watchId v = j \<and> wt_active v \<and> 1 \<le> j \<and> j < rg_nextWatchId ?r"
    if "rg_watchers ?r j = Some v" for j v
    using that old [of j v] by (auto simp: unregister_def split: if_splits)
  ultimately show ?thesis unfolding watchers_ok_def by blast
qed

lemma exact_ok_unregister:
  assumes "exact_ok r"
  shows "exact_ok (unregister r i w)"
proof -
  let ?r = "unregister r i w"
  have ex: "\<And>k j. rg_watchScopesById r j = Some (k, [])
      \<longleftrightarrow> (\<exists>ids. rg_exactWatchIdsByKey r k = Some ids \<and> j \<in> set ids)"
    and ids: "\<And>k ids. rg_exactWatchIdsByKey r k = Some ids \<Longrightarrow> ids \<noteq> [] \<and> distinct ids"
    using assms by (auto simp: exact_ok_def)
  show ?thesis
  proof (cases "\<exists>k ids. rg_watchScopesById r i = Some (k, []) \<and> rg_exactWatchIdsByKey r k = Some ids")
    case False
    then have "rg_exactWatchIdsByKey ?r = rg_exactWatchIdsByKey r"
      by (auto simp: unregister_def split: option.splits list.splits)
    moreover have "i \<notin> set ids" if "rg_exactWatchIdsByKey r k = Some ids" for k ids
      using ex [of i k] False that by auto
    ultimately show ?thesis using ex ids by (fastforce simp: exact_ok_def unregister_def)
  next
    case True
    then obtain k ids0 where k: "rg_watchScopesById r i = Some (k, [])"
      "rg_exactWatchIdsByKey r k = Some ids0" by blast
    have d: "distinct ids0" using ids [OF k(2)] by simp
    have set: "set (remove1 i ids0) = set ids0 - {i}" using d by (rule set_remove1_eq)
    have map: "rg_exactWatchIdsByKey ?r = (rg_exactWatchIdsByKey r)
        (k := (if remove1 i ids0 = [] then None else Some (remove1 i ids0)))"
      using k by (simp add: unregister_def)
    have "rg_watchScopesById ?r j = Some (k', [])
        \<longleftrightarrow> (\<exists>ids. rg_exactWatchIdsByKey ?r k' = Some ids \<and> j \<in> set ids)" for k' j
    proof (cases "k' = k")
      case True
      have "(\<exists>ids. rg_exactWatchIdsByKey ?r k = Some ids \<and> j \<in> set ids) \<longleftrightarrow> j \<in> set ids0 - {i}"
        unfolding map set [symmetric] by auto
      then show ?thesis using True ex [of j k] k by (auto simp: unregister_def)
    next
      case False
      then have "j \<noteq> i" if "rg_exactWatchIdsByKey r k' = Some ids" "j \<in> set ids" for ids
        using ex [of i k'] that k by auto
      then show ?thesis using False ex [of j k'] k by (auto simp: map unregister_def)
    qed
    moreover have "ids \<noteq> [] \<and> distinct ids" if "rg_exactWatchIdsByKey ?r k' = Some ids" for k' ids
      using that ids [of k' ids] d by (auto simp: map split: if_splits)
    ultimately show ?thesis unfolding exact_ok_def by blast
  qed
qed

lemma reg_inv_unregister:
  assumes "reg_inv r" and "rg_watchers r i = Some w"
  shows "reg_inv (unregister r i w)"
proof -
  have groups: "groups_ok (rg_rangeWatches r)"
    and ranges: "\<And>k e j. e \<noteq> [] \<Longrightarrow>
      rg_watchScopesById r j = Some (k, e) \<longleftrightarrow> in_group (rg_rangeWatches r) k e j"
    using assms(1) by (auto simp: reg_inv_def ranges_ok_def)
  have "ranges_ok (rg_watchScopesById (unregister r i w)) (rg_rangeWatches (unregister r i w))"
  proof (cases "\<exists>k. rg_watchScopesById r i = Some (k, [])")
    case True
    then have "e \<noteq> [] \<Longrightarrow> \<not> in_group (rg_rangeWatches r) k e i" for k e
      using ranges [of e i k] by auto
    then show ?thesis using True groups ranges by (auto simp: ranges_ok_def unregister_def)
  next
    case False
    then have "rg_rangeWatches (unregister r i w) = erase_range_watch i (rg_rangeWatches r)"
      by (auto simp: unregister_def split: option.splits list.splits)
    then show ?thesis using groups ranges by (auto simp: ranges_ok_def unregister_def)
  qed
  then show ?thesis
    using assms by (simp add: reg_inv_def watchers_ok_unregister exact_ok_unregister)
qed

lemma reg_view_unregister: "reg_view (unregister r i w) = (reg_view r)(i := None)"
  by (rule ext) (simp add: reg_view_def unregister_def)

subsection \<open>Matching\<close>

definition watch_covers :: "Watch \<Rightarrow> string \<Rightarrow> bool" where
  "watch_covers a key \<longleftrightarrow>
     (if wa_rangeEnd a = [] then key = wa_key a else wa_key a \<le> key \<and> key < wa_rangeEnd a)"

lemma live_watchers_ids:
  assumes "watchers_ok r" and "set ids \<subseteq> dom (rg_watchers r)"
  shows "map wt_watchId (live_watchers r ids) = ids"
  using assms(2)
proof (induction ids)
  case (Cons i ids)
  then obtain w where "rg_watchers r i = Some w" by auto
  moreover from this have "wt_watchId w = i \<and> wt_active w"
    using assms(1) by (auto simp: watchers_ok_def)
  ultimately show ?case using Cons by (simp add: live_watchers_def)
qed (simp add: live_watchers_def)

lemma live_watchers_append:
  "live_watchers r [] = []"
  "live_watchers r (xs @ ys) = live_watchers r xs @ live_watchers r ys"
  by (simp_all add: live_watchers_def)

lemma live_watchers_concat: "live_watchers r (concat xss) = concat (map (live_watchers r) xss)"
  by (induction xss) (simp_all add: live_watchers_append)

text \<open>The ids MatchWatchers goes through.\<close>

definition match_ids :: "WatchRegistry \<Rightarrow> string \<Rightarrow> int list" where
  "match_ids r key = (case rg_exactWatchIdsByKey r key of None \<Rightarrow> [] | Some ids \<Rightarrow> ids)
     @ concat (map (\<lambda>w. if IsKeyInRange key w then wr_watchIds w else []) (rg_rangeWatches r))"

lemma in_group_scope:
  assumes "ranges_ok scopes ws" and "w \<in> set ws" and "i \<in> set (wr_watchIds w)"
  shows "scopes i = Some (wr_key w, wr_rangeEnd w)"
proof -
  have "in_group ws (wr_key w) (wr_rangeEnd w) i" using assms(2,3) by (auto simp: in_group_def)
  moreover have "wr_rangeEnd w \<noteq> []" using assms by (auto simp: ranges_ok_def groups_ok_def)
  ultimately show ?thesis using assms(1) by (simp add: ranges_ok_def)
qed

lemma set_match_ids:
  assumes "reg_inv r"
  shows "i \<in> set (match_ids r key) \<longleftrightarrow>
    (\<exists>k e. rg_watchScopesById r i = Some (k, e)
       \<and> (if e = [] then key = k else k \<le> key \<and> key < e))"
proof -
  have exact: "rg_watchScopesById r i = Some (key, []) \<longleftrightarrow>
      i \<in> set (case rg_exactWatchIdsByKey r key of None \<Rightarrow> [] | Some ids \<Rightarrow> ids)"
    using assms by (cases "rg_exactWatchIdsByKey r key") (auto simp: reg_inv_def exact_ok_def)
  have ranges: "ranges_ok (rg_watchScopesById r) (rg_rangeWatches r)"
    using assms by (simp add: reg_inv_def)
  have "(\<exists>w \<in> set (rg_rangeWatches r). IsKeyInRange key w \<and> i \<in> set (wr_watchIds w)) \<longleftrightarrow>
      (\<exists>k e. rg_watchScopesById r i = Some (k, e) \<and> e \<noteq> [] \<and> k \<le> key \<and> key < e)"
    (is "?l \<longleftrightarrow> ?r")
  proof
    assume ?l
    then obtain w where w: "w \<in> set (rg_rangeWatches r)" "IsKeyInRange key w"
      "i \<in> set (wr_watchIds w)" by blast
    then have "rg_watchScopesById r i = Some (wr_key w, wr_rangeEnd w)"
      using in_group_scope [OF ranges] by blast
    moreover have "wr_rangeEnd w \<noteq> []" using ranges w by (auto simp: ranges_ok_def groups_ok_def)
    ultimately show ?r using w(2) by (auto simp: IsKeyInRange_def)
  next
    assume ?r
    then obtain k e where ke: "rg_watchScopesById r i = Some (k, e)" "e \<noteq> []" "k \<le> key" "key < e"
      by blast
    then have "in_group (rg_rangeWatches r) k e i" using ranges by (simp add: ranges_ok_def)
    then show ?l using ke by (auto simp: in_group_def IsKeyInRange_def)
  qed
  then show ?thesis using exact by (auto simp: match_ids_def split: if_splits)
qed

lemma distinct_concat_groups:
  assumes "ranges_ok scopes ws"
  shows "set zs \<subseteq> set ws \<Longrightarrow> groups_ok zs \<Longrightarrow>
    distinct (concat (map (\<lambda>w. if IsKeyInRange key w then wr_watchIds w else []) zs))"
proof (induction zs)
  case (Cons z zs)
  have "i \<notin> set (wr_watchIds y)" if "i \<in> set (wr_watchIds z)" "y \<in> set zs" for i y
  proof
    assume "i \<in> set (wr_watchIds y)"
    then have "scopes i = Some (wr_key y, wr_rangeEnd y)" "scopes i = Some (wr_key z, wr_rangeEnd z)"
      using in_group_scope [OF assms] that Cons.prems(1) by auto
    then show False using Cons.prems(2) that(2) by force
  qed
  then show ?case using Cons by (auto split: if_splits)
qed simp

lemma distinct_match_ids:
  assumes "reg_inv r"
  shows "distinct (match_ids r key)"
proof -
  have ranges: "ranges_ok (rg_watchScopesById r) (rg_rangeWatches r)"
    and ex: "\<And>ids. rg_exactWatchIdsByKey r key = Some ids \<Longrightarrow> distinct ids \<and>
      (\<forall>i \<in> set ids. rg_watchScopesById r i = Some (key, []))"
    using assms by (auto simp: reg_inv_def exact_ok_def)
  have "distinct (concat (map (\<lambda>w. if IsKeyInRange key w then wr_watchIds w else [])
      (rg_rangeWatches r)))"
    using ranges by (intro distinct_concat_groups [OF ranges]) (auto simp: ranges_ok_def)
  moreover have "i \<notin> set (wr_watchIds w)"
    if "w \<in> set (rg_rangeWatches r)" "rg_watchScopesById r i = Some (key, [])" for i w
    using in_group_scope [OF ranges that(1)] that ranges
    by (fastforce simp: ranges_ok_def groups_ok_def)
  ultimately show ?thesis
    using ex by (auto simp: match_ids_def split: option.splits if_splits)
qed

lemma MatchWatchers_ids:
  assumes "reg_inv r"
  shows "map wt_watchId (MatchWatchers r key []) = match_ids r key"
proof -
  have ok: "watchers_ok r" using assms by (simp add: reg_inv_def)
  have dom: "set (match_ids r key) \<subseteq> dom (rg_watchers r)"
    using set_match_ids [OF assms] ok by (auto simp: watchers_ok_def)
  have "MatchWatchers r key [] = live_watchers r (match_ids r key)"
    by (auto simp: MatchWatchers_def match_ids_def live_watchers_append live_watchers_concat
        comp_def if_distrib [of "live_watchers r"] split: option.splits intro: arg_cong [of _ _ concat])
  then show ?thesis using live_watchers_ids [OF ok dom] by simp
qed

subsection \<open>Properties\<close>


text \<open>
  Cancel removes exactly the named watch, and only for its owner. On a well-formed registry
  an unknown id gives K_NOT_FOUND, an id of another address gives K_INVALID, both without effect;
  otherwise that watch disappears, every other watch stays, and the registry is well-formed.
\<close>

lemma cancel_contract:
  assumes "reg_inv r"
  shows "case Cancel r i addr of
      (Inr _, r') \<Rightarrow> reg_inv r' \<and> reg_view r' = (reg_view r)(i := None)
        \<and> (\<exists>a. reg_view r i = Some a \<and> (addr = [] \<or> wa_watcherAddr a = addr))
    | (Inl c, r') \<Rightarrow> r' = r
        \<and> (c = K_NOT_FOUND \<and> reg_view r i = None
           \<or> c = K_INVALID \<and> addr \<noteq> [] \<and> (\<exists>a. reg_view r i = Some a \<and> wa_watcherAddr a \<noteq> addr))"
proof (cases "rg_watchers r i")
  case None
  then show ?thesis by (simp add: Cancel_def reg_view_def)
next
  case (Some w)
  have ok: "watchers_ok r" using assms by (simp add: reg_inv_def)
  then obtain a where a: "reg_view r i = Some a" "wa_watcherAddr a = wt_watcherAddr w"
    using reg_view_dom [OF ok, of i] Some reg_view_Some [of r i] by fastforce
  show ?thesis
  proof (cases "addr = [] \<or> wt_watcherAddr w = addr")
    case True
    then show ?thesis
      using Cancel_commit [OF Some True] reg_inv_unregister [OF assms Some] a
      by (simp add: reg_view_unregister)
  next
    case False
    then show ?thesis using Some a by (simp add: Cancel_def)
  qed
qed

lemma MatchWatchers_view:
  assumes "reg_inv r"
  shows "distinct (map wt_watchId (MatchWatchers r key []))"
    and "set (map wt_watchId (MatchWatchers r key []))
        = {i. \<exists>a. reg_view r i = Some a \<and> watch_covers a key}"
proof -
  have "i \<in> set (match_ids r key) \<longleftrightarrow> (\<exists>a. reg_view r i = Some a \<and> watch_covers a key)" for i
  proof (cases "reg_view r i")
    case None
    then have "rg_watchers r i = None"
      using reg_view_dom assms by (auto simp: reg_inv_def)
    then have "rg_watchScopesById r i = None"
      using assms by (metis domIff reg_inv_def watchers_ok_def)
    then show ?thesis using set_match_ids [OF assms, of i key] None by simp
  next
    case (Some a)
    then have "rg_watchScopesById r i = Some (wa_key a, wa_rangeEnd a)"
      using reg_view_Some by blast
    then show ?thesis using set_match_ids [OF assms, of i key] Some by (simp add: watch_covers_def)
  qed
  then show "distinct (map wt_watchId (MatchWatchers r key []))"
    "set (map wt_watchId (MatchWatchers r key [])) = {i. \<exists>a. reg_view r i = Some a \<and> watch_covers a key}"
    using distinct_match_ids [OF assms] by (auto simp only: MatchWatchers_ids [OF assms])
qed

text \<open>
  C9. An event reaches exactly the watchers of its key: on a well-formed registry MatchWatchers
  returns each watcher whose exact key or half-open range covers the key, once, and no other.
\<close>

theorem match_watchers_exact:
  assumes "reg_inv r"
  shows "distinct (map wt_watchId (MatchWatchers r key []))
    \<and> set (map wt_watchId (MatchWatchers r key []))
        = {i. \<exists>a. reg_view r i = Some a \<and> watch_covers a key}"
  using MatchWatchers_view [OF assms] by simp

subsection \<open>A concrete registry\<close>

definition demo_registry :: WatchRegistry where
  "demo_registry = snd (Register (snd (Register new_WatchRegistry ''k'' [] ''h1'' ''r1''))
                                 ''a'' ''z'' ''h2'' ''r2'')"

lemmas registry_eval = demo_registry_def Register_def new_WatchRegistry_def Let_def wrap_s64_def

lemma demo_registry_inv: "reg_inv demo_registry"
proof -
  let ?r = "snd (Register new_WatchRegistry ''k'' [] ''h1'' ''r1'')"
  have "rg_watchIdsByRegistrationId new_WatchRegistry ''r1'' = None"
    "rg_nextWatchId new_WatchRegistry < INT64_MAX"
    by (simp_all add: new_WatchRegistry_def INT64_MAX_def)
  then have "reg_inv ?r" by (simp add: Register_fresh reg_inv_fresh)
  moreover have "rg_watchIdsByRegistrationId ?r ''r2'' = None" "rg_nextWatchId ?r < INT64_MAX"
    by (simp_all add: Register_def new_WatchRegistry_def Let_def wrap_s64_def INT64_MAX_def)
  ultimately show ?thesis by (simp add: demo_registry_def Register_fresh reg_inv_fresh)
qed


lemma cancel_contract_witness:
  "fst (Cancel demo_registry 1 ''h2'') = Inl K_INVALID
   \<and> fst (Cancel demo_registry 1 ''h1'') = Inr ()
   \<and> reg_view (snd (Cancel demo_registry 1 ''h1'')) = (reg_view demo_registry)(1 := None)"
proof -
  have ok: "fst (Cancel demo_registry 1 ''h1'') = Inr ()" by (simp add: registry_eval Cancel_def)
  have "reg_view (snd (Cancel demo_registry 1 ''h1'')) = (reg_view demo_registry)(1 := None)"
    using cancel_contract [OF demo_registry_inv, of 1 "''h1''"] ok
    by (simp split: sum.splits prod.splits)
  moreover have "fst (Cancel demo_registry 1 ''h2'') = Inl K_INVALID"
    by (simp add: registry_eval Cancel_def)
  ultimately show ?thesis using ok by blast
qed

theorem match_watchers_exact_witness:
  "map wt_watchId (MatchWatchers demo_registry ''k'' []) = [1, 2]
   \<and> {i. \<exists>a. reg_view demo_registry i = Some a \<and> watch_covers a ''k''} = {1, 2}"
proof -
  have "map wt_watchId (MatchWatchers demo_registry ''k'' []) = [1, 2]"
    by (simp add: registry_eval MatchWatchers_def live_watchers_def IsKeyInRange_def
        less_char_def less_eq_char_def)
  then show ?thesis using match_watchers_exact [OF demo_registry_inv, of "''k''"] by auto
qed

end
