(* ===== verification/WatchChannel.thy ===== *)
theory WatchChannel
  imports MemoryKv "HOL-Library.Sublist"
begin

section \<open>The event channel of one watcher\<close>

text \<open>
  Models the per-channel part of src/datasystem/common/coordinator/watch_dispatcher.{h,cpp}: the
  channel record, the back-pressured append of the fan-out loop, the preparation of a
  notification batch, the commit after a successful notification, and the retry back-off. Each of
  these runs under the channel's mutex, so each is one step on the channel; a notification is in
  flight between a preparation and its commit, and fan-out may append in between. The dispatcher
  (theory WatchDispatcher) calls these steps on the channels of its heap.
\<close>

subsection \<open>Data\<close>

record WatcherChannel =
  wc_watchId :: int
  wc_watcherAddr :: string
  wc_queue :: "WatchEvent list"
  wc_backpressureLimit :: nat
  wc_snapshotRevision :: int
  wc_needReWatch :: bool
  wc_dispatchQueued :: bool
  wc_retryDelayMs :: int
  wc_cancelled :: bool

definition new_channel :: "int \<Rightarrow> string \<Rightarrow> WatcherChannel" where
  "new_channel watchId watcherAddr =
     \<lparr>wc_watchId = watchId, wc_watcherAddr = watcherAddr, wc_queue = [],
      wc_backpressureLimit = 1024, wc_snapshotRevision = 0, wc_needReWatch = False,
      wc_dispatchQueued = False, wc_retryDelayMs = 0, wc_cancelled = False\<rparr>"

definition MAX_WATCH_EVENTS_PER_BATCH :: nat where
  "MAX_WATCH_EVENTS_PER_BATCH = 32"

definition WATCH_EVENT_BATCH_MERGE_THRESHOLD_BYTES :: nat where
  "WATCH_EVENT_BATCH_MERGE_THRESHOLD_BYTES = 256 * 1024"

definition WATCH_EVENT_WIRE_OVERHEAD_BYTES :: nat where
  "WATCH_EVENT_WIRE_OVERHEAD_BYTES = 128"

definition INITIAL_RETRY_DELAY_MS :: int where "INITIAL_RETRY_DELAY_MS = 100"
definition MAX_RETRY_DELAY_MS :: int where "MAX_RETRY_DELAY_MS = 5000"
definition RETRY_DELAY_MULTIPLIER :: int where "RETRY_DELAY_MULTIPLIER = 2"
definition RETRY_JITTER_PERCENT :: int where "RETRY_JITTER_PERCENT = 20"
definition PERCENT_SCALE :: int where "PERCENT_SCALE = 100"

lemmas retry_consts = INITIAL_RETRY_DELAY_MS_def MAX_RETRY_DELAY_MS_def RETRY_DELAY_MULTIPLIER_def
  RETRY_JITTER_PERCENT_def PERCENT_SCALE_def

subsection \<open>Operations on a channel\<close>

text \<open>The payload-free event that asks a watcher to rebuild its stream.\<close>

definition MakeRewatchEvent :: "WatchEvent option \<Rightarrow> WatchEvent" where
  "MakeRewatchEvent overflowEvent =
     \<lparr>we_type = REWATCH,
      we_entry = \<lparr>kv_key = [], kv_value = [], kv_version = 0, kv_modRevision = 0\<rparr>,
      we_revision = (case overflowEvent of None \<Rightarrow> 0 | Some ev \<Rightarrow> we_revision ev)\<rparr>"

definition cancel_channel :: "WatcherChannel \<Rightarrow> WatcherChannel" where
  "cancel_channel ch = ch\<lparr>wc_cancelled := True, wc_queue := [], wc_dispatchQueued := False,
                         wc_retryDelayMs := 0\<rparr>"

text \<open>The append of the fan-out loop, for a channel that is neither cancelled nor rewatching.\<close>

definition push_event :: "WatchEvent \<Rightarrow> WatcherChannel \<Rightarrow> WatcherChannel" where
  "push_event ev ch =
     (if length (wc_queue ch) < wc_backpressureLimit ch
      then ch\<lparr>wc_queue := wc_queue ch @ [ev]\<rparr>
      else ch\<lparr>wc_queue := [MakeRewatchEvent (Some ev)], wc_needReWatch := True\<rparr>)"

definition event_bytes :: "WatchEvent \<Rightarrow> nat" where
  "event_bytes ev = WATCH_EVENT_WIRE_OVERHEAD_BYTES
     + (if we_type ev = REWATCH then 0
        else length (kv_key (we_entry ev)) + length (kv_value (we_entry ev)))"

text \<open>The collecting loop of PrepareChannelEvents, over the first events of the queue.\<close>

fun collect_batch :: "WatchEvent list \<Rightarrow> nat \<Rightarrow> int \<Rightarrow> WatchEvent list \<Rightarrow> int \<times> WatchEvent list" where
  "collect_batch [] batchBytes maxEventRevision events = (maxEventRevision, events)"
| "collect_batch (ev # evs) batchBytes maxEventRevision events =
     (let events' = events @ [ev];
          batchBytes' = batchBytes + event_bytes ev;
          maxEventRevision' = max maxEventRevision (we_revision ev)
      in if batchBytes' > WATCH_EVENT_BATCH_MERGE_THRESHOLD_BYTES
         then (maxEventRevision', events')
         else collect_batch evs batchBytes' maxEventRevision' events')"

text \<open>
  The outcome of a preparation: nothing to send, or a batch with \<open>needReWatch\<close>, the largest
  revision in it and its events.
\<close>

datatype Prepared = Idle | Batch bool int "WatchEvent list"

definition prepare_channel :: "bool \<Rightarrow> WatcherChannel \<Rightarrow> Prepared \<times> WatcherChannel" where
  "prepare_channel running ch =
     (if \<not> running \<or> wc_cancelled ch then (Idle, ch)
      else if wc_queue ch = [] then (Idle, ch\<lparr>wc_dispatchQueued := False\<rparr>)
      else if wc_needReWatch ch then (Batch True 0 [hd (wc_queue ch)], ch)
      else if wc_snapshotRevision ch \<le> 0 then (Idle, ch\<lparr>wc_dispatchQueued := False\<rparr>)
      else
        let q = dropWhile (\<lambda>ev. we_revision ev \<le> wc_snapshotRevision ch) (wc_queue ch);
            ch1 = ch\<lparr>wc_queue := q\<rparr>
        in if q = [] then (Idle, ch1\<lparr>wc_dispatchQueued := False\<rparr>)
           else case collect_batch (take MAX_WATCH_EVENTS_PER_BATCH q) 0 0 [] of
                  (maxEventRevision, events) \<Rightarrow> (Batch False maxEventRevision events, ch1))"

text \<open>
  The commit of HandleChannelEvents after a successful notification of a batch without rewatch;
  the flag says that the channel has more to send.
\<close>

definition commit_channel :: "int \<Rightarrow> WatcherChannel \<Rightarrow> bool \<times> WatcherChannel" where
  "commit_channel maxEventRevision ch =
     (if wc_cancelled ch then (False, ch)
      else
        let q = dropWhile (\<lambda>ev. we_revision ev \<le> maxEventRevision) (wc_queue ch);
            ch1 = ch\<lparr>wc_retryDelayMs := 0, wc_queue := q\<rparr>
        in if q = [] then (False, ch1\<lparr>wc_dispatchQueued := False\<rparr>) else (True, ch1))"

text \<open>
  The back-off of PrepareRetry: the delay to use, or none when the channel is not to be retried.
  The seed is the exclusive or of two 64-bit values.
\<close>

definition retry_jitter :: "int \<Rightarrow> int \<Rightarrow> int" where
  "retry_jitter watchId retryDelayMs =
     (let jitterRange = retryDelayMs * RETRY_JITTER_PERCENT div PERCENT_SCALE;
          jitterWidth = word_of_int (jitterRange * RETRY_DELAY_MULTIPLIER + 1) :: u64;
          seed = xor (word_of_int watchId) (word_of_int retryDelayMs) :: u64
      in sint (seed mod jitterWidth) - jitterRange)"

definition PrepareRetry :: "bool \<Rightarrow> WatcherChannel \<Rightarrow> int option \<times> WatcherChannel" where
  "PrepareRetry running ch =
     (if \<not> running \<or> wc_cancelled ch then (None, ch)
      else
        let delay = (if wc_retryDelayMs ch = 0 then INITIAL_RETRY_DELAY_MS
                     else min (wc_retryDelayMs ch * RETRY_DELAY_MULTIPLIER) MAX_RETRY_DELAY_MS)
        in (Some (max INITIAL_RETRY_DELAY_MS
                   (min MAX_RETRY_DELAY_MS (delay + retry_jitter (wc_watchId ch) delay))),
            ch\<lparr>wc_retryDelayMs := delay\<rparr>))"

subsection \<open>Batches\<close>

lemma collect_batch_prefix:
  "\<exists>b. collect_batch evs n m acc = (foldl max m (map we_revision b), acc @ b)
     \<and> prefix b evs \<and> (evs \<noteq> [] \<longrightarrow> b \<noteq> [])
     \<and> n + sum_list (map event_bytes (butlast b)) \<le> max n WATCH_EVENT_BATCH_MERGE_THRESHOLD_BYTES
     \<and> (b = evs \<or> n + sum_list (map event_bytes b) > WATCH_EVENT_BATCH_MERGE_THRESHOLD_BYTES)"
proof (induction evs n m acc rule: collect_batch.induct)
  case (2 ev evs n m acc)
  show ?case
  proof (cases "n + event_bytes ev > WATCH_EVENT_BATCH_MERGE_THRESHOLD_BYTES")
    case True
    then show ?thesis by (intro exI [of _ "[ev]"]) (simp add: Let_def)
  next
    case False
    then obtain b where b: "collect_batch evs (n + event_bytes ev) (max m (we_revision ev)) (acc @ [ev])
        = (foldl max (max m (we_revision ev)) (map we_revision b), (acc @ [ev]) @ b)"
      "prefix b evs" "evs \<noteq> [] \<longrightarrow> b \<noteq> []"
      "n + event_bytes ev + sum_list (map event_bytes (butlast b))
         \<le> max (n + event_bytes ev) WATCH_EVENT_BATCH_MERGE_THRESHOLD_BYTES"
      "b = evs \<or> n + event_bytes ev + sum_list (map event_bytes b)
         > WATCH_EVENT_BATCH_MERGE_THRESHOLD_BYTES"
      using 2 [OF refl refl refl] by auto
    then show ?thesis
      using False by (intro exI [of _ "ev # b"]) (auto simp: Let_def add.assoc)
  qed
qed simp

text \<open>The revisions of a queue in the order the store assigned them, without repetition.\<close>

definition increasing :: "WatchEvent list \<Rightarrow> bool" where
  "increasing evs \<longleftrightarrow> sorted_wrt (<) (map we_revision evs)"

lemma increasing_simps [simp]:
  "increasing []"
  "increasing (ev # evs) \<longleftrightarrow> (\<forall>e \<in> set evs. we_revision ev < we_revision e) \<and> increasing evs"
  "increasing (xs @ ys) \<longleftrightarrow> increasing xs \<and> increasing ys
     \<and> (\<forall>x \<in> set xs. \<forall>y \<in> set ys. we_revision x < we_revision y)"
  by (auto simp: increasing_def sorted_wrt_append)

lemma increasing_filter_dropWhile:
  "increasing q \<Longrightarrow> dropWhile (\<lambda>ev. we_revision ev \<le> r) q = filter (\<lambda>ev. r < we_revision ev) q"
proof (induction q)
  case (Cons ev q)
  then show ?case by (auto simp: not_le intro!: filter_True [symmetric])
qed simp

lemma foldl_max_increasing:
  "increasing b \<Longrightarrow> b \<noteq> [] \<Longrightarrow> m \<le> we_revision (last b) \<Longrightarrow>
     foldl max m (map we_revision b) = we_revision (last b)"
proof (induction b arbitrary: m)
  case (Cons ev b)
  have "b \<noteq> [] \<Longrightarrow> we_revision ev \<le> we_revision (last b)"
    using Cons.prems by (auto intro: less_imp_le)
  then show ?case using Cons by (cases "b = []") simp_all
qed simp

text \<open>The state in which a live channel sends ordinary batches.\<close>

definition sendable :: "WatcherChannel \<Rightarrow> bool" where
  "sendable ch \<longleftrightarrow> \<not> wc_cancelled ch \<and> \<not> wc_needReWatch ch \<and> 0 < wc_snapshotRevision ch"

definition unseen :: "WatcherChannel \<Rightarrow> WatchEvent list" where
  "unseen ch = filter (\<lambda>ev. wc_snapshotRevision ch < we_revision ev) (wc_queue ch)"

lemma prepare_sendable:
  assumes "sendable ch" and "increasing (wc_queue ch)"
  obtains (idle) "unseen ch = []"
      "prepare_channel True ch = (Idle, ch\<lparr>wc_queue := [], wc_dispatchQueued := False\<rparr>)"
  | (batch) b rest where "unseen ch = b @ rest" "b \<noteq> []"
      "length b \<le> MAX_WATCH_EVENTS_PER_BATCH"
      "sum_list (map event_bytes (butlast b)) \<le> WATCH_EVENT_BATCH_MERGE_THRESHOLD_BYTES"
      "prepare_channel True ch
         = (Batch False (we_revision (last b)) b, ch\<lparr>wc_queue := unseen ch\<rparr>)"
proof (cases "unseen ch = []")
  have dw: "dropWhile (\<lambda>ev. we_revision ev \<le> wc_snapshotRevision ch) (wc_queue ch) = unseen ch"
    using assms(2) by (simp add: unseen_def increasing_filter_dropWhile)
  {
    case True
    have "prepare_channel True ch = (Idle, ch\<lparr>wc_queue := [], wc_dispatchQueued := False\<rparr>)"
      using assms(1) dw True
      by (cases "wc_queue ch = []") (auto simp: prepare_channel_def sendable_def Let_def)
    then show ?thesis using True idle by blast
  next
    case False
    let ?q = "take MAX_WATCH_EVENTS_PER_BATCH (unseen ch)"
    obtain b where b: "collect_batch ?q 0 0 [] = (foldl max 0 (map we_revision b), b)"
      "prefix b ?q" "?q \<noteq> [] \<longrightarrow> b \<noteq> []"
      "sum_list (map event_bytes (butlast b)) \<le> WATCH_EVENT_BATCH_MERGE_THRESHOLD_BYTES"
      using collect_batch_prefix [of ?q 0 0 "[]"] by auto
    have "?q \<noteq> []" using False by (simp add: MAX_WATCH_EVENTS_PER_BATCH_def)
    then have ne: "b \<noteq> []" using b(3) by simp
    have "prefix b (unseen ch)" using b(2) take_is_prefix by (rule prefix_order.trans)
    then obtain rest where rest: "unseen ch = b @ rest" by (auto elim: prefixE)
    have "length b \<le> MAX_WATCH_EVENTS_PER_BATCH"
      using prefix_length_le [OF b(2)] by simp
    moreover have inc: "increasing b"
    proof -
      have "increasing (unseen ch)"
        using assms(2) by (simp add: increasing_def unseen_def sorted_wrt_map sorted_wrt_filter)
      then show ?thesis by (simp add: rest)
    qed
    moreover have "last b \<in> set (unseen ch)" using ne rest by simp
    then have "0 \<le> we_revision (last b)"
      using assms(1) by (auto simp: unseen_def sendable_def)
    then have "foldl max 0 (map we_revision b) = we_revision (last b)"
      using foldl_max_increasing inc ne by blast
    moreover have "prepare_channel True ch
        = (Batch False (foldl max 0 (map we_revision b)) b, ch\<lparr>wc_queue := unseen ch\<rparr>)"
    proof -
      have "wc_queue ch \<noteq> []" using False by (auto simp: unseen_def)
      then show ?thesis
        using assms(1) dw False b(1) by (auto simp: prepare_channel_def sendable_def Let_def)
    qed
    ultimately show ?thesis using batch [OF rest ne] b(4) by simp
  }
qed

lemma commit_increasing:
  assumes "\<not> wc_cancelled ch" and "wc_queue ch = b @ rest" and "b \<noteq> []"
    and "increasing (b @ rest)"
  shows "commit_channel (we_revision (last b)) ch
    = (rest \<noteq> [], ch\<lparr>wc_retryDelayMs := 0, wc_queue := rest,
                     wc_dispatchQueued := (rest \<noteq> [] \<and> wc_dispatchQueued ch)\<rparr>)"
proof -
  have "filter (\<lambda>ev. we_revision (last b) < we_revision ev) (b @ rest) = rest"
  proof -
    have "\<not> we_revision (last b) < we_revision ev" if "ev \<in> set b" for ev
    proof -
      have "increasing (butlast b @ [last b])" using assms(3,4) by simp
      then show ?thesis
        using that assms(3) by (metis append_butlast_last_id increasing_simps(3) less_asym' list.set_intros(1)
            order_less_irrefl rotate1.simps(2) set_ConsD set_rotate1)
    qed
    moreover have "we_revision (last b) < we_revision ev" if "ev \<in> set rest" for ev
      using assms(3,4) that by simp
    ultimately show ?thesis by (simp add: filter_empty_conv)
  qed
  then have "dropWhile (\<lambda>ev. we_revision ev \<le> we_revision (last b)) (wc_queue ch) = rest"
    using assms(2,4) by (simp only: increasing_filter_dropWhile)
  then show ?thesis using assms(1) by (auto simp: commit_channel_def Let_def)
qed

subsection \<open>The life of a channel\<close>

text \<open>
  A channel together with what the rest of the system sees of it: the notification in flight, the
  events fan-out has handed to it and the events whose notification was acknowledged. A failed
  notification and a preparation with nothing to send only drop the flight.
\<close>

record ChannelRun =
  cr_channel :: WatcherChannel
  cr_flight :: "(int \<times> WatchEvent list) option"
  cr_pushed :: "WatchEvent list"
  cr_delivered :: "WatchEvent list"

definition channel_start :: "int \<Rightarrow> string \<Rightarrow> ChannelRun" where
  "channel_start watchId watcherAddr =
     \<lparr>cr_channel = new_channel watchId watcherAddr, cr_flight = None, cr_pushed = [],
      cr_delivered = []\<rparr>"

inductive channel_step :: "ChannelRun \<Rightarrow> ChannelRun \<Rightarrow> bool" where
  step_push: "\<not> wc_cancelled (cr_channel r) \<Longrightarrow> \<not> wc_needReWatch (cr_channel r) \<Longrightarrow>
     \<forall>e \<in> set (cr_pushed r). we_revision e < we_revision ev \<Longrightarrow>
     channel_step r (r\<lparr>cr_channel := push_event ev (cr_channel r), cr_pushed := cr_pushed r @ [ev]\<rparr>)"
| step_snapshot: "wc_snapshotRevision (cr_channel r) = 0 \<Longrightarrow> 0 < rv \<Longrightarrow>
     channel_step r (r\<lparr>cr_channel := (cr_channel r)\<lparr>wc_snapshotRevision := rv\<rparr>\<rparr>)"
| step_idle: "cr_flight r = None \<Longrightarrow> prepare_channel True (cr_channel r) = (Idle, ch) \<Longrightarrow>
     channel_step r (r\<lparr>cr_channel := ch\<rparr>)"
| step_prepare: "cr_flight r = None \<Longrightarrow>
     prepare_channel True (cr_channel r) = (Batch False m evs, ch) \<Longrightarrow>
     channel_step r (r\<lparr>cr_channel := ch, cr_flight := Some (m, evs)\<rparr>)"
| step_ack: "cr_flight r = Some (m, evs) \<Longrightarrow> commit_channel m (cr_channel r) = (again, ch) \<Longrightarrow>
     channel_step r (r\<lparr>cr_channel := ch, cr_flight := None, cr_delivered := cr_delivered r @ evs\<rparr>)"
| step_fail: "cr_flight r = Some (m, evs) \<Longrightarrow> PrepareRetry True (cr_channel r) = (d, ch) \<Longrightarrow>
     channel_step r (r\<lparr>cr_channel := ch, cr_flight := None\<rparr>)"
| step_cancel: "channel_step r (r\<lparr>cr_channel := cancel_channel (cr_channel r)\<rparr>)"

definition above :: "int \<Rightarrow> WatchEvent list \<Rightarrow> WatchEvent list" where
  "above r evs = filter (\<lambda>ev. r < we_revision ev) evs"

lemma above_append [simp]: "above r (xs @ ys) = above r xs @ above r ys"
  by (simp add: above_def)

lemma above_idem [simp]: "above r (above r evs) = above r evs"
  by (simp add: above_def)

lemma unseen_above: "unseen ch = above (wc_snapshotRevision ch) (wc_queue ch)"
  by (simp add: unseen_def above_def)

text \<open>
  The invariant of a run. On a channel that still accepts events the queue is the tail of what
  was pushed, and the events above the snapshot are those delivered followed by those queued; a
  batch in flight is the front of the queue. In every state, what was delivered together with
  the batch in flight is a prefix of the pushed events above the snapshot.
\<close>

definition flight_events :: "ChannelRun \<Rightarrow> WatchEvent list" where
  "flight_events r = (case cr_flight r of None \<Rightarrow> [] | Some (m, evs) \<Rightarrow> evs)"

lemma flight_events_simps [simp]:
  "cr_flight r = None \<Longrightarrow> flight_events r = []"
  "cr_flight r = Some (m, evs) \<Longrightarrow> flight_events r = evs"
  by (simp_all add: flight_events_def)

definition accepting :: "WatcherChannel \<Rightarrow> bool" where
  "accepting ch \<longleftrightarrow> \<not> wc_cancelled ch \<and> \<not> wc_needReWatch ch"

definition flight_ok :: "ChannelRun \<Rightarrow> bool" where
  "flight_ok r \<longleftrightarrow> (\<forall>m evs. cr_flight r = Some (m, evs) \<longrightarrow>
     evs \<noteq> [] \<and> m = we_revision (last evs) \<and> prefix evs (wc_queue (cr_channel r))
     \<and> above (wc_snapshotRevision (cr_channel r)) (wc_queue (cr_channel r)) = wc_queue (cr_channel r))"

definition queue_ok :: "ChannelRun \<Rightarrow> bool" where
  "queue_ok r \<longleftrightarrow>
     suffix (wc_queue (cr_channel r)) (cr_pushed r)
     \<and> above (wc_snapshotRevision (cr_channel r)) (cr_pushed r)
         = cr_delivered r @ above (wc_snapshotRevision (cr_channel r)) (wc_queue (cr_channel r))
     \<and> (wc_snapshotRevision (cr_channel r) = 0 \<longrightarrow> wc_queue (cr_channel r) = cr_pushed r)"

definition history_ok :: "ChannelRun \<Rightarrow> bool" where
  "history_ok r \<longleftrightarrow>
     increasing (cr_pushed r) \<and> 0 \<le> wc_snapshotRevision (cr_channel r)
     \<and> (wc_snapshotRevision (cr_channel r) = 0 \<longrightarrow> cr_delivered r = [] \<and> cr_flight r = None)
     \<and> prefix (cr_delivered r @ flight_events r)
         (above (wc_snapshotRevision (cr_channel r)) (cr_pushed r))"

definition channel_inv :: "ChannelRun \<Rightarrow> bool" where
  "channel_inv r \<longleftrightarrow> history_ok r \<and> (accepting (cr_channel r) \<longrightarrow> queue_ok r \<and> flight_ok r)"

lemma channel_inv_start: "channel_inv (channel_start i a)"
  by (simp add: channel_inv_def history_ok_def queue_ok_def flight_ok_def channel_start_def
      new_channel_def above_def)

lemma queue_increasing:
  assumes "history_ok r" and "queue_ok r"
  shows "increasing (wc_queue (cr_channel r))"
proof -
  obtain zs where "cr_pushed r = zs @ wc_queue (cr_channel r)"
    using assms(2) by (auto simp: queue_ok_def elim: suffixE)
  moreover have "increasing (cr_pushed r)" using assms(1) by (simp add: history_ok_def)
  ultimately show ?thesis by simp
qed

lemma flight_below_new:
  assumes "queue_ok r" and "flight_ok r" and "cr_flight r = Some (m, evs)"
    and new: "\<forall>e \<in> set (cr_pushed r). we_revision e < we_revision ev"
  shows "wc_snapshotRevision (cr_channel r) < we_revision ev"
proof -
  let ?q = "wc_queue (cr_channel r)"
  have "evs \<noteq> []" "prefix evs ?q" and ab: "above (wc_snapshotRevision (cr_channel r)) ?q = ?q"
    using assms(2,3) by (auto simp: flight_ok_def)
  then have "hd evs \<in> set ?q" by (metis hd_in_set set_mono_prefix subsetD)
  then have "hd evs \<in> set (cr_pushed r)" "wc_snapshotRevision (cr_channel r) < we_revision (hd evs)"
    using assms(1) ab set_mono_suffix
    by (auto simp: queue_ok_def above_def filter_id_conv)
  then show ?thesis using new by force
qed

lemma channel_inv_push:
  assumes inv: "channel_inv r" and acc: "accepting (cr_channel r)"
    and new: "\<forall>e \<in> set (cr_pushed r). we_revision e < we_revision ev"
  shows "channel_inv (r\<lparr>cr_channel := push_event ev (cr_channel r), cr_pushed := cr_pushed r @ [ev]\<rparr>)"
    (is "channel_inv ?r'")
proof -
  let ?ch = "cr_channel r"
  have h: "history_ok r" and q: "queue_ok r" and f: "flight_ok r"
    using inv acc by (auto simp: channel_inv_def)
  have snap: "wc_snapshotRevision (push_event ev ?ch) = wc_snapshotRevision ?ch"
    by (simp add: push_event_def)
  have "flight_events ?r' = flight_events r" by (simp add: flight_events_def)
  then have "history_ok ?r'" using h new by (simp add: history_ok_def snap)
  moreover have "queue_ok ?r' \<and> flight_ok ?r'" if "accepting (push_event ev ?ch)"
  proof -
    have push: "wc_queue (push_event ev ?ch) = wc_queue ?ch @ [ev]"
      using that by (auto simp: push_event_def accepting_def split: if_splits)
    have "suffix (wc_queue ?ch @ [ev]) (cr_pushed r @ [ev])"
      using q by (auto simp: queue_ok_def suffix_def)
    then have "queue_ok ?r'" using q by (simp add: queue_ok_def push snap)
    moreover have "flight_ok ?r'"
    proof (cases "cr_flight r")
      case (Some mevs)
      then obtain m evs where fl: "cr_flight r = Some (m, evs)" by (cases mevs) auto
      have "above (wc_snapshotRevision ?ch) [ev] = [ev]"
        using flight_below_new [OF q f fl new] by (simp add: above_def)
      then show ?thesis using f fl by (simp add: flight_ok_def push snap)
    qed (simp add: flight_ok_def)
    ultimately show ?thesis by simp
  qed
  ultimately show ?thesis by (simp add: channel_inv_def)
qed

lemma suffix_unseen:
  "increasing (wc_queue ch) \<Longrightarrow> suffix (unseen ch) (wc_queue ch)"
  using suffix_dropWhile [of "\<lambda>ev. we_revision ev \<le> wc_snapshotRevision ch" "wc_queue ch"]
  by (simp add: unseen_def increasing_filter_dropWhile)

lemma channel_inv_prepare:
  assumes inv: "channel_inv r" and fl: "cr_flight r = None"
    and p: "prepare_channel True (cr_channel r) = (Batch False m evs, ch)"
  shows "channel_inv (r\<lparr>cr_channel := ch, cr_flight := Some (m, evs)\<rparr>)" (is "channel_inv ?r'")
proof -
  let ?ch = "cr_channel r"
  have s: "sendable ?ch"
    using p by (auto simp: prepare_channel_def sendable_def Let_def split: if_splits)
  then have h: "history_ok r" and q: "queue_ok r"
    using inv by (auto simp: channel_inv_def accepting_def sendable_def)
  note inc = queue_increasing [OF h q]
  from s inc show ?thesis
  proof (cases rule: prepare_sendable)
    case idle
    then show ?thesis using p by simp
  next
    case (batch b rest)
    have eq: "m = we_revision (last b)" "evs = b" "ch = ?ch\<lparr>wc_queue := unseen ?ch\<rparr>"
      using p batch(5) by auto
    have un: "above (wc_snapshotRevision ?ch) (unseen ?ch) = unseen ?ch" by (simp add: unseen_above)
    have "suffix (wc_queue ?ch) (cr_pushed r)" using q by (simp add: queue_ok_def)
    then have "suffix (unseen ?ch) (cr_pushed r)"
      using suffix_unseen [OF inc] suffix_order.trans by blast
    then have "queue_ok ?r'"
      using q s by (simp add: queue_ok_def eq sendable_def unseen_above)
    moreover have "flight_ok ?r'"
      unfolding flight_ok_def using batch(1,2) un by (simp add: eq del: above_append)
    moreover have pre: "above (wc_snapshotRevision ?ch) (cr_pushed r) = cr_delivered r @ b @ rest"
      using q batch(1) by (simp add: queue_ok_def unseen_above)
    have "history_ok ?r'"
      using h s by (simp add: history_ok_def eq sendable_def pre)
    ultimately show ?thesis by (simp add: channel_inv_def)
  qed
qed

lemma channel_inv_idle:
  assumes inv: "channel_inv r" and fl: "cr_flight r = None"
    and p: "prepare_channel True (cr_channel r) = (Idle, ch)"
  shows "channel_inv (r\<lparr>cr_channel := ch\<rparr>)" (is "channel_inv ?r'")
proof (cases "sendable (cr_channel r)")
  case True
  let ?ch = "cr_channel r"
  have h: "history_ok r" and q: "queue_ok r"
    using inv True by (auto simp: channel_inv_def accepting_def sendable_def)
  from True queue_increasing [OF h q] show ?thesis
  proof (cases rule: prepare_sendable)
    case idle
    then have ch: "above (wc_snapshotRevision ?ch) (wc_queue ?ch) = []"
      "ch = ?ch\<lparr>wc_queue := [], wc_dispatchQueued := False\<rparr>"
      using p by (simp_all add: unseen_above)
    have "history_ok ?r'" using h fl ch(2) by (simp add: history_ok_def)
    moreover have "queue_ok ?r'"
      using q ch True by (simp add: queue_ok_def sendable_def above_def)
    moreover have "flight_ok ?r'" using fl by (simp add: flight_ok_def)
    ultimately show ?thesis by (simp add: channel_inv_def)
  next
    case (batch b rest)
    then show ?thesis using p by simp
  qed
next
  case False
  then have "ch = cr_channel r \<or> ch = (cr_channel r)\<lparr>wc_dispatchQueued := False\<rparr>"
    using p by (auto simp: prepare_channel_def sendable_def Let_def split: if_splits prod.splits)
  then have "wc_queue ch = wc_queue (cr_channel r)" "accepting ch = accepting (cr_channel r)"
    "wc_snapshotRevision ch = wc_snapshotRevision (cr_channel r)"
    by (auto simp: accepting_def)
  then show ?thesis
    using inv fl by (simp add: channel_inv_def history_ok_def queue_ok_def flight_ok_def)
qed

lemma channel_inv_ack:
  assumes inv: "channel_inv r" and fl: "cr_flight r = Some (m, evs)"
    and c: "commit_channel m (cr_channel r) = (again, ch)"
  shows "channel_inv (r\<lparr>cr_channel := ch, cr_flight := None, cr_delivered := cr_delivered r @ evs\<rparr>)"
    (is "channel_inv ?r'")
proof -
  let ?ch = "cr_channel r"
  have keep: "wc_snapshotRevision ch = wc_snapshotRevision ?ch" "accepting ch = accepting ?ch"
    using c by (auto simp: commit_channel_def accepting_def Let_def split: if_splits)
  have h: "history_ok r" using inv by (simp add: channel_inv_def)
  then have "wc_snapshotRevision ?ch \<noteq> 0" using fl by (auto simp: history_ok_def)
  then have "history_ok ?r'" using h fl by (simp add: history_ok_def keep)
  moreover have "queue_ok ?r'" if acc: "accepting ch"
  proof -
    have q: "queue_ok r" and f: "flight_ok r"
      using inv acc keep by (auto simp: channel_inv_def)
    then obtain rest where rest: "wc_queue ?ch = evs @ rest" "evs \<noteq> []" "m = we_revision (last evs)"
      and ab: "above (wc_snapshotRevision ?ch) (evs @ rest) = evs @ rest"
      using fl by (auto simp: flight_ok_def prefix_def)
    have inc: "increasing (evs @ rest)" using queue_increasing [OF h q] rest(1) by simp
    have "\<not> wc_cancelled ?ch" using acc keep by (simp add: accepting_def)
    then have queue: "wc_queue ch = rest"
      using commit_increasing [OF _ rest(1,2) inc] c rest(3) by auto
    have "suffix (wc_queue ?ch) (cr_pushed r)" using q by (simp add: queue_ok_def)
    then have "suffix rest (cr_pushed r)" using rest(1) by (metis suffixI suffix_order.trans)
    moreover have "above (wc_snapshotRevision ?ch) rest = rest"
      using ab by (auto simp: above_def filter_id_conv simp del: filter_append)
    ultimately show ?thesis
      using q rest(1) ab \<open>wc_snapshotRevision ?ch \<noteq> 0\<close>
      by (simp add: queue_ok_def queue keep del: above_append)
  qed
  moreover have "flight_ok ?r'" by (simp add: flight_ok_def)
  ultimately show ?thesis by (simp add: channel_inv_def)
qed

lemma channel_inv_snapshot:
  assumes inv: "channel_inv r" and S0: "wc_snapshotRevision (cr_channel r) = 0" and "0 < rv"
  shows "channel_inv (r\<lparr>cr_channel := (cr_channel r)\<lparr>wc_snapshotRevision := rv\<rparr>\<rparr>)"
proof -
  have "cr_flight r = None" "cr_delivered r = []"
    using inv S0 by (auto simp: channel_inv_def history_ok_def)
  then show ?thesis
    using assms
    by (auto simp: channel_inv_def history_ok_def queue_ok_def flight_ok_def accepting_def
        flight_events_def)
qed

lemma channel_inv_fail:
  assumes inv: "channel_inv r" and p: "PrepareRetry True (cr_channel r) = (d, ch)"
  shows "channel_inv (r\<lparr>cr_channel := ch, cr_flight := None\<rparr>)"
proof -
  have "wc_queue ch = wc_queue (cr_channel r)" "accepting ch = accepting (cr_channel r)"
    "wc_snapshotRevision ch = wc_snapshotRevision (cr_channel r)"
    using p by (auto simp: PrepareRetry_def Let_def accepting_def split: if_splits)
  moreover have "prefix (cr_delivered r) (above (wc_snapshotRevision (cr_channel r)) (cr_pushed r))"
    using inv append_prefixD by (auto simp: channel_inv_def history_ok_def)
  ultimately show ?thesis
    using inv by (simp add: channel_inv_def history_ok_def queue_ok_def flight_ok_def)
qed

lemma channel_inv_cancel:
  "channel_inv r \<Longrightarrow> channel_inv (r\<lparr>cr_channel := cancel_channel (cr_channel r)\<rparr>)"
  by (simp add: channel_inv_def history_ok_def accepting_def cancel_channel_def flight_events_def)

lemma channel_step_inv: "channel_step r r' \<Longrightarrow> channel_inv r \<Longrightarrow> channel_inv r'"
  by (induction rule: channel_step.induct)
    (auto simp: accepting_def intro: channel_inv_push channel_inv_snapshot channel_inv_idle
      channel_inv_prepare channel_inv_ack channel_inv_fail channel_inv_cancel)

lemma channel_reachable_inv:
  "channel_step\<^sup>*\<^sup>* (channel_start i a) r \<Longrightarrow> channel_inv r"
  by (induction rule: rtranclp_induct) (auto intro: channel_inv_start channel_step_inv)

subsection \<open>Properties of a channel\<close>


text \<open>Notification rounds that all succeed, with nothing pushed in between.\<close>

fun deliver_rounds :: "nat \<Rightarrow> WatcherChannel \<Rightarrow> WatchEvent list \<times> WatcherChannel" where
  "deliver_rounds 0 ch = ([], ch)"
| "deliver_rounds (Suc n) ch =
     (case prepare_channel True ch of
        (Batch False m evs, ch1) \<Rightarrow>
          (case deliver_rounds n (snd (commit_channel m ch1)) of
             (evs', ch2) \<Rightarrow> (evs @ evs', ch2))
      | (_, ch1) \<Rightarrow> ([], ch1))"


text \<open>Jitter is at most a fifth of the delay, and cannot overflow.\<close>

lemma retry_jitter_bounds:
  assumes "0 \<le> d" and "d \<le> MAX_RETRY_DELAY_MS"
  shows "- (d div 5) \<le> retry_jitter i d" "retry_jitter i d \<le> d div 5"
proof -
  define r where "r = d div 5"
  let ?w = "word_of_int (r * 2 + 1) :: u64"
  define s :: u64 where "s = xor (word_of_int i) (word_of_int d)"
  have r: "0 \<le> r" "r \<le> 1000" using assms by (simp_all add: r_def retry_consts)
  have w: "uint ?w = r * 2 + 1"
    using r by (subst uint_word_of_int_eq) (simp add: take_bit_int_eq_self)
  have "uint (s mod ?w) = uint s mod (r * 2 + 1)" by (simp only: uint_mod w)
  then have m: "0 \<le> uint (s mod ?w)" "uint (s mod ?w) < r * 2 + 1"
    using r pos_mod_bound [of "r * 2 + 1" "uint s"] by simp_all
  define u where "u = uint (s mod ?w)"
  have "0 \<le> u" "u < 2 ^ 63" using m r by (simp_all add: u_def)
  then have "signed_take_bit 63 u = u" by (intro signed_take_bit_int_eq_self) simp_all
  then have "sint (s mod ?w) = uint (s mod ?w)" by (simp add: sint_uint u_def)
  moreover have "retry_jitter i d = sint (s mod ?w) - r"
    by (simp add: retry_jitter_def Let_def retry_consts r_def s_def)
  ultimately show "- (d div 5) \<le> retry_jitter i d" "retry_jitter i d \<le> d div 5"
    using m by (simp_all add: r_def [symmetric])
qed

text \<open>Consecutive failures on a channel; the last delay chosen.\<close>

fun fail_times :: "nat \<Rightarrow> WatcherChannel \<Rightarrow> int option \<times> WatcherChannel" where
  "fail_times 0 ch = (None, ch)"
| "fail_times (Suc n) ch = PrepareRetry True (snd (fail_times n ch))"

lemma fail_times_delay:
  assumes "\<not> wc_cancelled ch" and "wc_retryDelayMs ch = 0"
  shows "\<not> wc_cancelled (snd (fail_times n ch)) \<and> wc_watchId (snd (fail_times n ch)) = wc_watchId ch
    \<and> wc_retryDelayMs (snd (fail_times n ch))
      = (if n = 0 then 0 else min (INITIAL_RETRY_DELAY_MS * 2 ^ (n - 1)) MAX_RETRY_DELAY_MS)"
proof (induction n)
  case (Suc n)
  have double: "min (min (INITIAL_RETRY_DELAY_MS * 2 ^ m) MAX_RETRY_DELAY_MS * RETRY_DELAY_MULTIPLIER)
      MAX_RETRY_DELAY_MS = min (INITIAL_RETRY_DELAY_MS * 2 ^ Suc m) MAX_RETRY_DELAY_MS" for m
    by (simp add: min_def retry_consts)
  have pos: "min (INITIAL_RETRY_DELAY_MS * 2 ^ m) MAX_RETRY_DELAY_MS \<noteq> 0" for m
    by (simp add: min_def retry_consts)
  have cap: "min INITIAL_RETRY_DELAY_MS MAX_RETRY_DELAY_MS = INITIAL_RETRY_DELAY_MS"
    by (simp add: retry_consts)
  show ?case
  proof (cases n)
    case 0
    then show ?thesis using assms cap by (simp add: PrepareRetry_def Let_def)
  next
    case (Suc m)
    then show ?thesis
      using Suc.IH double [of m] pos [of m] by (simp add: PrepareRetry_def Let_def)
  qed
qed (use assms in simp)

text \<open>
  Retries back off and stay bounded: after the n-th consecutive failure the base delay is
  100 ms doubled n-1 times, capped at 5 s, and the delay actually used is within a fifth of it
  and within 100 ms and 5 s.
\<close>

lemma retry_backoff_bounded:
  assumes "\<not> wc_cancelled ch" and "wc_retryDelayMs ch = 0" and "0 < n"
  shows "\<exists>d base. fst (fail_times n ch) = Some d
    \<and> base = wc_retryDelayMs (snd (fail_times n ch))
    \<and> base = min (INITIAL_RETRY_DELAY_MS * 2 ^ (n - 1)) MAX_RETRY_DELAY_MS
    \<and> INITIAL_RETRY_DELAY_MS \<le> d \<and> d \<le> MAX_RETRY_DELAY_MS
    \<and> base - base div 5 \<le> d \<and> d \<le> base + base div 5"
proof -
  obtain k where n: "n = Suc k" using assms(3) by (cases n) auto
  let ?ch = "snd (fail_times k ch)"
  define base where "base = (if wc_retryDelayMs ?ch = 0 then INITIAL_RETRY_DELAY_MS
               else min (wc_retryDelayMs ?ch * RETRY_DELAY_MULTIPLIER) MAX_RETRY_DELAY_MS)"
  define j where "j = retry_jitter (wc_watchId ?ch) base"
  define d where "d = max INITIAL_RETRY_DELAY_MS (min MAX_RETRY_DELAY_MS (base + j))"
  have live: "\<not> wc_cancelled ?ch" using fail_times_delay [OF assms(1,2)] by simp
  have p: "fail_times n ch = (Some d, ?ch\<lparr>wc_retryDelayMs := base\<rparr>)"
    using live by (simp add: n PrepareRetry_def Let_def base_def j_def d_def)
  have base: "base = min (INITIAL_RETRY_DELAY_MS * 2 ^ (n - 1)) MAX_RETRY_DELAY_MS"
    using fail_times_delay [OF assms(1,2), of n] assms(3) p by simp
  have "(1::int) \<le> 2 ^ (n - 1)" by simp
  then have b: "100 \<le> base" "base \<le> 5000"
    unfolding base by (simp_all add: retry_consts)
  then have "- (base div 5) \<le> j" "j \<le> base div 5"
    unfolding j_def by (simp_all add: retry_jitter_bounds retry_consts)
  then have "base - base div 5 \<le> d" "d \<le> base + base div 5" "100 \<le> d" "d \<le> 5000"
    using b by (simp_all add: d_def retry_consts)
  then show ?thesis
    using p base by (intro exI [of _ d] exI [of _ base]) (simp add: retry_consts)
qed

subsection \<open>Events of one revision\<close>

text \<open>Fan-out of a list of events to one channel that accepts events.\<close>

definition push_all :: "WatchEvent list \<Rightarrow> WatcherChannel \<Rightarrow> WatcherChannel" where
  "push_all evs ch = foldl (\<lambda>c ev. push_event ev c) ch evs"

lemma push_all_fits:
  "length (wc_queue ch) + length evs \<le> wc_backpressureLimit ch \<Longrightarrow>
     push_all evs ch = ch\<lparr>wc_queue := wc_queue ch @ evs\<rparr>"
proof (induction evs arbitrary: ch)
  case (Cons ev evs)
  then show ?case by (simp add: push_all_def push_event_def)
qed (simp add: push_all_def)

lemma foldl_max_same:
  "\<forall>ev \<in> set b. we_revision ev = rv \<Longrightarrow> b \<noteq> [] \<Longrightarrow> m \<le> rv \<Longrightarrow>
     foldl max m (map we_revision b) = rv"
proof (induction b arbitrary: m)
  case (Cons ev b)
  then show ?case by (cases "b = []") (simp_all add: max_def)
qed simp

lemma round_drops_equal_revisions:
  assumes "sendable ch" and "wc_queue ch \<noteq> []"
    and same: "\<forall>ev \<in> set (wc_queue ch). we_revision ev = rv"
    and rv: "wc_snapshotRevision ch < rv"
  shows "\<exists>batch. length batch \<le> MAX_WATCH_EVENTS_PER_BATCH
    \<and> fst (deliver_rounds n ch) = (if n = 0 then [] else batch)
    \<and> (0 < n \<longrightarrow> wc_queue (snd (deliver_rounds n ch)) = [])"
proof -
  let ?q = "take MAX_WATCH_EVENTS_PER_BATCH (wc_queue ch)"
  obtain b where b: "collect_batch ?q 0 0 [] = (foldl max 0 (map we_revision b), b)"
    "prefix b ?q" "?q \<noteq> [] \<longrightarrow> b \<noteq> []"
    using collect_batch_prefix [of ?q 0 0 "[]"] by auto
  have ne: "b \<noteq> []" using b(3) assms(2) by (simp add: MAX_WATCH_EVENTS_PER_BATCH_def)
  have sub: "set b \<subseteq> set (wc_queue ch)"
    using set_mono_prefix [OF b(2)] set_take_subset by fastforce
  have "0 \<le> rv" using rv assms(1) by (simp add: sendable_def)
  then have max: "foldl max 0 (map we_revision b) = rv"
    using foldl_max_same [of b rv 0] same sub ne by blast
  have dw: "dropWhile (\<lambda>ev. we_revision ev \<le> wc_snapshotRevision ch) (wc_queue ch) = wc_queue ch"
    using same rv assms(2) by (cases "wc_queue ch") auto
  have prep: "prepare_channel True ch = (Batch False rv b, ch)"
    using assms(1,2) dw b(1) max by (auto simp: prepare_channel_def sendable_def Let_def)
  have "dropWhile (\<lambda>ev. we_revision ev \<le> rv) (wc_queue ch) = []"
    using same by (simp add: dropWhile_eq_Nil_conv)
  then have empty: "wc_queue (snd (commit_channel rv ch)) = []"
    using assms(1) by (simp add: commit_channel_def sendable_def Let_def)
  have idle: "fst (deliver_rounds k c) = [] \<and> wc_queue (snd (deliver_rounds k c)) = []"
    if "wc_queue c = []" for k c
    using that by (cases k) (auto simp: prepare_channel_def)
  have "length b \<le> MAX_WATCH_EVENTS_PER_BATCH" using prefix_length_le [OF b(2)] by simp
  then show ?thesis
    using prep idle [OF empty, of "n - 1"]
    by (cases n) (auto simp: split_def intro!: exI [of _ b])
qed

text \<open>A channel registered at a revision, after fan-out of some events.\<close>

definition watching_channel :: "int \<Rightarrow> string \<Rightarrow> int \<Rightarrow> WatchEvent list \<Rightarrow> WatcherChannel" where
  "watching_channel watchId addr rv evs =
     push_all evs ((new_channel watchId addr)\<lparr>wc_snapshotRevision := rv\<rparr>)"


subsection \<open>Concrete channels\<close>

definition demo_event :: "int \<Rightarrow> WatchEvent" where
  "demo_event rv = \<lparr>we_type = PUT, we_entry = \<lparr>kv_key = ''k'', kv_value = ''v'', kv_version = 1,
     kv_modRevision = rv\<rparr>, we_revision = rv\<rparr>"

definition demo_sent :: ChannelRun where
  "demo_sent = \<lparr>cr_channel = (new_channel 1 ''h'')\<lparr>wc_snapshotRevision := 1\<rparr>, cr_flight = None,
     cr_pushed = [demo_event 2], cr_delivered = [demo_event 2]\<rparr>"

lemmas channel_eval = new_channel_def demo_event_def prepare_channel_def commit_channel_def Let_def
  MAX_WATCH_EVENTS_PER_BATCH_def WATCH_EVENT_BATCH_MERGE_THRESHOLD_BYTES_def
  WATCH_EVENT_WIRE_OVERHEAD_BYTES_def event_bytes_def

lemma demo_sent_reachable: "channel_step\<^sup>*\<^sup>* (channel_start 1 ''h'') demo_sent"
proof -
  let ?r1 = "(channel_start 1 ''h'')\<lparr>cr_channel := (new_channel 1 ''h'')\<lparr>wc_snapshotRevision := 1\<rparr>\<rparr>"
  let ?r2 = "?r1\<lparr>cr_channel := push_event (demo_event 2) (cr_channel ?r1), cr_pushed := [demo_event 2]\<rparr>"
  let ?r3 = "?r2\<lparr>cr_flight := Some (2, [demo_event 2])\<rparr>"
  have "channel_step (channel_start 1 ''h'') ?r1"
    using step_snapshot [of "channel_start 1 ''h''" 1] by (simp add: channel_start_def new_channel_def)
  moreover have "channel_step ?r1 ?r2"
    using step_push [of ?r1 "demo_event 2"] by (simp add: channel_start_def new_channel_def)
  moreover have "channel_step ?r2 ?r3"
    using step_prepare [of ?r2 2 "[demo_event 2]" "cr_channel ?r2"]
    by (simp add: channel_start_def push_event_def channel_eval)
  moreover have "channel_step ?r3 demo_sent"
    using step_ack [of ?r3 2 "[demo_event 2]" False "cr_channel demo_sent"]
    by (simp add: channel_start_def push_event_def channel_eval demo_sent_def)
  ultimately show ?thesis by (meson converse_rtranclp_into_rtranclp rtranclp.rtrancl_refl)
qed



lemma retry_backoff_bounded_witness:
  "\<exists>d. fst (fail_times 3 (new_channel 7 ''h'')) = Some d \<and> 320 \<le> d \<and> d \<le> 480"
proof -
  have "\<not> wc_cancelled (new_channel 7 ''h'')" "wc_retryDelayMs (new_channel 7 ''h'') = 0" "0 < (3::nat)"
    by (simp_all add: new_channel_def)
  from retry_backoff_bounded [OF this] show ?thesis by (auto simp: retry_consts simp del: fail_times.simps)
qed

text \<open>Thirty-three keys under one prefix, and the deletion of the prefix.\<close>

definition demo_puts :: "KvOp list" where
  "demo_puts = map (\<lambda>n. OpPut (CHR ''k'' # replicate n CHR ''x'') ''v'' 0 (-1) 0 0) [0..<33]"

lemma demo_puts_deleted:
  "length (delete_targets (fst (kv_run demo_puts)) ''k'' ''l'') = 33"
  by code_simp


end
