(* ===== verification/WatchDispatcher.thy ===== *)
theory WatchDispatcher
  imports WatchRegistry WatchChannel "HOL-Library.Multiset"
begin

section \<open>The watch dispatcher\<close>

text \<open>
  Models the rest of src/datasystem/common/coordinator/watch_dispatcher.{h,cpp}: the bounded
  pending queue, the table of channels with its reverse index, the fan-out loop, the ready and
  retry queues of the dispatch groups and the worker loop. Channels are shared pointers, so they
  live in a heap indexed by addresses; a cancelled channel leaves the table and may still be in a
  queue or in the hands of a worker. The local variables that survive a lock release are part of
  the state: the batch of the fan-out thread and, per worker that is notifying, its flight. The
  registry pointer of the dispatcher is never null (CoordinatorServiceImpl passes its own).
  An unordered_map is iterated in key order, which is one of the orders C++ allows, and
  std::hash of an int64 is the identity on 64 bits, as in libstdc++.
\<close>

subsection \<open>Data\<close>

record RetryChannel =
  rc_readyTime :: int
  rc_channel :: nat

record DispatchChannelGroup =
  dg_readyChannels :: "nat list"
  dg_retryChannels :: "RetryChannel list"

datatype HandleResult = NONE | READY_AGAIN | RETRY_LATER

record Flight =
  fl_group :: nat
  fl_channel :: nat
  fl_needReWatch :: bool
  fl_maxEventRevision :: int

record WatchDispatcher =
  wd_pendingQueue :: "WatchEvent list"
  wd_droppedPendingEvents :: u64
  wd_cancelFailures :: u64
  wd_notifyFailures :: u64
  wd_pendingOverflow :: bool
  wd_heap :: "nat \<Rightarrow> WatcherChannel"
  wd_nextChannel :: nat
  wd_channels :: "(int, nat) omap"
  wd_watchIdsByWatcher :: "string \<rightharpoonup> int list"
  wd_groups :: "DispatchChannelGroup list"
  wd_dispatchThreadCount :: nat
  wd_running :: bool
  wd_batch :: "WatchEvent list"
  wd_flights :: "Flight list"

definition MAX_PENDING_EVENTS :: nat where "MAX_PENDING_EVENTS = 10000"
definition MAX_READY_CHANNEL_GROUPS :: nat where "MAX_READY_CHANNEL_GROUPS = 8"
definition MAX_WATCH_EVENTS_PER_FAN_OUT :: nat where "MAX_WATCH_EVENTS_PER_FAN_OUT = 4096"

definition new_WatchDispatcher :: "nat \<Rightarrow> WatchDispatcher" where
  "new_WatchDispatcher dispatchThreadCount =
     \<lparr>wd_pendingQueue = [], wd_droppedPendingEvents = 0, wd_cancelFailures = 0,
      wd_notifyFailures = 0, wd_pendingOverflow = False, wd_heap = (\<lambda>_. new_channel 0 []),
      wd_nextChannel = 0, wd_channels = [], wd_watchIdsByWatcher = Map.empty, wd_groups = [],
      wd_dispatchThreadCount = dispatchThreadCount, wd_running = False, wd_batch = [],
      wd_flights = []\<rparr>"

definition set_channel :: "WatchDispatcher \<Rightarrow> nat \<Rightarrow> WatcherChannel \<Rightarrow> WatchDispatcher" where
  "set_channel d c ch = d\<lparr>wd_heap := (wd_heap d)(c := ch)\<rparr>"

subsection \<open>The pending queue\<close>

definition Enqueue :: "WatchDispatcher \<Rightarrow> WatchEvent \<Rightarrow> WatchDispatcher" where
  "Enqueue d ev =
     (if length (wd_pendingQueue d) \<ge> MAX_PENDING_EVENTS
      then d\<lparr>wd_droppedPendingEvents := wd_droppedPendingEvents d + 1, wd_pendingOverflow := True\<rparr>
      else d\<lparr>wd_pendingQueue := wd_pendingQueue d @ [ev]\<rparr>)"

definition GetPendingEventCount :: "WatchDispatcher \<Rightarrow> nat" where
  "GetPendingEventCount d = length (wd_pendingQueue d)"

subsection \<open>The channel table\<close>

definition CancelChannel :: "WatchDispatcher \<Rightarrow> nat \<Rightarrow> WatchDispatcher" where
  "CancelChannel d c = set_channel d c (cancel_channel (wd_heap d c))"

definition RemoveReverseIndexLocked :: "WatchDispatcher \<Rightarrow> nat \<Rightarrow> WatchDispatcher" where
  "RemoveReverseIndexLocked d c =
     (let ch = wd_heap d c in
      case wd_watchIdsByWatcher d (wc_watcherAddr ch) of
        None \<Rightarrow> d
      | Some ids \<Rightarrow>
          (let ids' = remove1 (wc_watchId ch) ids
           in d\<lparr>wd_watchIdsByWatcher := (wd_watchIdsByWatcher d)
                 (wc_watcherAddr ch := (if ids' = [] then None else Some ids'))\<rparr>))"

definition AddChannel :: "WatchDispatcher \<Rightarrow> int \<Rightarrow> string \<Rightarrow> WatchDispatcher" where
  "AddChannel d watchId watcherAddr =
     (let c = wd_nextChannel d;
          d0 = (set_channel d c (new_channel watchId watcherAddr))\<lparr>wd_nextChannel := Suc c\<rparr>;
          d1 = (case map_of (wd_channels d0) watchId of
                  None \<Rightarrow> d0
                | Some old \<Rightarrow> RemoveReverseIndexLocked (CancelChannel d0 old) old)
      in d1\<lparr>wd_channels := omap_set watchId c (wd_channels d1),
            wd_watchIdsByWatcher := (wd_watchIdsByWatcher d1)(watcherAddr \<mapsto>
              List.insert watchId (case wd_watchIdsByWatcher d1 watcherAddr of
                                     None \<Rightarrow> [] | Some ids \<Rightarrow> ids))\<rparr>)"

definition RemoveChannel :: "WatchDispatcher \<Rightarrow> int \<Rightarrow> WatchDispatcher" where
  "RemoveChannel d watchId =
     (case map_of (wd_channels d) watchId of
        None \<Rightarrow> d
      | Some c \<Rightarrow>
          (let d1 = RemoveReverseIndexLocked (CancelChannel d c) c
           in d1\<lparr>wd_channels := omap_erase watchId (wd_channels d1)\<rparr>))"

text \<open>Cancellation of a list of watches in the registry, counting the unexpected failures.\<close>

fun cancel_watches :: "WatchRegistry \<Rightarrow> string \<Rightarrow> int list \<Rightarrow> u64 \<Rightarrow> WatchRegistry \<times> u64" where
  "cancel_watches reg addr [] failures = (reg, failures)"
| "cancel_watches reg addr (i # ids) failures =
     (case Cancel reg i addr of
        (Inl K_NOT_FOUND, reg') \<Rightarrow> cancel_watches reg' addr ids failures
      | (Inl _, reg') \<Rightarrow> cancel_watches reg' addr ids (failures + 1)
      | (Inr _, reg') \<Rightarrow> cancel_watches reg' addr ids failures)"

definition RemoveChannelsByWatcher :: "WatchRegistry \<Rightarrow> WatchDispatcher \<Rightarrow> string
    \<Rightarrow> WatchRegistry \<times> WatchDispatcher" where
  "RemoveChannelsByWatcher reg d watcherAddr =
     (case wd_watchIdsByWatcher d watcherAddr of
        None \<Rightarrow> (reg, d)
      | Some watchIds \<Rightarrow>
          (case cancel_watches reg watcherAddr watchIds (wd_cancelFailures d) of
             (reg', failures) \<Rightarrow>
               (reg', foldl RemoveChannel (d\<lparr>wd_cancelFailures := failures\<rparr>) watchIds)))"

definition RemoveChannelsByWatcherInScopes :: "WatchRegistry \<Rightarrow> WatchDispatcher \<Rightarrow> string
    \<Rightarrow> string list \<Rightarrow> WatchRegistry \<times> WatchDispatcher" where
  "RemoveChannelsByWatcherInScopes reg d watcherAddr tableScopes =
     (case wd_watchIdsByWatcher d watcherAddr of
        None \<Rightarrow> (reg, d)
      | Some ids \<Rightarrow>
          foldl (\<lambda>(reg, d) watchId. (snd (Cancel reg watchId watcherAddr), RemoveChannel d watchId))
            (reg, d) (filter (\<lambda>i. IsWatchInScopes reg i tableScopes) ids))"

subsection \<open>Scheduling\<close>

definition GetReadyGroupIndex :: "WatchDispatcher \<Rightarrow> nat \<Rightarrow> nat" where
  "GetReadyGroupIndex d c =
     unat (word_of_int (wc_watchId (wd_heap d c)) :: u64) mod length (wd_groups d)"

definition push_ready :: "WatchDispatcher \<Rightarrow> nat \<Rightarrow> nat \<Rightarrow> WatchDispatcher" where
  "push_ready d g c =
     d\<lparr>wd_groups := (wd_groups d)[g := (wd_groups d ! g)
         \<lparr>dg_readyChannels := dg_readyChannels (wd_groups d ! g) @ [c]\<rparr>]\<rparr>"

definition ScheduleChannelLocked :: "WatchDispatcher \<Rightarrow> nat \<Rightarrow> WatchDispatcher" where
  "ScheduleChannelLocked d c =
     (let ch = wd_heap d c in
      if wc_cancelled ch \<or> wc_dispatchQueued ch \<or> wd_groups d = [] then d
      else push_ready (set_channel d c (ch\<lparr>wc_dispatchQueued := True\<rparr>)) (GetReadyGroupIndex d c) c)"

definition SetSnapshotRevision :: "WatchDispatcher \<Rightarrow> int \<Rightarrow> int \<Rightarrow> WatchDispatcher" where
  "SetSnapshotRevision d watchId revision =
     (case map_of (wd_channels d) watchId of
        None \<Rightarrow> d
      | Some c \<Rightarrow>
          (let ch = wd_heap d c;
               d1 = set_channel d c (ch\<lparr>wc_snapshotRevision := revision\<rparr>)
           in if wc_queue ch \<noteq> [] then ScheduleChannelLocked d1 c else d1))"

text \<open>Start, given the status of the notify executor, and Stop once its threads are joined.\<close>

definition Dispatcher_Start :: "WatchDispatcher \<Rightarrow> StatusCode \<Rightarrow> unit result \<times> WatchDispatcher" where
  "Dispatcher_Start d rc =
     (if wd_running d then (Inr (), d)
      else
        let groupCount = min (wd_dispatchThreadCount d) MAX_READY_CHANNEL_GROUPS;
            d1 = d\<lparr>wd_running := True, wd_groups := wd_groups d
                    @ replicate groupCount \<lparr>dg_readyChannels = [], dg_retryChannels = []\<rparr>\<rparr>
        in if rc \<noteq> K_OK then (Inl rc, d1\<lparr>wd_running := False, wd_groups := []\<rparr>)
           else (Inr (), d1))"

definition Dispatcher_Stop :: "WatchDispatcher \<Rightarrow> WatchDispatcher" where
  "Dispatcher_Stop d = (if \<not> wd_running d then d else d\<lparr>wd_running := False, wd_groups := []\<rparr>)"

subsection \<open>Fan-out\<close>

text \<open>The fan-out thread takes a batch from the pending queue.\<close>

definition FanOutTake :: "WatchDispatcher \<Rightarrow> WatchDispatcher" where
  "FanOutTake d =
     (let count = min MAX_WATCH_EVENTS_PER_FAN_OUT (length (wd_pendingQueue d))
      in d\<lparr>wd_batch := wd_batch d @ take count (wd_pendingQueue d),
           wd_pendingQueue := drop count (wd_pendingQueue d)\<rparr>)"

definition rewatch_channel :: "WatchDispatcher \<Rightarrow> nat \<Rightarrow> WatchDispatcher" where
  "rewatch_channel d c =
     (let ch = wd_heap d c in
      if wc_cancelled ch \<or> wc_needReWatch ch then d
      else ScheduleChannelLocked
             (set_channel d c (ch\<lparr>wc_queue := [MakeRewatchEvent None], wc_needReWatch := True\<rparr>)) c)"

definition ScheduleAllChannelsForRewatch :: "WatchDispatcher \<Rightarrow> WatchDispatcher" where
  "ScheduleAllChannelsForRewatch d = foldl rewatch_channel d (map snd (wd_channels d))"

definition FanOutOverflow :: "WatchDispatcher \<Rightarrow> WatchDispatcher" where
  "FanOutOverflow d =
     (if wd_pendingOverflow d then ScheduleAllChannelsForRewatch (d\<lparr>wd_pendingOverflow := False\<rparr>)
      else d)"

text \<open>One matched watcher of one event.\<close>

definition fan_out_watcher :: "WatchEvent \<Rightarrow> WatchDispatcher \<Rightarrow> int \<Rightarrow> WatchDispatcher" where
  "fan_out_watcher ev d watchId =
     (case map_of (wd_channels d) watchId of
        None \<Rightarrow> d
      | Some c \<Rightarrow>
          (let ch = wd_heap d c in
           if wc_cancelled ch \<or> wc_needReWatch ch then d
           else ScheduleChannelLocked (set_channel d c (push_event ev ch)) c))"

definition fan_out_event :: "WatchRegistry \<Rightarrow> WatchDispatcher \<Rightarrow> WatchEvent \<Rightarrow> WatchDispatcher" where
  "fan_out_event reg d ev =
     foldl (fan_out_watcher ev) d (map wt_watchId (MatchWatchers reg (kv_key (we_entry ev)) []))"

text \<open>The next event of the batch, and a whole pass of FanOutLoop without interference.\<close>

definition FanOutNext :: "WatchRegistry \<Rightarrow> WatchDispatcher \<Rightarrow> WatchDispatcher" where
  "FanOutNext reg d =
     (case wd_batch d of [] \<Rightarrow> d
      | ev # evs \<Rightarrow> fan_out_event reg (d\<lparr>wd_batch := evs\<rparr>) ev)"

definition FanOutLoop :: "WatchRegistry \<Rightarrow> WatchDispatcher \<Rightarrow> WatchDispatcher" where
  "FanOutLoop reg d =
     (let d1 = FanOutOverflow (FanOutTake d)
      in foldl (fan_out_event reg) (d1\<lparr>wd_batch := []\<rparr>) (wd_batch d1))"

subsection \<open>Dispatch workers\<close>

text \<open>Insertion before the first retry that is due strictly later.\<close>

definition InsertRetryLocked :: "RetryChannel list \<Rightarrow> RetryChannel \<Rightarrow> RetryChannel list" where
  "InsertRetryLocked retries retry =
     takeWhile (\<lambda>q. \<not> rc_readyTime retry < rc_readyTime q) retries
     @ retry # dropWhile (\<lambda>q. \<not> rc_readyTime retry < rc_readyTime q) retries"

text \<open>
  One pass of WaitForReadyChannel: due retries move to the ready queue, cancelled channels are
  skipped, and the first live ready channel is taken.
\<close>

definition WaitForReadyChannel :: "WatchDispatcher \<Rightarrow> nat \<Rightarrow> int \<Rightarrow> nat option \<times> WatchDispatcher" where
  "WaitForReadyChannel d g now =
     (let group = wd_groups d ! g;
          live = (\<lambda>c. \<not> wc_cancelled (wd_heap d c));
          due = takeWhile (\<lambda>r. rc_readyTime r \<le> now) (dg_retryChannels group);
          later = dropWhile (\<lambda>r. rc_readyTime r \<le> now) (dg_retryChannels group);
          ready = dropWhile (\<lambda>c. \<not> live c)
                    (dg_readyChannels group @ filter live (map rc_channel due));
          put = (\<lambda>ready. d\<lparr>wd_groups := (wd_groups d)[g :=
                    group\<lparr>dg_readyChannels := ready, dg_retryChannels := later\<rparr>]\<rparr>)
      in case ready of [] \<Rightarrow> (None, put []) | c # rest \<Rightarrow> (Some c, put rest))"

text \<open>HandleChannelEvents up to the notification: the flight, or nothing to send.\<close>

definition HandleChannelEvents_prepare :: "WatchDispatcher \<Rightarrow> nat \<Rightarrow> nat
    \<Rightarrow> Flight option \<times> WatchEvent list \<times> WatchDispatcher" where
  "HandleChannelEvents_prepare d g c =
     (case prepare_channel (wd_running d) (wd_heap d c) of
        (Idle, ch) \<Rightarrow> (None, [], set_channel d c ch)
      | (Batch needReWatch maxRev events, ch) \<Rightarrow>
          (Some \<lparr>fl_group = g, fl_channel = c, fl_needReWatch = needReWatch,
                 fl_maxEventRevision = maxRev\<rparr>, events, set_channel d c ch))"

definition RemoveRewatchRequiredWatcher :: "WatchRegistry \<Rightarrow> WatchDispatcher \<Rightarrow> int \<Rightarrow> string
    \<Rightarrow> WatchRegistry \<times> WatchDispatcher" where
  "RemoveRewatchRequiredWatcher reg d watchId watcherAddr =
     (snd (Cancel reg watchId watcherAddr), RemoveChannel d watchId)"

text \<open>HandleChannelEvents from the status of the notification on.\<close>

definition HandleChannelEvents_finish :: "WatchRegistry \<Rightarrow> WatchDispatcher \<Rightarrow> Flight \<Rightarrow> StatusCode
    \<Rightarrow> HandleResult \<times> WatchRegistry \<times> WatchDispatcher" where
  "HandleChannelEvents_finish reg d f status =
     (let c = fl_channel f; ch = wd_heap d c in
      if \<not> wd_running d \<or> wc_cancelled ch then (NONE, reg, d)
      else if status = K_NOT_FOUND
      then (NONE, RemoveRewatchRequiredWatcher reg d (wc_watchId ch) (wc_watcherAddr ch))
      else if status \<noteq> K_OK
      then (RETRY_LATER, reg, d\<lparr>wd_notifyFailures := wd_notifyFailures d + 1\<rparr>)
      else if fl_needReWatch f
      then (NONE, RemoveRewatchRequiredWatcher reg d (wc_watchId ch) (wc_watcherAddr ch))
      else case commit_channel (fl_maxEventRevision f) ch of
             (again, ch') \<Rightarrow> (if again then READY_AGAIN else NONE, reg, set_channel d c ch'))"

text \<open>The tail of DispatchLoop, after HandleChannelEvents returned.\<close>

definition DispatchLoop_requeue :: "WatchDispatcher \<Rightarrow> Flight \<Rightarrow> HandleResult \<Rightarrow> int \<Rightarrow> WatchDispatcher" where
  "DispatchLoop_requeue d f result now =
     (let c = fl_channel f in
      if \<not> wd_running d \<or> wc_cancelled (wd_heap d c) then d
      else case result of
        NONE \<Rightarrow> d
      | READY_AGAIN \<Rightarrow> push_ready d (fl_group f) c
      | RETRY_LATER \<Rightarrow>
          (case PrepareRetry (wd_running d) (wd_heap d c) of
             (None, ch) \<Rightarrow> set_channel d c ch
           | (Some delay, ch) \<Rightarrow>
               (let d1 = set_channel d c ch; g = GetReadyGroupIndex d1 c; group = wd_groups d1 ! g
                in d1\<lparr>wd_groups := (wd_groups d1)[g := group\<lparr>dg_retryChannels :=
                      InsertRetryLocked (dg_retryChannels group)
                        \<lparr>rc_readyTime = now + delay * 1000000, rc_channel = c\<rparr>\<rparr>]\<rparr>)))"

text \<open>The two halves of a worker iteration: up to the notification, and after it.\<close>

definition DispatchLoop_begin :: "WatchDispatcher \<Rightarrow> nat \<Rightarrow> int \<Rightarrow> WatchDispatcher" where
  "DispatchLoop_begin d g now =
     (case WaitForReadyChannel d g now of
        (None, d1) \<Rightarrow> d1
      | (Some c, d1) \<Rightarrow>
          (case HandleChannelEvents_prepare d1 g c of
             (None, _, d2) \<Rightarrow> d2
           | (Some f, _, d2) \<Rightarrow> d2\<lparr>wd_flights := wd_flights d2 @ [f]\<rparr>))"

definition DispatchLoop_end :: "WatchRegistry \<Rightarrow> WatchDispatcher \<Rightarrow> Flight \<Rightarrow> StatusCode \<Rightarrow> int
    \<Rightarrow> WatchRegistry \<times> WatchDispatcher" where
  "DispatchLoop_end reg d f status now =
     (let d1 = d\<lparr>wd_flights := remove1 f (wd_flights d)\<rparr>
      in case HandleChannelEvents_finish reg d1 f status of
           (result, reg', d2) \<Rightarrow> (reg', DispatchLoop_requeue d2 f result now))"

subsection \<open>The system as a state machine\<close>

text \<open>
  Every interleaving of the threads that call the dispatcher, of the fan-out thread and of the
  workers. A registration puts its entry into the registry and its channel into the table.
\<close>

inductive watch_step :: "WatchRegistry \<times> WatchDispatcher \<Rightarrow> WatchRegistry \<times> WatchDispatcher \<Rightarrow> bool" where
  ws_enqueue: "watch_step (reg, d) (reg, Enqueue d ev)"
| ws_register: "watch_step (reg, d) (snd (Register reg key rangeEnd addr rid), d)"
| ws_cancel: "watch_step (reg, d) (snd (Cancel reg i addr), d)"
| ws_add: "watch_step (reg, d) (reg, AddChannel d i addr)"
| ws_remove: "watch_step (reg, d) (reg, RemoveChannel d i)"
| ws_remove_by: "watch_step (reg, d) (RemoveChannelsByWatcher reg d addr)"
| ws_remove_scoped: "watch_step (reg, d) (RemoveChannelsByWatcherInScopes reg d addr scopes)"
| ws_snapshot: "watch_step (reg, d) (reg, SetSnapshotRevision d i rv)"
| ws_take: "watch_step (reg, d) (reg, FanOutTake d)"
| ws_overflow: "watch_step (reg, d) (reg, FanOutOverflow d)"
| ws_next: "watch_step (reg, d) (reg, FanOutNext reg d)"
| ws_begin: "g < length (wd_groups d) \<Longrightarrow> watch_step (reg, d) (reg, DispatchLoop_begin d g now)"
| ws_end: "f \<in> set (wd_flights d) \<Longrightarrow> watch_step (reg, d) (DispatchLoop_end reg d f status now)"

inductive_cases watch_step_elim: "watch_step (reg, d) s'"

subsection \<open>Where a channel is queued\<close>

definition group_mset :: "DispatchChannelGroup \<Rightarrow> nat multiset" where
  "group_mset g = mset (dg_readyChannels g) + mset (map rc_channel (dg_retryChannels g))"

text \<open>The channels in the ready queues, in the retry queues and in the hands of the workers.\<close>

definition placed :: "WatchDispatcher \<Rightarrow> nat multiset" where
  "placed d = sum_list (map group_mset (wd_groups d)) + mset (map fl_channel (wd_flights d))"

lemma sum_list_update_mset:
  fixes f :: "'a \<Rightarrow> 'b multiset"
  shows "i < length xs \<Longrightarrow>
    sum_list (map f (xs[i := y])) + f (xs ! i) = sum_list (map f xs) + f y"
proof (induction xs arbitrary: i)
  case (Cons x xs)
  then show ?case by (cases i) (auto simp: ac_simps)
qed simp

lemma placed_update_group:
  assumes "g < length (wd_groups d)"
  shows "placed (d\<lparr>wd_groups := (wd_groups d)[g := gr]\<rparr>) + group_mset (wd_groups d ! g)
    = placed d + group_mset gr"
  using sum_list_update_mset [OF assms, of group_mset gr] by (simp add: placed_def ac_simps)

lemma placed_simps [simp]:
  "placed (set_channel d c ch) = placed d"
  "placed (d\<lparr>wd_heap := h\<rparr>) = placed d"
  "placed (d\<lparr>wd_channels := x1\<rparr>) = placed d"
  "placed (d\<lparr>wd_watchIdsByWatcher := x2\<rparr>) = placed d"
  "placed (d\<lparr>wd_nextChannel := x3\<rparr>) = placed d"
  "placed (d\<lparr>wd_pendingQueue := x4\<rparr>) = placed d"
  "placed (d\<lparr>wd_batch := x5\<rparr>) = placed d"
  "placed (d\<lparr>wd_pendingOverflow := x6\<rparr>) = placed d"
  "placed (d\<lparr>wd_notifyFailures := x7\<rparr>) = placed d"
  "placed (d\<lparr>wd_cancelFailures := x8\<rparr>) = placed d"
  "placed (d\<lparr>wd_droppedPendingEvents := x9\<rparr>) = placed d"
  "placed (d\<lparr>wd_flights := wd_flights d @ [f]\<rparr>) = add_mset (fl_channel f) (placed d)"
  by (simp_all add: placed_def set_channel_def)

lemma placed_remove_flight:
  assumes "f \<in> set (wd_flights d)"
  shows "placed d = add_mset (fl_channel f) (placed (d\<lparr>wd_flights := remove1 f (wd_flights d)\<rparr>))"
proof -
  have "mset (wd_flights d) = add_mset f (mset (remove1 f (wd_flights d)))" using assms by simp
  then have "image_mset fl_channel (mset (wd_flights d))
      = add_mset (fl_channel f) (image_mset fl_channel (mset (remove1 f (wd_flights d))))"
    by (simp only: image_mset_add_mset)
  then show ?thesis by (simp add: placed_def)
qed

lemma placed_push_ready:
  assumes "g < length (wd_groups d)"
  shows "placed (push_ready d g c) = add_mset c (placed d)"
  using placed_update_group [OF assms, of "(wd_groups d ! g)
         \<lparr>dg_readyChannels := dg_readyChannels (wd_groups d ! g) @ [c]\<rparr>"]
  by (simp add: push_ready_def group_mset_def)

subsection \<open>Invariant\<close>

text \<open>The table holds exactly the live channels, under their watch ids.\<close>

definition table_ok :: "WatchDispatcher \<Rightarrow> bool" where
  "table_ok d \<longleftrightarrow>
     omap_ok (wd_channels d)
     \<and> (\<forall>i c. map_of (wd_channels d) i = Some c \<longleftrightarrow>
          c < wd_nextChannel d \<and> \<not> wc_cancelled (wd_heap d c) \<and> wc_watchId (wd_heap d c) = i)"

definition index_ok :: "WatchDispatcher \<Rightarrow> bool" where
  "index_ok d \<longleftrightarrow>
     (\<forall>a ids. wd_watchIdsByWatcher d a = Some ids \<longrightarrow> ids \<noteq> [] \<and> distinct ids)
     \<and> (\<forall>a i. (\<exists>ids. wd_watchIdsByWatcher d a = Some ids \<and> i \<in> set ids) \<longleftrightarrow>
          (\<exists>c. map_of (wd_channels d) i = Some c \<and> wc_watcherAddr (wd_heap d c) = a))"

text \<open>A channel that has something to send is marked as queued.\<close>

definition wakeup_ok :: "WatcherChannel \<Rightarrow> bool" where
  "wakeup_ok ch \<longleftrightarrow>
     (wc_queue ch \<noteq> [] \<and> (wc_needReWatch ch \<or> 0 < wc_snapshotRevision ch) \<longrightarrow> wc_dispatchQueued ch)"

definition bound_ok :: "WatcherChannel \<Rightarrow> bool" where
  "bound_ok ch \<longleftrightarrow> wc_backpressureLimit ch = 1024 \<and> length (wc_queue ch) \<le> 1024"

text \<open>The state of one address, given how often it is queued or in flight.\<close>

definition place_ok :: "WatcherChannel \<Rightarrow> nat \<Rightarrow> bool" where
  "place_ok ch n \<longleftrightarrow> n \<le> 1
     \<and> (\<not> wc_cancelled ch \<longrightarrow> (wc_dispatchQueued ch \<longleftrightarrow> n = 1) \<and> wakeup_ok ch \<and> bound_ok ch)"

definition groups_sorted :: "WatchDispatcher \<Rightarrow> bool" where
  "groups_sorted d \<longleftrightarrow> wd_running d \<and> wd_groups d \<noteq> []
     \<and> (\<forall>g \<in> set (wd_groups d). sorted (map rc_readyTime (dg_retryChannels g)))
     \<and> (\<forall>f \<in> set (wd_flights d). fl_group f < length (wd_groups d))"

definition queues_ok :: "WatchDispatcher \<Rightarrow> bool" where
  "queues_ok d \<longleftrightarrow> groups_sorted d
     \<and> (\<forall>c < wd_nextChannel d. place_ok (wd_heap d c) (count (placed d) c))
     \<and> (\<forall>c \<ge> wd_nextChannel d. count (placed d) c = 0)"

definition wd_inv :: "WatchDispatcher \<Rightarrow> bool" where
  "wd_inv d \<longleftrightarrow> table_ok d \<and> index_ok d \<and> queues_ok d
     \<and> length (wd_pendingQueue d) \<le> MAX_PENDING_EVENTS"

text \<open>Steps that leave the table, the index and the identity of every channel alone.\<close>

definition same_table :: "WatchDispatcher \<Rightarrow> WatchDispatcher \<Rightarrow> bool" where
  "same_table d d' \<longleftrightarrow>
     wd_channels d' = wd_channels d \<and> wd_nextChannel d' = wd_nextChannel d
     \<and> wd_watchIdsByWatcher d' = wd_watchIdsByWatcher d \<and> wd_pendingQueue d' = wd_pendingQueue d
     \<and> (\<forall>c. wc_cancelled (wd_heap d' c) = wc_cancelled (wd_heap d c)
          \<and> wc_watchId (wd_heap d' c) = wc_watchId (wd_heap d c)
          \<and> wc_watcherAddr (wd_heap d' c) = wc_watcherAddr (wd_heap d c))"

lemma same_table_refl [simp]: "same_table d d"
  by (simp add: same_table_def)

lemma same_table_trans [trans]: "same_table d d1 \<Longrightarrow> same_table d1 d2 \<Longrightarrow> same_table d d2"
  by (simp add: same_table_def)

lemma wd_inv_same_table:
  "same_table d d' \<Longrightarrow> wd_inv d \<Longrightarrow> queues_ok d' \<Longrightarrow> wd_inv d'"
  by (simp add: wd_inv_def table_ok_def index_ok_def same_table_def)

lemma same_table_set_channel:
  "wc_cancelled ch = wc_cancelled (wd_heap d c) \<Longrightarrow> wc_watchId ch = wc_watchId (wd_heap d c) \<Longrightarrow>
     wc_watcherAddr ch = wc_watcherAddr (wd_heap d c) \<Longrightarrow> same_table d (set_channel d c ch)"
  by (simp add: same_table_def set_channel_def)

lemma same_table_groups [simp]:
  "same_table d (d\<lparr>wd_groups := gs\<rparr>)" "same_table d (d\<lparr>wd_flights := fs\<rparr>)"
  "same_table d (push_ready d g c)" "same_table d (d\<lparr>wd_notifyFailures := n\<rparr>)"
  "same_table d (d\<lparr>wd_batch := b\<rparr>)" "same_table d (d\<lparr>wd_pendingOverflow := ov\<rparr>)"
  by (simp_all add: same_table_def push_ready_def)

lemma same_table_Schedule: "same_table d (ScheduleChannelLocked d c)"
  by (simp add: ScheduleChannelLocked_def Let_def same_table_def push_ready_def set_channel_def)

text \<open>Changing one channel and the queues it is in.\<close>

lemma queues_ok_change:
  assumes "queues_ok d" and "groups_sorted d'" and "wd_nextChannel d' = wd_nextChannel d"
    and "\<And>x. x \<noteq> c \<Longrightarrow> wd_heap d' x = wd_heap d x
           \<and> count (placed d') x \<le> count (placed d) x
           \<and> (\<not> wc_cancelled (wd_heap d x) \<longrightarrow> count (placed d') x = count (placed d) x)"
    and "place_ok (wd_heap d' c) (count (placed d') c)" and "c < wd_nextChannel d"
  shows "queues_ok d'"
proof -
  have "place_ok (wd_heap d' x) (count (placed d') x)" if "x < wd_nextChannel d" for x
  proof (cases "x = c")
    case False
    then show ?thesis
      using assms(1) assms(4) [OF False] that by (force simp: queues_ok_def place_ok_def)
  qed (use assms(5) in simp)
  moreover have "count (placed d') x = 0" if "wd_nextChannel d \<le> x" for x
    using assms(1) assms(4) [of x] assms(6) that by (auto simp: queues_ok_def)
  ultimately show ?thesis using assms(2,3) by (simp add: queues_ok_def)
qed

lemma groups_sorted_push_ready:
  "groups_sorted d \<Longrightarrow> groups_sorted (push_ready d g c)"
  by (cases "g < length (wd_groups d)")
    (auto simp: groups_sorted_def push_ready_def list_update_beyond not_less
      dest!: set_update_subset_insert [THEN subsetD])

lemma ready_group_index: "wd_groups d \<noteq> [] \<Longrightarrow> GetReadyGroupIndex d c < length (wd_groups d)"
  by (simp add: GetReadyGroupIndex_def)

lemma push_ready_heap [simp]:
  "wd_heap (push_ready d g c) = wd_heap d" "wd_nextChannel (push_ready d g c) = wd_nextChannel d"
  by (simp_all add: push_ready_def)

lemma set_channel_simps [simp]:
  "wd_heap (set_channel d c ch) = (wd_heap d)(c := ch)"
  "wd_nextChannel (set_channel d c ch) = wd_nextChannel d"
  "wd_groups (set_channel d c ch) = wd_groups d" "wd_running (set_channel d c ch) = wd_running d"
  "wd_channels (set_channel d c ch) = wd_channels d"
  "wd_watchIdsByWatcher (set_channel d c ch) = wd_watchIdsByWatcher d"
  "wd_pendingQueue (set_channel d c ch) = wd_pendingQueue d"
  "wd_flights (set_channel d c ch) = wd_flights d"
  "groups_sorted (set_channel d c ch) = groups_sorted d"
  by (simp_all add: set_channel_def groups_sorted_def)

text \<open>A change of a live channel that keeps its queue mark, followed by scheduling it.\<close>

lemma queues_ok_schedule:
  assumes q: "queues_ok d" and c: "c < wd_nextChannel d" "\<not> wc_cancelled (wd_heap d c)"
    and ch: "\<not> wc_cancelled ch" "wc_dispatchQueued ch = wc_dispatchQueued (wd_heap d c)" "bound_ok ch"
  shows "queues_ok (ScheduleChannelLocked (set_channel d c ch) c)"
proof -
  let ?d1 = "set_channel d c ch"
  have gs: "groups_sorted d" and ne: "wd_groups d \<noteq> []"
    using q by (auto simp: queues_ok_def groups_sorted_def)
  have place: "place_ok (wd_heap d c) (count (placed d) c)" using q c by (simp add: queues_ok_def)
  show ?thesis
  proof (cases "wc_dispatchQueued ch")
    case True
    then have "ScheduleChannelLocked ?d1 c = ?d1" by (simp add: ScheduleChannelLocked_def Let_def)
    moreover have "queues_ok ?d1"
      using place ch c True gs
      by (intro queues_ok_change [OF q, where c = c]) (auto simp: place_ok_def wakeup_ok_def)
    ultimately show ?thesis by simp
  next
    case False
    let ?d2 = "set_channel ?d1 c (ch\<lparr>wc_dispatchQueued := True\<rparr>)"
    let ?g = "GetReadyGroupIndex ?d1 c"
    have s: "ScheduleChannelLocked ?d1 c = push_ready ?d2 ?g c"
      using False ch ne by (simp add: ScheduleChannelLocked_def Let_def)
    have "?g < length (wd_groups ?d2)" using ready_group_index [of ?d1 c] ne by simp
    then have p: "placed (push_ready ?d2 ?g c) = add_mset c (placed d)"
      by (simp add: placed_push_ready)
    have "count (placed d) c = 0" using place c False ch by (auto simp: place_ok_def)
    then show ?thesis
      unfolding s using gs c ch
      by (intro queues_ok_change [OF q, where c = c])
        (auto simp: p groups_sorted_push_ready place_ok_def wakeup_ok_def bound_ok_def)
  qed
qed

lemma queues_ok_live:
  assumes "wd_inv d" and "map_of (wd_channels d) i = Some c"
  shows "c < wd_nextChannel d" "\<not> wc_cancelled (wd_heap d c)" "wc_watchId (wd_heap d c) = i"
    "bound_ok (wd_heap d c)"
  using assms by (auto simp: wd_inv_def table_ok_def queues_ok_def place_ok_def)

lemma wd_inv_queues: "wd_inv d \<Longrightarrow> queues_ok d"
  by (simp add: wd_inv_def)

lemma wd_inv_schedule:
  assumes inv: "wd_inv d" and c: "c < wd_nextChannel d" "\<not> wc_cancelled (wd_heap d c)"
    and ch: "\<not> wc_cancelled ch" "wc_dispatchQueued ch = wc_dispatchQueued (wd_heap d c)" "bound_ok ch"
      "wc_watchId ch = wc_watchId (wd_heap d c)" "wc_watcherAddr ch = wc_watcherAddr (wd_heap d c)"
  shows "wd_inv (ScheduleChannelLocked (set_channel d c ch) c)"
proof (rule wd_inv_same_table [OF _ inv])
  show "same_table d (ScheduleChannelLocked (set_channel d c ch) c)"
    using same_table_set_channel [of ch d c] same_table_Schedule same_table_trans c ch by blast
  show "queues_ok (ScheduleChannelLocked (set_channel d c ch) c)"
    using queues_ok_schedule [OF wd_inv_queues [OF inv] c] ch by blast
qed

lemma fan_out_watcher_inv: "wd_inv d \<Longrightarrow> wd_inv (fan_out_watcher ev d i)"
proof -
  assume inv: "wd_inv d"
  show ?thesis
  proof (cases "map_of (wd_channels d) i")
    case (Some c)
    note live = queues_ok_live [OF inv Some]
    have "bound_ok (push_event ev (wd_heap d c))"
      using live(4) by (auto simp: bound_ok_def push_event_def)
    then have "wd_inv (ScheduleChannelLocked (set_channel d c (push_event ev (wd_heap d c))) c)"
      using live by (intro wd_inv_schedule [OF inv]) (auto simp: push_event_def)
    then show ?thesis using Some inv by (simp add: fan_out_watcher_def Let_def)
  qed (simp add: fan_out_watcher_def inv)
qed

lemma foldl_inv: "(\<And>s x. P s \<Longrightarrow> P (f s x)) \<Longrightarrow> P s \<Longrightarrow> P (foldl f s xs)"
  by (induction xs arbitrary: s) auto

lemma wd_inv_locals [simp]:
  "wd_inv (d\<lparr>wd_batch := b\<rparr>) = wd_inv d"
  "wd_inv (d\<lparr>wd_pendingOverflow := ov\<rparr>) = wd_inv d"
  "wd_inv (d\<lparr>wd_notifyFailures := n\<rparr>) = wd_inv d"
  "wd_inv (d\<lparr>wd_cancelFailures := m\<rparr>) = wd_inv d"
  "wd_inv (d\<lparr>wd_droppedPendingEvents := k\<rparr>) = wd_inv d"
  by (simp_all add: wd_inv_def table_ok_def index_ok_def queues_ok_def groups_sorted_def)

lemma fan_out_event_inv: "wd_inv d \<Longrightarrow> wd_inv (fan_out_event reg d ev)"
  unfolding fan_out_event_def by (rule foldl_inv [where P = wd_inv]) (auto intro: fan_out_watcher_inv)

lemma FanOutNext_inv: "wd_inv d \<Longrightarrow> wd_inv (FanOutNext reg d)"
  by (auto simp: FanOutNext_def intro: fan_out_event_inv split: list.splits)

lemma foldl_inv_set:
  "(\<And>s x. x \<in> set xs \<Longrightarrow> P s \<Longrightarrow> P (f s x)) \<Longrightarrow> P s \<Longrightarrow> P (foldl f s xs)"
  by (induction xs arbitrary: s) auto

lemma rewatch_channel_inv:
  assumes inv: "wd_inv d" and c: "c < wd_nextChannel d"
  shows "wd_inv (rewatch_channel d c)" "same_table d (rewatch_channel d c)"
proof -
  let ?ch = "(wd_heap d c)\<lparr>wc_queue := [MakeRewatchEvent None], wc_needReWatch := True\<rparr>"
  have "wd_inv (rewatch_channel d c) \<and> same_table d (rewatch_channel d c)"
  proof (cases "wc_cancelled (wd_heap d c) \<or> wc_needReWatch (wd_heap d c)")
    case False
    have "bound_ok (wd_heap d c)"
      using wd_inv_queues [OF inv] c False by (auto simp: queues_ok_def place_ok_def)
    then have "wd_inv (ScheduleChannelLocked (set_channel d c ?ch) c)"
      using False c by (intro wd_inv_schedule [OF inv]) (auto simp: bound_ok_def)
    moreover have "same_table d (set_channel d c ?ch)" by (rule same_table_set_channel) simp_all
    ultimately show ?thesis
      using False same_table_Schedule same_table_trans by (auto simp: rewatch_channel_def Let_def)
  qed (simp add: rewatch_channel_def inv)
  then show "wd_inv (rewatch_channel d c)" "same_table d (rewatch_channel d c)" by auto
qed

lemma ScheduleAll_inv:
  assumes "wd_inv d"
  shows "wd_inv (ScheduleAllChannelsForRewatch d) \<and> same_table d (ScheduleAllChannelsForRewatch d)"
  unfolding ScheduleAllChannelsForRewatch_def
proof (rule foldl_inv_set [where P = "\<lambda>d'. wd_inv d' \<and> same_table d d'"])
  fix d' c assume c: "c \<in> set (map snd (wd_channels d))" and d': "wd_inv d' \<and> same_table d d'"
  have "omap_ok (wd_channels d)" using assms by (simp add: wd_inv_def table_ok_def)
  then obtain i where "map_of (wd_channels d) i = Some c"
    using c by (auto simp: map_of_eq_Some_iff_omap)
  then have "c < wd_nextChannel d'"
    using queues_ok_live(1) [OF assms] d' by (auto simp: same_table_def)
  then show "wd_inv (rewatch_channel d' c) \<and> same_table d (rewatch_channel d' c)"
    using rewatch_channel_inv d' same_table_trans by blast
qed (use assms in simp)

lemma FanOutOverflow_inv: "wd_inv d \<Longrightarrow> wd_inv (FanOutOverflow d)"
  using ScheduleAll_inv [of "d\<lparr>wd_pendingOverflow := False\<rparr>"] by (simp add: FanOutOverflow_def)

lemma wd_inv_pending:
  "wd_inv d \<Longrightarrow> length q \<le> MAX_PENDING_EVENTS \<Longrightarrow> wd_inv (d\<lparr>wd_pendingQueue := q\<rparr>)"
  by (simp add: wd_inv_def table_ok_def index_ok_def queues_ok_def groups_sorted_def)

lemma Enqueue_inv: "wd_inv d \<Longrightarrow> wd_inv (Enqueue d ev)"
  by (auto simp: Enqueue_def intro!: wd_inv_pending)

lemma FanOutTake_inv: "wd_inv d \<Longrightarrow> wd_inv (FanOutTake d)"
proof -
  assume inv: "wd_inv d"
  let ?n = "min MAX_WATCH_EVENTS_PER_FAN_OUT (length (wd_pendingQueue d))"
  have "length (wd_pendingQueue d) \<le> MAX_PENDING_EVENTS" using inv by (simp add: wd_inv_def)
  then have "length (drop ?n (wd_pendingQueue d)) \<le> MAX_PENDING_EVENTS"
    by (simp only: length_drop)
  then show ?thesis
    using inv unfolding FanOutTake_def Let_def by (intro wd_inv_pending) simp_all
qed

lemma SetSnapshotRevision_inv:
  assumes inv: "wd_inv d"
  shows "wd_inv (SetSnapshotRevision d i rv)"
proof (cases "map_of (wd_channels d) i")
  case (Some c)
  note live = queues_ok_live [OF inv Some]
  let ?ch = "(wd_heap d c)\<lparr>wc_snapshotRevision := rv\<rparr>"
  show ?thesis
  proof (cases "wc_queue (wd_heap d c) = []")
    case False
    have "wd_inv (ScheduleChannelLocked (set_channel d c ?ch) c)"
      using live by (intro wd_inv_schedule [OF inv]) (auto simp: bound_ok_def)
    then show ?thesis using Some False by (simp add: SetSnapshotRevision_def Let_def)
  next
    case True
    have "place_ok (wd_heap d c) (count (placed d) c)"
      using wd_inv_queues [OF inv] live by (simp add: queues_ok_def)
    then have "queues_ok (set_channel d c ?ch)"
      using live True wd_inv_queues [OF inv]
      by (intro queues_ok_change [OF wd_inv_queues [OF inv], where c = c])
        (auto simp: place_ok_def wakeup_ok_def bound_ok_def queues_ok_def)
    moreover have "same_table d (set_channel d c ?ch)" by (rule same_table_set_channel) simp_all
    ultimately have "wd_inv (set_channel d c ?ch)" using wd_inv_same_table [OF _ inv] by blast
    then show ?thesis using Some True by (simp add: SetSnapshotRevision_def Let_def)
  qed
qed (simp add: SetSnapshotRevision_def inv)

subsection \<open>Adding and removing channels\<close>

lemma RemoveReverse_facts [simp]:
  "wd_heap (RemoveReverseIndexLocked d c) = wd_heap d"
  "wd_channels (RemoveReverseIndexLocked d c) = wd_channels d"
  "wd_nextChannel (RemoveReverseIndexLocked d c) = wd_nextChannel d"
  "wd_pendingQueue (RemoveReverseIndexLocked d c) = wd_pendingQueue d"
  "groups_sorted (RemoveReverseIndexLocked d c) = groups_sorted d"
  "placed (RemoveReverseIndexLocked d c) = placed d"
  by (auto simp: RemoveReverseIndexLocked_def Let_def groups_sorted_def split: option.splits)

lemma CancelChannel_facts [simp]:
  "wd_heap (CancelChannel d c) = (wd_heap d)(c := cancel_channel (wd_heap d c))"
  "wd_channels (CancelChannel d c) = wd_channels d"
  "wd_nextChannel (CancelChannel d c) = wd_nextChannel d"
  "wd_pendingQueue (CancelChannel d c) = wd_pendingQueue d"
  "wd_watchIdsByWatcher (CancelChannel d c) = wd_watchIdsByWatcher d"
  "groups_sorted (CancelChannel d c) = groups_sorted d"
  "placed (CancelChannel d c) = placed d"
  by (auto simp: CancelChannel_def)

lemma cancel_channel_facts [simp]:
  "wc_cancelled (cancel_channel ch)" "wc_watchId (cancel_channel ch) = wc_watchId ch"
  "wc_watcherAddr (cancel_channel ch) = wc_watcherAddr ch"
  by (simp_all add: cancel_channel_def)

lemma RemoveChannel_table:
  assumes "table_ok d" and "map_of (wd_channels d) i = Some c"
  shows "table_ok (RemoveChannel d i)"
proof -
  have tab: "\<And>j x. map_of (wd_channels d) j = Some x \<longleftrightarrow>
      x < wd_nextChannel d \<and> \<not> wc_cancelled (wd_heap d x) \<and> wc_watchId (wd_heap d x) = j"
    and ok: "omap_ok (wd_channels d)"
    using assms(1) by (auto simp: table_ok_def)
  have "map_of (omap_erase i (wd_channels d)) j = Some x \<longleftrightarrow>
      x < wd_nextChannel d \<and> x \<noteq> c \<and> \<not> wc_cancelled (wd_heap d x) \<and> wc_watchId (wd_heap d x) = j" for j x
    using tab [of j x] tab [of i x] tab [of i c] assms(2) ok by auto
  then show ?thesis
    using assms(2) ok by (auto simp: table_ok_def RemoveChannel_def Let_def)
qed

lemma RemoveReverse_index:
  assumes idx: "index_ok d" and c: "map_of (wd_channels d) i = Some c" "wc_watchId (wd_heap d c) = i"
  defines "I \<equiv> wd_watchIdsByWatcher (RemoveReverseIndexLocked d c)"
  shows "(\<forall>a ids. I a = Some ids \<longrightarrow> ids \<noteq> [] \<and> distinct ids)
    \<and> (\<forall>a j. (\<exists>ids. I a = Some ids \<and> j \<in> set ids) \<longleftrightarrow>
         j \<noteq> i \<and> (\<exists>x. map_of (wd_channels d) j = Some x \<and> wc_watcherAddr (wd_heap d x) = a))"
proof -
  let ?a = "wc_watcherAddr (wd_heap d c)"
  have ids: "\<And>a ids. wd_watchIdsByWatcher d a = Some ids \<Longrightarrow> ids \<noteq> [] \<and> distinct ids"
    and ex: "\<And>a j. (\<exists>ids. wd_watchIdsByWatcher d a = Some ids \<and> j \<in> set ids) \<longleftrightarrow>
      (\<exists>x. map_of (wd_channels d) j = Some x \<and> wc_watcherAddr (wd_heap d x) = a)"
    using idx by (auto simp: index_ok_def)
  obtain ids0 where ids0: "wd_watchIdsByWatcher d ?a = Some ids0" "i \<in> set ids0"
    using ex [of ?a i] c(1) by auto
  have d0: "distinct ids0" using ids [OF ids0(1)] by simp
  have set0: "set (remove1 i ids0) = set ids0 - {i}" using d0 by (rule set_remove1_eq)
  have I: "I = (wd_watchIdsByWatcher d)(?a := (if remove1 i ids0 = [] then None else Some (remove1 i ids0)))"
    using ids0(1) c(2) by (simp add: I_def RemoveReverseIndexLocked_def Let_def)
  have "(\<exists>ids. I a = Some ids \<and> j \<in> set ids) \<longleftrightarrow>
      j \<noteq> i \<and> (\<exists>x. map_of (wd_channels d) j = Some x \<and> wc_watcherAddr (wd_heap d x) = a)" for a j
  proof (cases "a = ?a")
    case True
    have "(\<exists>ids. I a = Some ids \<and> j \<in> set ids) \<longleftrightarrow> j \<in> set ids0 - {i}"
      unfolding I set0 [symmetric] using True by auto
    also have "\<dots> \<longleftrightarrow> j \<noteq> i \<and> (\<exists>ids. wd_watchIdsByWatcher d ?a = Some ids \<and> j \<in> set ids)"
      using ids0(1) by auto
    finally show ?thesis using ex [of ?a j] True by simp
  next
    case False
    then have "(\<exists>ids. I a = Some ids \<and> j \<in> set ids) \<longleftrightarrow>
        (\<exists>ids. wd_watchIdsByWatcher d a = Some ids \<and> j \<in> set ids)"
      by (simp add: I)
    then show ?thesis using ex [of a j] False c(1) by auto
  qed
  moreover have "ids \<noteq> [] \<and> distinct ids" if "I a = Some ids" for a ids
    using that ids [of a ids] d0 by (auto simp: I split: if_splits)
  ultimately show ?thesis by blast
qed

lemma CancelChannel_index_ok:
  "index_ok (CancelChannel d c) \<longleftrightarrow> index_ok d"
proof -
  have "wc_watcherAddr (wd_heap (CancelChannel d c) x) = wc_watcherAddr (wd_heap d x)" for x
    by simp
  then show ?thesis by (simp add: index_ok_def)
qed

lemma RemoveChannel_inv:
  assumes inv: "wd_inv d"
  shows "wd_inv (RemoveChannel d i)"
proof (cases "map_of (wd_channels d) i")
  case (Some c)
  note live = queues_ok_live [OF inv Some]
  have parts: "table_ok d" "index_ok d" "queues_ok d" "length (wd_pendingQueue d) \<le> MAX_PENDING_EVENTS"
    using inv by (auto simp: wd_inv_def)
  let ?d1 = "CancelChannel d c"
  have r: "RemoveChannel d i = (RemoveReverseIndexLocked ?d1 c)
      \<lparr>wd_channels := omap_erase i (wd_channels d)\<rparr>"
    using Some by (simp add: RemoveChannel_def Let_def)
  have ok: "omap_ok (wd_channels d)" using parts(1) by (simp add: table_ok_def)
  have "queues_ok (RemoveChannel d i)"
  proof (rule queues_ok_change [OF parts(3), where c = c])
    have "place_ok (wd_heap d c) (count (placed d) c)" using parts(3) live by (simp add: queues_ok_def)
    then show "place_ok (wd_heap (RemoveChannel d i) c) (count (placed (RemoveChannel d i)) c)"
      by (simp add: r place_ok_def)
    have "groups_sorted (RemoveReverseIndexLocked ?d1 c)" using parts(3) by (simp add: queues_ok_def)
    then show "groups_sorted (RemoveChannel d i)" by (simp add: r groups_sorted_def)
  qed (use live in \<open>simp_all add: r\<close>)
  moreover have "index_ok (RemoveChannel d i)"
  proof -
    have "index_ok ?d1" using parts(2) by (simp add: CancelChannel_index_ok)
    note ri = RemoveReverse_index [OF this, of i c]
    have addr: "wc_watcherAddr (wd_heap ?d1 x) = wc_watcherAddr (wd_heap d x)" for x by simp
    have "map_of (wd_channels (RemoveChannel d i)) j = Some x \<longleftrightarrow>
        j \<noteq> i \<and> map_of (wd_channels d) j = Some x" for j x
      using ok by (simp add: r)
    then show ?thesis
      using ri Some live(3) unfolding index_ok_def by (simp add: r)
  qed
  ultimately show ?thesis
    using RemoveChannel_table [OF parts(1) Some] parts(4) by (simp add: wd_inv_def r)
qed (simp add: RemoveChannel_def inv)

lemma cancel_failures_inv: "wd_inv d \<Longrightarrow> wd_inv (foldl RemoveChannel (d\<lparr>wd_cancelFailures := n\<rparr>) ids)"
  by (rule foldl_inv [where P = wd_inv]) (auto intro: RemoveChannel_inv)

lemma RemoveChannelsByWatcher_inv: "wd_inv d \<Longrightarrow> wd_inv (snd (RemoveChannelsByWatcher reg d addr))"
  by (auto simp: RemoveChannelsByWatcher_def cancel_failures_inv split: option.splits prod.splits)

lemma RemoveChannelsByWatcherInScopes_inv:
  "wd_inv d \<Longrightarrow> wd_inv (snd (RemoveChannelsByWatcherInScopes reg d addr scopes))"
  by (auto simp: RemoveChannelsByWatcherInScopes_def split: option.splits
      intro!: foldl_inv [where P = "\<lambda>s. wd_inv (snd s)"] RemoveChannel_inv)

text \<open>AddChannel is the removal of the channel of that watch id, if any, and a fresh entry.\<close>

definition add_fresh :: "WatchDispatcher \<Rightarrow> int \<Rightarrow> string \<Rightarrow> WatchDispatcher" where
  "add_fresh d i addr =
     (let c = wd_nextChannel d in
      d\<lparr>wd_heap := (wd_heap d)(c := new_channel i addr), wd_nextChannel := Suc c,
        wd_channels := omap_set i c (wd_channels d),
        wd_watchIdsByWatcher := (wd_watchIdsByWatcher d)(addr \<mapsto>
          List.insert i (case wd_watchIdsByWatcher d addr of None \<Rightarrow> [] | Some ids \<Rightarrow> ids))\<rparr>)"

lemma AddChannel_eq:
  assumes inv: "wd_inv d"
  shows "AddChannel d i addr = add_fresh (RemoveChannel d i) i addr"
proof (cases "map_of (wd_channels d) i")
  case None
  then show ?thesis
    by (simp add: AddChannel_def RemoveChannel_def add_fresh_def set_channel_def Let_def)
next
  case (Some c)
  have "c < wd_nextChannel d" by (rule queues_ok_live(1) [OF inv Some])
  then have ne: "c \<noteq> wd_nextChannel d" by simp
  have ok: "omap_ok (wd_channels d)" using inv by (simp add: wd_inv_def table_ok_def)
  have set: "omap_set i n (omap_erase i (wd_channels d)) = omap_set i n (wd_channels d)" for n
    using ok by (intro omap_eqI) auto
  have twist: "(wd_heap d)(wd_nextChannel d := x, c := y) = (wd_heap d)(c := y, wd_nextChannel d := x)" for x y
    using ne by (simp add: fun_upd_twist)
  show ?thesis
    using Some ne
    by (simp add: AddChannel_def RemoveChannel_def add_fresh_def set_channel_def Let_def set
        CancelChannel_def RemoveReverseIndexLocked_def twist split: option.splits)
qed

lemma add_fresh_inv:
  assumes inv: "wd_inv d" and none: "map_of (wd_channels d) i = None"
  shows "wd_inv (add_fresh d i addr)"
proof -
  let ?c = "wd_nextChannel d"
  let ?d = "add_fresh d i addr"
  have ok: "omap_ok (wd_channels d)"
    and tab: "\<And>j x. map_of (wd_channels d) j = Some x \<longleftrightarrow>
      x < ?c \<and> \<not> wc_cancelled (wd_heap d x) \<and> wc_watchId (wd_heap d x) = j"
    using inv by (auto simp: wd_inv_def table_ok_def)
  have map: "map_of (wd_channels ?d) = (map_of (wd_channels d))(i \<mapsto> ?c)"
    using ok by (simp add: add_fresh_def Let_def)
  have heap: "wd_heap ?d = (wd_heap d)(?c := new_channel i addr)" "wd_nextChannel ?d = Suc ?c"
    by (simp_all add: add_fresh_def Let_def)
  have t: "table_ok ?d"
  proof -
    have "map_of (wd_channels ?d) j = Some x \<longleftrightarrow> x < wd_nextChannel ?d
        \<and> \<not> wc_cancelled (wd_heap ?d x) \<and> wc_watchId (wd_heap ?d x) = j" for j x
    proof (cases "x = ?c")
      case True
      then have "map_of (wd_channels d) j \<noteq> Some x" using tab [of j x] by simp
      then show ?thesis using True by (auto simp: map heap new_channel_def)
    next
      case False
      have "\<not> (x < ?c \<and> \<not> wc_cancelled (wd_heap d x) \<and> wc_watchId (wd_heap d x) = i)"
        using tab [of i x] none by simp
      then show ?thesis using False tab [of j x] by (auto simp: map heap less_Suc_eq)
    qed
    then show ?thesis using ok by (simp add: table_ok_def add_fresh_def Let_def)
  qed
  have q: "queues_ok ?d"
  proof -
    have p: "placed ?d = placed d" by (simp add: add_fresh_def Let_def placed_def)
    have "queues_ok d" using inv by (simp add: wd_inv_def)
    moreover from this have "place_ok (new_channel i addr) (count (placed d) ?c)"
      by (simp add: queues_ok_def place_ok_def new_channel_def wakeup_ok_def bound_ok_def)
    moreover have "groups_sorted ?d = groups_sorted d"
      by (simp add: groups_sorted_def add_fresh_def Let_def)
    ultimately show ?thesis by (auto simp: queues_ok_def p heap less_Suc_eq)
  qed
  have x: "index_ok ?d"
  proof -
    have ids: "\<And>a ids. wd_watchIdsByWatcher d a = Some ids \<Longrightarrow> ids \<noteq> [] \<and> distinct ids"
      and ex: "\<And>a j. (\<exists>ids. wd_watchIdsByWatcher d a = Some ids \<and> j \<in> set ids) \<longleftrightarrow>
        (\<exists>x. map_of (wd_channels d) j = Some x \<and> wc_watcherAddr (wd_heap d x) = a)"
      using inv by (auto simp: wd_inv_def index_ok_def)
    have idx: "wd_watchIdsByWatcher ?d = (wd_watchIdsByWatcher d)(addr \<mapsto> List.insert i
        (case wd_watchIdsByWatcher d addr of None \<Rightarrow> [] | Some ids \<Rightarrow> ids))"
      by (simp add: add_fresh_def Let_def)
    have keep: "map_of (wd_channels d) j = Some x \<Longrightarrow> x \<noteq> ?c" for j x using tab [of j x] by auto
    have "(\<exists>ids. wd_watchIdsByWatcher ?d a = Some ids \<and> j \<in> set ids) \<longleftrightarrow>
        (\<exists>ids. wd_watchIdsByWatcher d a = Some ids \<and> j \<in> set ids) \<or> (a = addr \<and> j = i)" for a j
      by (cases "wd_watchIdsByWatcher d addr") (auto simp: idx)
    moreover have "(\<exists>x. map_of (wd_channels ?d) j = Some x \<and> wc_watcherAddr (wd_heap ?d x) = a) \<longleftrightarrow>
        (\<exists>x. map_of (wd_channels d) j = Some x \<and> wc_watcherAddr (wd_heap d x) = a)
        \<or> (a = addr \<and> j = i)" for a j
      using keep [of j] none by (auto simp: map heap new_channel_def)
    moreover have "ids \<noteq> [] \<and> distinct ids" if "wd_watchIdsByWatcher ?d a = Some ids" for a ids
      using that ids [of a] ids [of addr]
      by (cases "wd_watchIdsByWatcher d addr") (auto simp: idx split: if_splits)
    ultimately show ?thesis using ex unfolding index_ok_def by simp
  qed
  have "wd_pendingQueue ?d = wd_pendingQueue d" by (simp add: add_fresh_def Let_def)
  then show ?thesis using t q x inv by (simp add: wd_inv_def)
qed

lemma RemoveChannel_none: "wd_inv d \<Longrightarrow> map_of (wd_channels (RemoveChannel d i)) i = None"
  by (auto simp: RemoveChannel_def Let_def wd_inv_def table_ok_def split: option.splits)

lemma AddChannel_inv: "wd_inv d \<Longrightarrow> wd_inv (AddChannel d i addr)"
  by (simp add: AddChannel_eq add_fresh_inv RemoveChannel_inv RemoveChannel_none)

subsection \<open>Workers\<close>

lemma count_dropWhile: "\<not> P c \<Longrightarrow> count (mset (dropWhile P xs)) c = count (mset xs) c"
  by (induction xs) auto

lemma count_filter_live: "P c \<Longrightarrow> count (mset (filter P xs)) c = count (mset xs) c"
  by simp

lemma count_dropWhile_le: "count (mset (dropWhile P xs)) c \<le> count (mset xs) c"
  by (induction xs) auto

lemma groups_sorted_update:
  assumes "groups_sorted d" and "sorted (map rc_readyTime (dg_retryChannels gr))"
  shows "groups_sorted (d\<lparr>wd_groups := (wd_groups d)[g := gr]\<rparr>)"
  using assms set_update_subset_insert [of "wd_groups d" g gr] by (auto simp: groups_sorted_def)

lemma sorted_dropWhile_retry:
  "sorted (map rc_readyTime rs) \<Longrightarrow> sorted (map rc_readyTime (dropWhile P rs))"
  by (induction rs) auto

lemma WaitForReadyChannel_facts:
  assumes gs: "groups_sorted d" and g: "g < length (wd_groups d)"
    and w: "WaitForReadyChannel d g now = (res, d1)"
  shows "\<exists>gs. d1 = d\<lparr>wd_groups := gs\<rparr> \<and> length gs = length (wd_groups d)" "groups_sorted d1"
    "\<And>c. res = Some c \<Longrightarrow> \<not> wc_cancelled (wd_heap d c)"
    "count (placed d1) x + (if res = Some x then 1 else 0) \<le> count (placed d) x"
    "\<not> wc_cancelled (wd_heap d x) \<Longrightarrow>
       count (placed d1) x + (if res = Some x then 1 else 0) = count (placed d) x"
proof -
  let ?gr = "wd_groups d ! g"
  let ?live = "\<lambda>c. \<not> wc_cancelled (wd_heap d c)"
  let ?due = "takeWhile (\<lambda>r. rc_readyTime r \<le> now) (dg_retryChannels ?gr)"
  let ?later = "dropWhile (\<lambda>r. rc_readyTime r \<le> now) (dg_retryChannels ?gr)"
  define all where "all = dg_readyChannels ?gr @ filter ?live (map rc_channel ?due)"
  define ready where "ready = dropWhile (\<lambda>c. \<not> ?live c) all"
  define rest where "rest = tl ready"
  let ?new = "?gr\<lparr>dg_readyChannels := rest, dg_retryChannels := ?later\<rparr>"
  have res: "res = (case ready of [] \<Rightarrow> None | c # _ \<Rightarrow> Some c)"
    and d1: "d1 = d\<lparr>wd_groups := (wd_groups d)[g := ?new]\<rparr>"
    using w unfolding WaitForReadyChannel_def Let_def all_def [symmetric] ready_def [symmetric] rest_def
    by (cases ready; simp)+
  show "\<exists>gs. d1 = d\<lparr>wd_groups := gs\<rparr> \<and> length gs = length (wd_groups d)"
    unfolding d1 by (intro exI [of _ "(wd_groups d)[g := ?new]"]) simp
  have "sorted (map rc_readyTime (dg_retryChannels ?gr))" using gs g by (simp add: groups_sorted_def)
  then show "groups_sorted d1"
    unfolding d1 by (intro groups_sorted_update [OF gs]) (simp add: sorted_dropWhile_retry)
  show "\<not> wc_cancelled (wd_heap d c)" if some: "res = Some c" for c
  proof -
    obtain zs where "ready = c # zs" using some res by (cases ready) auto
    then have "dropWhile (\<lambda>c. \<not> ?live c) all = c # zs" by (simp add: ready_def)
    then show ?thesis by (simp add: dropWhile_eq_Cons_conv)
  qed
  have step: "count (placed d1) x + count (group_mset ?gr) x
      = count (placed d) x + count (group_mset ?new) x"
    using arg_cong [OF placed_update_group [OF g, of ?new], of "\<lambda>M. count M x"] by (simp add: d1)
  have split: "count (mset (map rc_channel (dg_retryChannels ?gr))) x
      = count (mset (map rc_channel ?due)) x + count (mset (map rc_channel ?later)) x"
    by (metis count_union map_append mset_append takeWhile_dropWhile_id)
  have one: "count (mset ready) x = count (mset rest) x + (if res = Some x then 1 else 0)"
    by (cases ready) (auto simp: rest_def res)
  have le: "count (mset ready) x \<le> count (mset all) x" by (simp only: ready_def count_dropWhile_le)
  have allle: "count (mset all) x \<le> count (mset (dg_readyChannels ?gr)) x + count (mset (map rc_channel ?due)) x"
    by (simp add: all_def)
  show "count (placed d1) x + (if res = Some x then 1 else 0) \<le> count (placed d) x"
    using step split one le allle by (simp add: group_mset_def)
  show "count (placed d1) x + (if res = Some x then 1 else 0) = count (placed d) x"
    if "\<not> wc_cancelled (wd_heap d x)"
  proof -
    have "count (mset ready) x = count (mset all) x"
      unfolding ready_def by (rule count_dropWhile) (use that in simp)
    moreover have "count (mset all) x
        = count (mset (dg_readyChannels ?gr)) x + count (mset (map rc_channel ?due)) x"
      using that by (simp add: all_def)
    ultimately show ?thesis using step split one by (simp add: group_mset_def)
  qed
qed

lemma prepare_channel_keeps:
  assumes "prepare_channel True ch = (p, ch')" and "\<not> wc_cancelled ch"
    and "bound_ok ch" and "wc_dispatchQueued ch"
  shows "wc_cancelled ch' = wc_cancelled ch" "wc_watchId ch' = wc_watchId ch"
    "wc_watcherAddr ch' = wc_watcherAddr ch" "bound_ok ch'" "wakeup_ok ch'"
    "wc_dispatchQueued ch' = (p \<noteq> Idle)"
proof -
  have len: "length (dropWhile P (wc_queue ch)) \<le> 1024" for P
    using assms(3) length_dropWhile_le [of P "wc_queue ch"] by (simp add: bound_ok_def)
  show "wc_cancelled ch' = wc_cancelled ch" "wc_watchId ch' = wc_watchId ch"
    "wc_watcherAddr ch' = wc_watcherAddr ch" "bound_ok ch'" "wakeup_ok ch'"
    "wc_dispatchQueued ch' = (p \<noteq> Idle)"
    using assms len
    by (auto simp: prepare_channel_def Let_def bound_ok_def wakeup_ok_def split: if_splits prod.splits)
qed

lemma DispatchLoop_begin_inv:
  assumes inv: "wd_inv d" and g: "g < length (wd_groups d)"
  shows "wd_inv (DispatchLoop_begin d g now)"
proof -
  have q: "queues_ok d" and gs: "groups_sorted d" and run: "wd_running d"
    using inv by (auto simp: wd_inv_def queues_ok_def groups_sorted_def)
  obtain res d1 where w: "WaitForReadyChannel d g now = (res, d1)" by fastforce
  note wf = WaitForReadyChannel_facts [OF gs g w]
  obtain gs1 where d1: "d1 = d\<lparr>wd_groups := gs1\<rparr>" and len1: "length gs1 = length (wd_groups d)"
    using wf(1) by blast
  show ?thesis
  proof (cases res)
    case None
    have "place_ok (wd_heap d1 x) (count (placed d1) x)" if "x < wd_nextChannel d" for x
      using q wf(4) [of x] wf(5) [of x] that None by (auto simp: queues_ok_def place_ok_def d1)
    moreover have "count (placed d1) x = 0" if "wd_nextChannel d \<le> x" for x
      using q wf(4) [of x] that by (auto simp: queues_ok_def)
    ultimately have "queues_ok d1" using wf(2) by (simp add: queues_ok_def d1)
    then show ?thesis
      using wd_inv_same_table [OF _ inv, of d1] w None by (simp add: DispatchLoop_begin_def d1)
  next
    case (Some c)
    have live: "\<not> wc_cancelled (wd_heap d c)" by (rule wf(3) [OF Some])
    have cnt: "count (placed d) c = Suc (count (placed d1) c)" using wf(5) [OF live] Some by simp
    then have c: "c < wd_nextChannel d" using q by (metis Suc_neq_Zero not_le queues_ok_def)
    then have "place_ok (wd_heap d c) (count (placed d) c)" using q by (simp add: queues_ok_def)
    then have ch: "wc_dispatchQueued (wd_heap d c)" "bound_ok (wd_heap d c)"
      and zero: "count (placed d1) c = 0"
      using live cnt by (auto simp: place_ok_def)
    obtain p ch' where p: "prepare_channel True (wd_heap d c) = (p, ch')" by fastforce
    note keep = prepare_channel_keeps [OF p live ch(2,1)]
    let ?fl = "case p of Idle \<Rightarrow> [] | Batch rw m evs \<Rightarrow>
      [\<lparr>fl_group = g, fl_channel = c, fl_needReWatch = rw, fl_maxEventRevision = m\<rparr>]"
    let ?d2 = "(set_channel d1 c ch')\<lparr>wd_flights := wd_flights d1 @ ?fl\<rparr>"
    have bg: "DispatchLoop_begin d g now = ?d2"
      using w Some p run
      by (cases p) (simp_all add: DispatchLoop_begin_def HandleChannelEvents_prepare_def d1 set_channel_def)
    have placed2: "placed ?d2 = placed d1 + (if p = Idle then {#} else {#c#})"
      by (cases p) (simp_all add: placed_def set_channel_def)
    have "queues_ok ?d2"
    proof (rule queues_ok_change [OF q, where c = c])
      have "\<forall>f \<in> set ?fl. fl_group f < length gs1" using g len1 by (cases p) simp_all
      then show "groups_sorted ?d2"
        using wf(2) by (auto simp: groups_sorted_def set_channel_def d1)
      show "place_ok (wd_heap ?d2 c) (count (placed ?d2) c)"
        using keep zero live by (auto simp: placed2 place_ok_def)
      fix x assume x: "x \<noteq> c"
      then have "res \<noteq> Some x" using Some by simp
      moreover have "count (placed ?d2) x = count (placed d1) x" using x by (simp add: placed2)
      moreover have "wd_heap ?d2 x = wd_heap d x" using x by (simp add: d1)
      ultimately show "wd_heap ?d2 x = wd_heap d x \<and> count (placed ?d2) x \<le> count (placed d) x
          \<and> (\<not> wc_cancelled (wd_heap d x) \<longrightarrow> count (placed ?d2) x = count (placed d) x)"
        using wf(4) [of x] wf(5) [of x] by simp
    qed (use c in \<open>simp_all add: d1\<close>)
    moreover have "same_table d ?d2"
      using keep by (simp add: same_table_def d1)
    ultimately show ?thesis unfolding bg using wd_inv_same_table [OF _ inv] by blast
  qed
qed

lemma InsertRetryLocked_facts:
  "mset (map rc_channel (InsertRetryLocked rs r)) = add_mset (rc_channel r) (mset (map rc_channel rs))"
  "sorted (map rc_readyTime rs) \<Longrightarrow> sorted (map rc_readyTime (InsertRetryLocked rs r))"
proof -
  let ?P = "\<lambda>q. \<not> rc_readyTime r < rc_readyTime q"
  have "mset (map rc_channel rs)
      = mset (map rc_channel (takeWhile ?P rs)) + mset (map rc_channel (dropWhile ?P rs))"
    by (metis map_append mset_append takeWhile_dropWhile_id)
  then show "mset (map rc_channel (InsertRetryLocked rs r))
      = add_mset (rc_channel r) (mset (map rc_channel rs))"
    by (simp add: InsertRetryLocked_def)
  have cons: "InsertRetryLocked (q # qs) r
      = (if ?P q then q # InsertRetryLocked qs r else r # q # qs)" for q qs
    by (simp add: InsertRetryLocked_def)
  show "sorted (map rc_readyTime (InsertRetryLocked rs r))" if "sorted (map rc_readyTime rs)"
    using that
  proof (induction rs)
    case (Cons q qs)
    have "set (InsertRetryLocked qs r) = insert r (set qs)"
    proof -
      have "set qs = set (takeWhile ?P qs) \<union> set (dropWhile ?P qs)"
        by (metis set_append takeWhile_dropWhile_id)
      then show ?thesis by (auto simp: InsertRetryLocked_def)
    qed
    then show ?case using Cons by (auto simp: cons)
  qed (simp add: InsertRetryLocked_def)
qed

lemma commit_channel_keeps:
  assumes "commit_channel m ch = (again, ch')" and "\<not> wc_cancelled ch" and "bound_ok ch"
    and "wc_dispatchQueued ch"
  shows "wc_cancelled ch' = wc_cancelled ch" "wc_watchId ch' = wc_watchId ch"
    "wc_watcherAddr ch' = wc_watcherAddr ch" "bound_ok ch'" "wakeup_ok ch'"
    "wc_dispatchQueued ch' = again"
proof -
  have len: "length (dropWhile P (wc_queue ch)) \<le> 1024" for P
    using assms(3) length_dropWhile_le [of P "wc_queue ch"] by (simp add: bound_ok_def)
  show "wc_cancelled ch' = wc_cancelled ch" "wc_watchId ch' = wc_watchId ch"
    "wc_watcherAddr ch' = wc_watcherAddr ch" "bound_ok ch'" "wakeup_ok ch'"
    "wc_dispatchQueued ch' = again"
    using assms len
    by (auto simp: commit_channel_def Let_def bound_ok_def wakeup_ok_def split: if_splits)
qed

text \<open>The flight is given back: the state in which its channel, if live, is to be placed again.\<close>

lemma return_flight:
  assumes inv: "wd_inv d" and f: "f \<in> set (wd_flights d)"
  defines "d1 \<equiv> d\<lparr>wd_flights := remove1 f (wd_flights d)\<rparr>"
  shows "fl_channel f < wd_nextChannel d" "count (placed d1) (fl_channel f) = 0"
    "x \<noteq> fl_channel f \<Longrightarrow> count (placed d1) x = count (placed d) x"
    "\<not> wc_cancelled (wd_heap d (fl_channel f)) \<Longrightarrow>
       wc_dispatchQueued (wd_heap d (fl_channel f)) \<and> bound_ok (wd_heap d (fl_channel f))
       \<and> wakeup_ok (wd_heap d (fl_channel f))"
    "groups_sorted d1"
proof -
  let ?c = "fl_channel f"
  have q: "queues_ok d" by (rule wd_inv_queues [OF inv])
  have p: "placed d = add_mset ?c (placed d1)" unfolding d1_def by (rule placed_remove_flight [OF f])
  then have pos: "count (placed d) ?c = Suc (count (placed d1) ?c)" by simp
  then show c: "?c < wd_nextChannel d" using q by (metis Suc_neq_Zero not_le queues_ok_def)
  have place: "place_ok (wd_heap d ?c) (count (placed d) ?c)" using q c by (simp add: queues_ok_def)
  then show "count (placed d1) ?c = 0" using pos by (simp add: place_ok_def)
  show "x \<noteq> ?c \<Longrightarrow> count (placed d1) x = count (placed d) x" using p by simp
  show "\<not> wc_cancelled (wd_heap d ?c) \<Longrightarrow>
       wc_dispatchQueued (wd_heap d ?c) \<and> bound_ok (wd_heap d ?c) \<and> wakeup_ok (wd_heap d ?c)"
    using place pos by (auto simp: place_ok_def)
  show "groups_sorted d1"
    using q set_remove1_subset [of f "wd_flights d"] by (auto simp: queues_ok_def groups_sorted_def d1_def)
qed

lemma drop_cancelled_flight:
  assumes inv: "wd_inv d" and f: "f \<in> set (wd_flights d)"
    and c: "wc_cancelled (wd_heap d (fl_channel f))"
  shows "wd_inv (d\<lparr>wd_flights := remove1 f (wd_flights d)\<rparr>)"
proof (rule wd_inv_same_table [OF _ inv])
  note rf = return_flight [OF inv f]
  show "queues_ok (d\<lparr>wd_flights := remove1 f (wd_flights d)\<rparr>)"
    using rf c by (intro queues_ok_change [OF wd_inv_queues [OF inv], where c = "fl_channel f"])
      (auto simp: place_ok_def)
qed simp

text \<open>The flight is given back and its live channel gets a new state and, if marked, a new place.\<close>

lemma replace_flight:
  assumes inv: "wd_inv d" and f: "f \<in> set (wd_flights d)"
    and live: "\<not> wc_cancelled (wd_heap d (fl_channel f))"
    and keep: "\<not> wc_cancelled ch" "wc_watchId ch = wc_watchId (wd_heap d (fl_channel f))"
      "wc_watcherAddr ch = wc_watcherAddr (wd_heap d (fl_channel f))" "bound_ok ch" "wakeup_ok ch"
    and d': "d' = (set_channel d (fl_channel f) ch)\<lparr>wd_flights := remove1 f (wd_flights d),
        wd_groups := gs, wd_notifyFailures := nf\<rparr>"
    and gs: "groups_sorted d'"
    and p: "placed d' = placed (d\<lparr>wd_flights := remove1 f (wd_flights d)\<rparr>)
        + (if wc_dispatchQueued ch then {#fl_channel f#} else {#})"
  shows "wd_inv d'"
proof (rule wd_inv_same_table [OF _ inv])
  note rf = return_flight [OF inv f]
  show "same_table d d'" using live keep by (simp add: d' same_table_def)
  show "queues_ok d'"
  proof (rule queues_ok_change [OF wd_inv_queues [OF inv] gs, where c = "fl_channel f"])
    show "place_ok (wd_heap d' (fl_channel f)) (count (placed d') (fl_channel f))"
      unfolding p using keep rf(2) by (auto simp: d' place_ok_def)
    show "wd_heap d' x = wd_heap d x \<and> count (placed d') x \<le> count (placed d) x
        \<and> (\<not> wc_cancelled (wd_heap d x) \<longrightarrow> count (placed d') x = count (placed d) x)"
      if "x \<noteq> fl_channel f" for x
      unfolding p using rf(3) [OF that] that by (auto simp: d')
  qed (use rf(1) in \<open>simp_all add: d'\<close>)
qed

lemma RemoveChannel_flights:
  "RemoveChannel (d\<lparr>wd_flights := fs\<rparr>) i = (RemoveChannel d i)\<lparr>wd_flights := fs\<rparr>"
  "wd_flights (RemoveChannel d i) = wd_flights d"
  "wd_running (RemoveChannel d i) = wd_running d"
  by (auto simp: RemoveChannel_def RemoveReverseIndexLocked_def CancelChannel_def set_channel_def
      Let_def split: option.splits)

lemma RemoveChannel_cancels:
  assumes "map_of (wd_channels d) i = Some c"
  shows "wc_cancelled (wd_heap (RemoveChannel d i) c)"
  using assms by (simp add: RemoveChannel_def Let_def)

lemma remove_flight_channel:
  assumes inv: "wd_inv d" and f: "f \<in> set (wd_flights d)"
    and live: "\<not> wc_cancelled (wd_heap d (fl_channel f))"
  defines "i \<equiv> wc_watchId (wd_heap d (fl_channel f))"
  shows "wd_inv (RemoveChannel (d\<lparr>wd_flights := remove1 f (wd_flights d)\<rparr>) i)"
    "wc_cancelled (wd_heap (RemoveChannel (d\<lparr>wd_flights := remove1 f (wd_flights d)\<rparr>) i) (fl_channel f))"
proof -
  have "map_of (wd_channels d) i = Some (fl_channel f)"
    using inv live return_flight(1) [OF inv f] by (simp add: wd_inv_def table_ok_def i_def)
  then have c: "wc_cancelled (wd_heap (RemoveChannel d i) (fl_channel f))"
    by (rule RemoveChannel_cancels)
  then show "wc_cancelled (wd_heap (RemoveChannel (d\<lparr>wd_flights := remove1 f (wd_flights d)\<rparr>) i) (fl_channel f))"
    by (simp add: RemoveChannel_flights)
  show "wd_inv (RemoveChannel (d\<lparr>wd_flights := remove1 f (wd_flights d)\<rparr>) i)"
    using drop_cancelled_flight [OF RemoveChannel_inv [OF inv], of f i] f c
    by (simp add: RemoveChannel_flights)
qed

lemma end_retry_inv:
  assumes inv: "wd_inv d" and f: "f \<in> set (wd_flights d)"
    and live: "\<not> wc_cancelled (wd_heap d (fl_channel f))"
  shows "wd_inv (DispatchLoop_requeue (d\<lparr>wd_flights := remove1 f (wd_flights d), wd_notifyFailures := nf\<rparr>)
      f RETRY_LATER now)"
proof -
  let ?c = "fl_channel f"
  let ?d1 = "d\<lparr>wd_flights := remove1 f (wd_flights d), wd_notifyFailures := nf\<rparr>"
  have run: "wd_running d" and ne: "wd_groups d \<noteq> []"
    using inv by (auto simp: wd_inv_def queues_ok_def groups_sorted_def)
  obtain delay x where p: "PrepareRetry True (wd_heap d ?c)
      = (Some delay, (wd_heap d ?c)\<lparr>wc_retryDelayMs := x\<rparr>)"
    using live by (simp add: PrepareRetry_def Let_def)
  define ch where "ch = (wd_heap d ?c)\<lparr>wc_retryDelayMs := x\<rparr>"
  note rf = return_flight [OF inv f]
  have keep: "\<not> wc_cancelled ch" "wc_watchId ch = wc_watchId (wd_heap d ?c)"
    "wc_watcherAddr ch = wc_watcherAddr (wd_heap d ?c)" "bound_ok ch" "wakeup_ok ch" "wc_dispatchQueued ch"
    using live rf(4) [OF live] by (simp_all add: ch_def bound_ok_def wakeup_ok_def)
  define d2 where "d2 = set_channel ?d1 ?c ch"
  define g where "g = GetReadyGroupIndex d2 ?c"
  define gr where "gr = (wd_groups d2 ! g)\<lparr>dg_retryChannels := InsertRetryLocked
      (dg_retryChannels (wd_groups d2 ! g)) \<lparr>rc_readyTime = now + delay * 1000000, rc_channel = ?c\<rparr>\<rparr>"
  let ?d3 = "d2\<lparr>wd_groups := (wd_groups d2)[g := gr]\<rparr>"
  have r: "DispatchLoop_requeue ?d1 f RETRY_LATER now = ?d3"
    using p run live by (simp add: DispatchLoop_requeue_def Let_def d2_def g_def gr_def ch_def)
  have g: "g < length (wd_groups d2)"
    unfolding g_def by (rule ready_group_index) (simp add: d2_def ne)
  have sorted2: "groups_sorted d2" using rf(5) by (simp add: d2_def groups_sorted_def)
  then have "sorted (map rc_readyTime (dg_retryChannels (wd_groups d2 ! g)))"
    using g by (simp add: groups_sorted_def)
  then have s3: "groups_sorted ?d3"
    by (intro groups_sorted_update [OF sorted2]) (simp add: gr_def InsertRetryLocked_facts)
  have "group_mset gr = add_mset ?c (group_mset (wd_groups d2 ! g))"
    using InsertRetryLocked_facts(1) [of "dg_retryChannels (wd_groups d2 ! g)"]
    by (simp add: gr_def group_mset_def)
  then have "placed ?d3 = add_mset ?c (placed d2)"
    using placed_update_group [OF g, of gr] by simp
  moreover have "placed d2 = placed (d\<lparr>wd_flights := remove1 f (wd_flights d)\<rparr>)"
    by (simp add: d2_def placed_def)
  ultimately have p3: "placed ?d3 = placed (d\<lparr>wd_flights := remove1 f (wd_flights d)\<rparr>)
      + (if wc_dispatchQueued ch then {#?c#} else {#})"
    using keep(6) by simp
  have "?d3 = (set_channel d ?c ch)\<lparr>wd_flights := remove1 f (wd_flights d),
      wd_groups := (wd_groups d2)[g := gr], wd_notifyFailures := nf\<rparr>"
    by (simp add: d2_def set_channel_def)
  from replace_flight [OF inv f live keep(1-5) this s3 p3] show ?thesis by (simp only: r)
qed

lemma end_commit_inv:
  assumes inv: "wd_inv d" and f: "f \<in> set (wd_flights d)"
    and live: "\<not> wc_cancelled (wd_heap d (fl_channel f))"
    and c: "commit_channel m (wd_heap d (fl_channel f)) = (again, ch)"
  shows "wd_inv (DispatchLoop_requeue
      (set_channel (d\<lparr>wd_flights := remove1 f (wd_flights d)\<rparr>) (fl_channel f) ch) f
      (if again then READY_AGAIN else NONE) now)"
proof -
  let ?c = "fl_channel f"
  let ?d1 = "d\<lparr>wd_flights := remove1 f (wd_flights d)\<rparr>"
  define d2 where "d2 = set_channel ?d1 ?c ch"
  note rf = return_flight [OF inv f]
  note keep = commit_channel_keeps [OF c live]
  have keep': "\<not> wc_cancelled ch" "wc_watchId ch = wc_watchId (wd_heap d ?c)"
    "wc_watcherAddr ch = wc_watcherAddr (wd_heap d ?c)" "bound_ok ch" "wakeup_ok ch"
    and again: "wc_dispatchQueued ch = again"
    using keep rf(4) [OF live] live by auto
  have run: "wd_running d" and g: "fl_group f < length (wd_groups d)"
    using inv f by (auto simp: wd_inv_def queues_ok_def groups_sorted_def)
  let ?d3 = "if again then push_ready d2 (fl_group f) ?c else d2"
  have r: "DispatchLoop_requeue d2 f (if again then READY_AGAIN else NONE) now = ?d3"
    using run keep'(1) by (simp add: DispatchLoop_requeue_def Let_def d2_def)
  have "groups_sorted d2" using rf(5) by (simp add: d2_def)
  then have s3: "groups_sorted ?d3" by (simp add: groups_sorted_push_ready)
  have "fl_group f < length (wd_groups d2)" using g by (simp add: d2_def)
  then have "placed ?d3 = placed d2 + (if again then {#?c#} else {#})"
    by (simp add: placed_push_ready)
  moreover have "placed d2 = placed ?d1" by (simp add: d2_def)
  ultimately have p3: "placed ?d3 = placed ?d1 + (if wc_dispatchQueued ch then {#?c#} else {#})"
    by (simp only: again)
  have "?d3 = (set_channel d ?c ch)\<lparr>wd_flights := remove1 f (wd_flights d),
      wd_groups := wd_groups ?d3, wd_notifyFailures := wd_notifyFailures d\<rparr>"
    by (simp add: d2_def set_channel_def push_ready_def)
  from replace_flight [OF inv f live keep' this s3 p3] show ?thesis
    unfolding d2_def [symmetric] r .
qed

lemma DispatchLoop_end_inv:
  assumes inv: "wd_inv d" and f: "f \<in> set (wd_flights d)"
  shows "wd_inv (snd (DispatchLoop_end reg d f status now))"
proof -
  let ?d1 = "d\<lparr>wd_flights := remove1 f (wd_flights d)\<rparr>"
  let ?c = "fl_channel f"
  have run: "wd_running d" using inv by (auto simp: wd_inv_def queues_ok_def groups_sorted_def)
  show ?thesis
  proof (cases "wc_cancelled (wd_heap d ?c)")
    case True
    then show ?thesis
      using drop_cancelled_flight [OF inv f]
      by (simp add: DispatchLoop_end_def HandleChannelEvents_finish_def DispatchLoop_requeue_def Let_def)
  next
    case live: False
    note rm = remove_flight_channel [OF inv f live]
    have removed: "wd_inv (DispatchLoop_requeue
        (RemoveChannel ?d1 (wc_watchId (wd_heap d ?c))) f NONE now)"
      using rm by (simp add: DispatchLoop_requeue_def Let_def)
    obtain again ch where c: "commit_channel (fl_maxEventRevision f) (wd_heap d ?c) = (again, ch)"
      by fastforce
    consider "status = K_NOT_FOUND \<or> status = K_OK \<and> fl_needReWatch f"
      | "status \<noteq> K_NOT_FOUND" "status \<noteq> K_OK" | "status = K_OK" "\<not> fl_needReWatch f"
      by blast
    then show ?thesis
    proof cases
      case 1
      then show ?thesis
        using removed run live
        by (auto simp: DispatchLoop_end_def HandleChannelEvents_finish_def Let_def
            RemoveRewatchRequiredWatcher_def)
    next
      case 2
      then show ?thesis
        using end_retry_inv [OF inv f live] run live
        by (simp add: DispatchLoop_end_def HandleChannelEvents_finish_def Let_def)
    next
      case 3
      then show ?thesis
        using end_commit_inv [OF inv f live c] run live c
        by (simp add: DispatchLoop_end_def HandleChannelEvents_finish_def Let_def)
    qed
  qed
qed

text \<open>The dispatcher as the coordinator starts it.\<close>

definition started_dispatcher :: "nat \<Rightarrow> WatchDispatcher" where
  "started_dispatcher threads = snd (Dispatcher_Start (new_WatchDispatcher threads) K_OK)"

lemma sum_list_replicate_empty: "sum_list (replicate n {#}) = {#}"
  by (induction n) auto

lemma started_dispatcher_inv:
  assumes "0 < threads"
  shows "wd_inv (started_dispatcher threads)"
proof -
  have p: "placed (started_dispatcher threads) = {#}"
    by (simp add: placed_def started_dispatcher_def Dispatcher_Start_def new_WatchDispatcher_def
        Let_def map_replicate_const group_mset_def sum_list_replicate_empty)
  show ?thesis
    using assms
    by (simp add: wd_inv_def table_ok_def index_ok_def queues_ok_def groups_sorted_def p)
      (simp add: started_dispatcher_def Dispatcher_Start_def new_WatchDispatcher_def Let_def
        MAX_READY_CHANNEL_GROUPS_def)
qed

lemma watch_step_inv: "watch_step s s' \<Longrightarrow> wd_inv (snd s) \<Longrightarrow> wd_inv (snd s')"
  by (induction rule: watch_step.induct)
    (simp_all add: Enqueue_inv AddChannel_inv RemoveChannel_inv RemoveChannelsByWatcher_inv
      RemoveChannelsByWatcherInScopes_inv SetSnapshotRevision_inv FanOutTake_inv FanOutOverflow_inv
      FanOutNext_inv DispatchLoop_begin_inv DispatchLoop_end_inv)

definition watch_start :: "nat \<Rightarrow> WatchRegistry \<times> WatchDispatcher" where
  "watch_start threads = (new_WatchRegistry, started_dispatcher threads)"

lemma watch_reachable_inv:
  assumes "0 < threads" and "watch_step\<^sup>*\<^sup>* (watch_start threads) s"
  shows "wd_inv (snd s)"
  using assms(2)
  by (induction rule: rtranclp_induct)
    (use assms(1) in \<open>auto simp: watch_start_def started_dispatcher_inv intro: watch_step_inv\<close>)

subsection \<open>Properties of the dispatcher\<close>


text \<open>
  C14. Memory is bounded: in every reachable state the pending queue holds at most 10000 events,
  every registered channel at most 1024, and the retry queue of every group is ordered by time.
\<close>

theorem dispatcher_queues_bounded:
  assumes "0 < threads" and "watch_step\<^sup>*\<^sup>* (watch_start threads) (reg, d)"
  shows "GetPendingEventCount d \<le> MAX_PENDING_EVENTS
    \<and> (\<forall>i c. map_of (wd_channels d) i = Some c \<longrightarrow> length (wc_queue (wd_heap d c)) \<le> 1024)
    \<and> (\<forall>g \<in> set (wd_groups d). sorted (map rc_readyTime (dg_retryChannels g)))"
proof -
  have inv: "wd_inv d" using watch_reachable_inv [OF assms] by simp
  then show ?thesis
    using queues_ok_live(4) [OF inv]
    by (auto simp: wd_inv_def GetPendingEventCount_def queues_ok_def groups_sorted_def bound_ok_def)
qed

lemma RemoveChannel_channels:
  "map_of (wd_channels (RemoveChannel d i)) = (map_of (wd_channels d))(i := None)"
  by (rule ext) (auto simp: RemoveChannel_def Let_def split: option.splits)

lemma foldl_RemoveChannel_channels:
  "map_of (wd_channels (foldl RemoveChannel d ids))
     = (\<lambda>i. if i \<in> set ids then None else map_of (wd_channels d) i)"
proof (induction ids arbitrary: d)
  case (Cons i ids)
  then show ?case by (auto simp: RemoveChannel_channels fun_eq_iff)
qed simp

text \<open>
  Removing a watcher removes all its channels and no other: in every reachable state,
  RemoveChannelsByWatcher takes exactly the channels of that address out of the table.
\<close>

lemma remove_watcher_exact:
  assumes "0 < threads" and "watch_step\<^sup>*\<^sup>* (watch_start threads) (reg, d)"
  shows "map_of (wd_channels (snd (RemoveChannelsByWatcher reg d addr))) i
    = (case map_of (wd_channels d) i of None \<Rightarrow> None
       | Some c \<Rightarrow> if wc_watcherAddr (wd_heap d c) = addr then None else Some c)"
proof -
  have ex: "\<And>a j. (\<exists>ids. wd_watchIdsByWatcher d a = Some ids \<and> j \<in> set ids) \<longleftrightarrow>
      (\<exists>c. map_of (wd_channels d) j = Some c \<and> wc_watcherAddr (wd_heap d c) = a)"
    using watch_reachable_inv [OF assms] by (simp add: wd_inv_def index_ok_def)
  show ?thesis
  proof (cases "wd_watchIdsByWatcher d addr")
    case None
    then have "snd (RemoveChannelsByWatcher reg d addr) = d"
      by (simp add: RemoveChannelsByWatcher_def)
    moreover have "map_of (wd_channels d) i = Some c \<Longrightarrow> wc_watcherAddr (wd_heap d c) \<noteq> addr" for c
      using ex [of addr i] None by auto
    ultimately show ?thesis by (cases "map_of (wd_channels d) i") auto
  next
    case (Some ids)
    obtain reg' n where "cancel_watches reg addr ids (wd_cancelFailures d) = (reg', n)" by fastforce
    then have "snd (RemoveChannelsByWatcher reg d addr)
        = foldl RemoveChannel (d\<lparr>wd_cancelFailures := n\<rparr>) ids"
      using Some by (simp add: RemoveChannelsByWatcher_def)
    then have "map_of (wd_channels (snd (RemoveChannelsByWatcher reg d addr))) i
        = (if i \<in> set ids then None else map_of (wd_channels d) i)"
      by (simp add: foldl_RemoveChannel_channels)
    moreover have "i \<in> set ids \<longleftrightarrow>
        (\<exists>c. map_of (wd_channels d) i = Some c \<and> wc_watcherAddr (wd_heap d c) = addr)"
      using ex [of addr i] Some by simp
    ultimately show ?thesis by (cases "map_of (wd_channels d) i") auto
  qed
qed

subsection \<open>A rewatch request that overtakes a notification\<close>

text \<open>A live channel that waits for its rewatch to be sent while it has nothing to send.\<close>

definition stuck :: "WatchDispatcher \<Rightarrow> nat \<Rightarrow> bool" where
  "stuck d c \<longleftrightarrow> c < wd_nextChannel d \<and> \<not> wc_cancelled (wd_heap d c)
     \<and> wc_needReWatch (wd_heap d c) \<and> wc_queue (wd_heap d c) = [] \<and> \<not> wc_dispatchQueued (wd_heap d c)"

definition silent :: "nat \<Rightarrow> WatchDispatcher \<Rightarrow> bool" where
  "silent c d \<longleftrightarrow> stuck d c \<or> c < wd_nextChannel d \<and> wc_cancelled (wd_heap d c)"

lemma silent_same:
  "silent c d \<Longrightarrow> wd_nextChannel d \<le> wd_nextChannel d' \<Longrightarrow> wd_heap d' c = wd_heap d c \<Longrightarrow> silent c d'"
  by (auto simp: silent_def stuck_def)

lemma Schedule_other:
  "x \<noteq> c \<Longrightarrow> wd_heap (ScheduleChannelLocked d x) c = wd_heap d c"
  "wd_nextChannel (ScheduleChannelLocked d x) = wd_nextChannel d"
  by (simp_all add: ScheduleChannelLocked_def Let_def)

lemma silent_push:
  assumes "silent c d"
  shows "silent c (if wc_cancelled (wd_heap d x) \<or> wc_needReWatch (wd_heap d x) then d
           else ScheduleChannelLocked (set_channel d x ch) x)"
proof (cases "x = c")
  case False
  then have "silent c (ScheduleChannelLocked (set_channel d x ch) x)"
    by (intro silent_same [OF assms]) (simp_all add: Schedule_other)
  then show ?thesis using assms by simp
qed (use assms in \<open>auto simp: silent_def stuck_def\<close>)

lemma silent_fan_out_watcher: "silent c d \<Longrightarrow> silent c (fan_out_watcher ev d i)"
proof (cases "map_of (wd_channels d) i")
  case (Some x)
  assume "silent c d"
  from silent_push [OF this, of x "push_event ev (wd_heap d x)"] show ?thesis
    using Some by (simp add: fan_out_watcher_def Let_def)
qed (simp add: fan_out_watcher_def)

lemma silent_fan_out_event: "silent c d \<Longrightarrow> silent c (fan_out_event reg d ev)"
  unfolding fan_out_event_def
  by (rule foldl_inv [where P = "silent c"]) (simp_all add: silent_fan_out_watcher)

lemma silent_rewatch: "silent c d \<Longrightarrow> silent c (rewatch_channel d x)"
  using silent_push [of c d x] by (simp add: rewatch_channel_def Let_def)

lemma silent_locals [simp]:
  "silent c (d\<lparr>wd_batch := b\<rparr>) = silent c d" "silent c (d\<lparr>wd_pendingOverflow := ov\<rparr>) = silent c d"
  "silent c (d\<lparr>wd_cancelFailures := m\<rparr>) = silent c d"
  "silent c (d\<lparr>wd_pendingQueue := q\<rparr>) = silent c d"
  "silent c (d\<lparr>wd_droppedPendingEvents := k\<rparr>) = silent c d"
  "silent c (d\<lparr>wd_groups := g\<rparr>) = silent c d" "silent c (d\<lparr>wd_flights := f\<rparr>) = silent c d"
  "silent c (d\<lparr>wd_notifyFailures := n\<rparr>) = silent c d"
  by (simp_all add: silent_def stuck_def)

lemma silent_overflow: "silent c d \<Longrightarrow> silent c (FanOutOverflow d)"
  unfolding FanOutOverflow_def ScheduleAllChannelsForRewatch_def
  by (auto intro!: foldl_inv [where P = "silent c"] silent_rewatch)

lemma silent_set_other: "silent c d \<Longrightarrow> x \<noteq> c \<Longrightarrow> silent c (set_channel d x ch)"
  by (rule silent_same) simp_all

lemma silent_set_cancelled:
  "silent c d \<Longrightarrow> wc_cancelled (wd_heap d x) \<longrightarrow> wc_cancelled ch \<Longrightarrow> x \<noteq> c \<or> wc_cancelled ch \<Longrightarrow>
     silent c (set_channel d x ch)"
  by (auto simp: silent_def stuck_def)

lemma silent_remove: "silent c d \<Longrightarrow> silent c (RemoveChannel d i)"
  by (auto simp: RemoveChannel_def Let_def silent_def stuck_def split: option.splits)

lemma silent_add: "silent c d \<Longrightarrow> silent c (AddChannel d i addr)"
  by (auto simp: AddChannel_def Let_def silent_def stuck_def split: option.splits)

lemma silent_snapshot: "silent c d \<Longrightarrow> silent c (SetSnapshotRevision d i rv)"
proof (cases "map_of (wd_channels d) i")
  case (Some x)
  assume s: "silent c d"
  let ?ch = "(wd_heap d x)\<lparr>wc_snapshotRevision := rv\<rparr>"
  have "silent c (set_channel d x ?ch)" using s by (auto simp: silent_def stuck_def)
  moreover have "silent c (ScheduleChannelLocked (set_channel d x ?ch) x)"
    if "wc_queue (wd_heap d x) \<noteq> []"
  proof (cases "x = c")
    case True
    then have "wc_cancelled (wd_heap d c)" using s that by (auto simp: silent_def stuck_def)
    then have "ScheduleChannelLocked (set_channel d x ?ch) x = set_channel d x ?ch"
      using True by (simp add: ScheduleChannelLocked_def Let_def)
    then show ?thesis using calculation by simp
  next
    case False
    then show ?thesis by (intro silent_same [OF s]) (simp_all add: Schedule_other)
  qed
  ultimately show ?thesis using Some by (simp add: SetSnapshotRevision_def Let_def)
qed (simp add: SetSnapshotRevision_def)

lemma silent_not_placed:
  assumes "wd_inv d" and "silent c d" and "\<not> wc_cancelled (wd_heap d c)"
  shows "count (placed d) c = 0"
proof -
  have s: "stuck d c" using assms(2,3) by (auto simp: silent_def)
  then have "place_ok (wd_heap d c) (count (placed d) c)"
    using wd_inv_queues [OF assms(1)] by (simp add: queues_ok_def stuck_def)
  then show ?thesis using s by (auto simp: place_ok_def stuck_def)
qed

lemma silent_begin:
  assumes inv: "wd_inv d" and g: "g < length (wd_groups d)" and s: "silent c d"
  shows "silent c (DispatchLoop_begin d g now)"
proof -
  have gs: "groups_sorted d" using inv by (simp add: wd_inv_def queues_ok_def)
  obtain res d1 where w: "WaitForReadyChannel d g now = (res, d1)" by fastforce
  note wf = WaitForReadyChannel_facts [OF gs g w]
  obtain gs1 where d1: "d1 = d\<lparr>wd_groups := gs1\<rparr>" using wf(1) by blast
  have ne: "x \<noteq> c" if "res = Some x" for x
  proof
    assume "x = c"
    then have live: "\<not> wc_cancelled (wd_heap d c)" using wf(3) that by simp
    then have "count (placed d) c = 0" by (rule silent_not_placed [OF inv s])
    then show False using wf(4) [of c] that \<open>x = c\<close> by simp
  qed
  show ?thesis
  proof (cases res)
    case None
    then show ?thesis using w s by (simp add: DispatchLoop_begin_def d1)
  next
    case (Some x)
    have "silent c (set_channel d1 x ch)" for ch
      using silent_set_other [of c d1 x ch] ne [OF Some] s by (simp add: d1)
    then show ?thesis
      using w Some
      by (auto simp: DispatchLoop_begin_def HandleChannelEvents_prepare_def split: prod.splits Prepared.splits)
  qed
qed

lemma silent_requeue:
  assumes "silent c d" and "fl_channel f \<noteq> c \<or> wc_cancelled (wd_heap d c)"
  shows "silent c (DispatchLoop_requeue d f r now)"
proof (cases "fl_channel f = c")
  case True
  then show ?thesis using assms by (simp add: DispatchLoop_requeue_def Let_def)
next
  case False
  have "silent c (set_channel d (fl_channel f) ch)" for ch
    using silent_set_other [OF assms(1) False] .
  then show ?thesis
    using assms(1)
    by (auto simp: DispatchLoop_requeue_def Let_def push_ready_def split: HandleResult.splits prod.splits option.splits)
qed

lemma silent_end:
  assumes inv: "wd_inv d" and f: "f \<in> set (wd_flights d)" and s: "silent c d"
  shows "silent c (snd (DispatchLoop_end reg d f status now))"
proof -
  let ?d1 = "d\<lparr>wd_flights := remove1 f (wd_flights d)\<rparr>"
  have ne: "fl_channel f \<noteq> c \<or> wc_cancelled (wd_heap d c)"
  proof (rule ccontr)
    assume "\<not> ?thesis"
    then have "count (placed d) (fl_channel f) = 0" using silent_not_placed [OF inv s] by simp
    then show False using placed_remove_flight [OF f] by simp
  qed
  have rm: "silent c (RemoveChannel ?d1 i)" for i using silent_remove [of c ?d1] s by simp
  obtain r reg' d2 where h: "HandleChannelEvents_finish reg ?d1 f status = (r, reg', d2)"
    by (metis prod_cases3)
  have "silent c d2 \<and> (fl_channel f \<noteq> c \<or> wc_cancelled (wd_heap d2 c))"
  proof (cases "wc_cancelled (wd_heap d (fl_channel f))")
    case True
    then show ?thesis
      using h s ne by (auto simp: HandleChannelEvents_finish_def Let_def)
  next
    case False
    then have ne': "fl_channel f \<noteq> c" using ne by auto
    have "silent c (set_channel ?d1 (fl_channel f) ch)" for ch
      using silent_set_other [of c ?d1, OF _ ne'] s by simp
    then show ?thesis
      using h s rm ne'
      by (auto simp: HandleChannelEvents_finish_def RemoveRewatchRequiredWatcher_def Let_def
          split: if_splits prod.splits)
  qed
  then show ?thesis
    using silent_requeue h by (auto simp: DispatchLoop_end_def Let_def)
qed

lemma silent_remove_by:
  "silent c d \<Longrightarrow> silent c (snd (RemoveChannelsByWatcher reg d addr))"
  "silent c d \<Longrightarrow> silent c (snd (RemoveChannelsByWatcherInScopes reg d addr scopes))"
  by (auto simp: RemoveChannelsByWatcher_def RemoveChannelsByWatcherInScopes_def
      intro!: foldl_inv [where P = "silent c"] foldl_inv [where P = "\<lambda>s. silent c (snd s)"] silent_remove
      split: option.splits prod.splits)

lemma silent_step:
  "watch_step s s' \<Longrightarrow> wd_inv (snd s) \<Longrightarrow> silent c (snd s) \<Longrightarrow> silent c (snd s')"
proof (induction rule: watch_step.induct)
  case (ws_enqueue reg d ev)
  then show ?case by (simp add: Enqueue_def)
next
  case (ws_take reg d)
  then show ?case by (simp add: FanOutTake_def Let_def)
next
  case (ws_next reg d)
  then show ?case by (auto simp: FanOutNext_def silent_fan_out_event split: list.splits)
qed (simp_all add: silent_add silent_remove silent_remove_by silent_snapshot silent_overflow
    silent_begin silent_end)

lemma silent_reachable:
  assumes "watch_step\<^sup>*\<^sup>* s s'" and "wd_inv (snd s)" and "silent c (snd s)"
  shows "wd_inv (snd s') \<and> silent c (snd s')"
  using assms by (induction rule: rtranclp_induct) (auto intro: watch_step_inv silent_step)

text \<open>The rewatch of all channels, seen from one channel that is being notified.\<close>

lemma rewatch_other: "x \<noteq> c \<Longrightarrow> wd_heap (rewatch_channel d x) c = wd_heap d c"
  by (simp add: rewatch_channel_def Let_def Schedule_other)

lemma Schedule_flights [simp]:
  "wd_flights (ScheduleChannelLocked d x) = wd_flights d"
  by (simp add: ScheduleChannelLocked_def push_ready_def Let_def)

lemma rewatch_flights [simp]: "wd_flights (rewatch_channel d x) = wd_flights d"
  by (simp add: rewatch_channel_def Let_def)

lemma foldl_rewatch_flights [simp]: "wd_flights (foldl rewatch_channel d xs) = wd_flights d"
  by (induction xs arbitrary: d) auto

lemma foldl_rewatch_done:
  "wc_needReWatch (wd_heap d c) \<Longrightarrow> wd_heap (foldl rewatch_channel d xs) c = wd_heap d c"
proof (induction xs arbitrary: d)
  case (Cons x xs)
  have "wd_heap (rewatch_channel d x) c = wd_heap d c"
    using Cons.prems by (cases "x = c") (simp add: rewatch_channel_def, simp add: rewatch_other)
  then show ?case using Cons by simp
qed simp

lemma foldl_rewatch_self:
  assumes "c \<in> set xs" and "\<not> wc_cancelled (wd_heap d c)" and "\<not> wc_needReWatch (wd_heap d c)"
    and "wc_dispatchQueued (wd_heap d c)"
  shows "wd_heap (foldl rewatch_channel d xs) c
    = (wd_heap d c)\<lparr>wc_queue := [MakeRewatchEvent None], wc_needReWatch := True\<rparr>"
  using assms
proof (induction xs arbitrary: d)
  case (Cons x xs)
  show ?case
  proof (cases "x = c")
    case True
    then have "wd_heap (rewatch_channel d x) c
        = (wd_heap d c)\<lparr>wc_queue := [MakeRewatchEvent None], wc_needReWatch := True\<rparr>"
      using Cons.prems by (simp add: rewatch_channel_def ScheduleChannelLocked_def Let_def)
    then show ?thesis using foldl_rewatch_done [of "rewatch_channel d x" c xs] by simp
  next
    case False
    then have "wd_heap (rewatch_channel d x) c = wd_heap d c" by (rule rewatch_other)
    then show ?thesis using Cons False by simp
  qed
qed simp

lemma overflow_during_flight:
  assumes inv: "wd_inv d" and f: "f \<in> set (wd_flights d)"
    and live: "\<not> wc_cancelled (wd_heap d (fl_channel f))" "\<not> wc_needReWatch (wd_heap d (fl_channel f))"
    and ordinary: "\<not> fl_needReWatch f" "0 \<le> fl_maxEventRevision f" and over: "wd_pendingOverflow d"
  shows "stuck (snd (DispatchLoop_end reg (FanOutOverflow d) f K_OK now)) (fl_channel f)
    \<and> wc_watchId (wd_heap (snd (DispatchLoop_end reg (FanOutOverflow d) f K_OK now)) (fl_channel f))
      = wc_watchId (wd_heap d (fl_channel f))"
proof -
  let ?c = "fl_channel f"
  let ?d1 = "FanOutOverflow d"
  note rf = return_flight [OF inv f]
  have "map_of (wd_channels d) (wc_watchId (wd_heap d ?c)) = Some ?c"
    using inv live(1) rf(1) by (simp add: wd_inv_def table_ok_def)
  then have "?c \<in> set (map snd (wd_channels d))" using map_of_SomeD by force
  then have heap: "wd_heap ?d1 ?c
      = (wd_heap d ?c)\<lparr>wc_queue := [MakeRewatchEvent None], wc_needReWatch := True\<rparr>"
    using foldl_rewatch_self [of ?c "map snd (wd_channels d)" "d\<lparr>wd_pendingOverflow := False\<rparr>"]
      over live rf(4) by (simp add: FanOutOverflow_def ScheduleAllChannelsForRewatch_def)
  have inv1: "wd_inv ?d1" by (rule FanOutOverflow_inv [OF inv])
  have f1: "f \<in> set (wd_flights ?d1)"
    using f over by (simp add: FanOutOverflow_def ScheduleAllChannelsForRewatch_def)
  have run: "wd_running ?d1" using inv1 by (auto simp: wd_inv_def queues_ok_def groups_sorted_def)
  let ?ch = "(wd_heap ?d1 ?c)\<lparr>wc_retryDelayMs := 0, wc_queue := [], wc_dispatchQueued := False\<rparr>"
  have "commit_channel (fl_maxEventRevision f) (wd_heap ?d1 ?c) = (False, ?ch)"
    using ordinary(2) live by (simp add: heap commit_channel_def MakeRewatchEvent_def Let_def)
  then have "snd (DispatchLoop_end reg ?d1 f K_OK now)
      = set_channel (?d1\<lparr>wd_flights := remove1 f (wd_flights ?d1)\<rparr>) ?c ?ch"
    using run ordinary(1) live
    by (simp add: DispatchLoop_end_def HandleChannelEvents_finish_def DispatchLoop_requeue_def Let_def heap)
  then show ?thesis
    using return_flight(1) [OF inv1 f1] live by (simp add: stuck_def heap)
qed

subsection \<open>A concrete history\<close>

text \<open>
  One watcher registers for key k, its snapshot is taken at revision 1, an event of revision 2 is
  fanned out to it and a worker starts to notify it.
\<close>

definition demo_registered :: WatchRegistry where
  "demo_registered = snd (Register new_WatchRegistry ''k'' [] ''h'' ''r'')"

definition demo_watched :: WatchDispatcher where
  "demo_watched = SetSnapshotRevision (AddChannel (started_dispatcher 1) 1 ''h'') 1 1"

definition demo_flying :: WatchDispatcher where
  "demo_flying = DispatchLoop_begin (FanOutNext demo_registered
     (FanOutTake (Enqueue demo_watched (demo_event 2)))) 0 0"

lemma demo_watched_reachable:
  "watch_step\<^sup>*\<^sup>* (watch_start 1) (demo_registered, demo_watched)"
proof -
  have "watch_step (watch_start 1) (demo_registered, started_dispatcher 1)"
    using ws_register [of new_WatchRegistry "started_dispatcher 1" "''k''" "[]" "''h''" "''r''"]
    by (simp add: watch_start_def demo_registered_def)
  moreover have "watch_step (demo_registered, started_dispatcher 1)
      (demo_registered, AddChannel (started_dispatcher 1) 1 ''h'')" by (rule ws_add)
  moreover have "watch_step (demo_registered, AddChannel (started_dispatcher 1) 1 ''h'')
      (demo_registered, demo_watched)" unfolding demo_watched_def by (rule ws_snapshot)
  ultimately show ?thesis by (meson converse_rtranclp_into_rtranclp rtranclp.rtrancl_refl)
qed

lemmas dispatcher_eval = started_dispatcher_def Dispatcher_Start_def new_WatchDispatcher_def
  MAX_READY_CHANNEL_GROUPS_def AddChannel_def set_channel_def SetSnapshotRevision_def Let_def
  new_channel_def

lemma demo_watched_eq:
  "demo_watched = (started_dispatcher 1)
     \<lparr>wd_heap := (\<lambda>_. new_channel 0 [])(0 := (new_channel 1 ''h'')\<lparr>wc_snapshotRevision := 1\<rparr>),
      wd_nextChannel := 1, wd_channels := [(1, 0)], wd_watchIdsByWatcher := [''h'' \<mapsto> [1]]\<rparr>"
  by (simp add: demo_watched_def dispatcher_eval)

lemma demo_flying_reachable:
  "watch_step\<^sup>*\<^sup>* (watch_start 1) (demo_registered, demo_flying)"
proof -
  let ?d1 = "Enqueue demo_watched (demo_event 2)"
  let ?d2 = "FanOutTake ?d1"
  let ?d3 = "FanOutNext demo_registered ?d2"
  have "watch_step (demo_registered, demo_watched) (demo_registered, ?d1)" by (rule ws_enqueue)
  moreover have "watch_step (demo_registered, ?d1) (demo_registered, ?d2)" by (rule ws_take)
  moreover have "watch_step (demo_registered, ?d2) (demo_registered, ?d3)" by (rule ws_next)
  ultimately have r: "watch_step\<^sup>*\<^sup>* (watch_start 1) (demo_registered, ?d3)"
    using demo_watched_reachable by (meson rtranclp.rtrancl_into_rtrancl)
  have "wd_groups ?d3 \<noteq> []"
    using watch_reachable_inv [OF _ r] by (simp add: wd_inv_def queues_ok_def groups_sorted_def)
  then have "watch_step (demo_registered, ?d3) (demo_registered, demo_flying)"
    unfolding demo_flying_def by (intro ws_begin) simp
  then show ?thesis using r by (rule rtranclp.rtrancl_into_rtrancl [rotated])
qed

definition demo_flight :: Flight where
  "demo_flight = \<lparr>fl_group = 0, fl_channel = 0, fl_needReWatch = False, fl_maxEventRevision = 2\<rparr>"

lemma demo_flying_facts:
  "wd_flights demo_flying = [demo_flight]" "\<not> wc_cancelled (wd_heap demo_flying 0)"
  "\<not> wc_needReWatch (wd_heap demo_flying 0)" "map_of (wd_channels demo_flying) 1 = Some 0"
  "wd_pendingQueue demo_flying = []"
  "wc_queue (wd_heap demo_flying 0) \<noteq> []" "0 < wc_snapshotRevision (wd_heap demo_flying 0)"
proof -
  have m: "map wt_watchId (MatchWatchers demo_registered ''k'' []) = [1]"
    by (simp add: demo_registered_def Register_def new_WatchRegistry_def Let_def wrap_s64_def
        MatchWatchers_def live_watchers_def)
  have k: "kv_key (we_entry (demo_event 2)) = ''k''" by (simp add: demo_event_def)
  note defs = demo_flying_def demo_watched_eq FanOutNext_def FanOutTake_def Enqueue_def
    fan_out_event_def m k fan_out_watcher_def ScheduleChannelLocked_def push_ready_def
    GetReadyGroupIndex_def push_event_def DispatchLoop_begin_def WaitForReadyChannel_def
    HandleChannelEvents_prepare_def dispatcher_eval MAX_WATCH_EVENTS_PER_FAN_OUT_def
    MAX_PENDING_EVENTS_def prepare_channel_def MAX_WATCH_EVENTS_PER_BATCH_def
    WATCH_EVENT_BATCH_MERGE_THRESHOLD_BYTES_def WATCH_EVENT_WIRE_OVERHEAD_BYTES_def event_bytes_def
    demo_flight_def
  have ev: "we_revision (demo_event 2) = 2" "we_type (demo_event 2) = PUT"
    "kv_value (we_entry (demo_event 2)) = ''v''"
    by (simp_all add: demo_event_def)
  show "wd_flights demo_flying = [demo_flight]" "\<not> wc_cancelled (wd_heap demo_flying 0)"
    "\<not> wc_needReWatch (wd_heap demo_flying 0)" "map_of (wd_channels demo_flying) 1 = Some 0"
    "wd_pendingQueue demo_flying = []"
    "wc_queue (wd_heap demo_flying 0) \<noteq> []" "0 < wc_snapshotRevision (wd_heap demo_flying 0)"
    by (simp_all add: defs ev)
qed

lemma enqueue_many_reachable: "watch_step\<^sup>*\<^sup>* (reg, d) (reg, foldl Enqueue d evs)"
proof (induction evs arbitrary: d)
  case (Cons ev evs)
  have "watch_step (reg, d) (reg, Enqueue d ev)" by (rule ws_enqueue)
  then show ?case using Cons [of "Enqueue d ev"] by (auto intro: converse_rtranclp_into_rtranclp)
qed simp

lemma enqueue_many_facts:
  "wd_heap (foldl Enqueue d evs) = wd_heap d" "wd_flights (foldl Enqueue d evs) = wd_flights d"
  "wd_channels (foldl Enqueue d evs) = wd_channels d"
  by (induction evs arbitrary: d) (auto simp: Enqueue_def)

lemma enqueue_many_overflow:
  "wd_pendingOverflow d \<or> MAX_PENDING_EVENTS < length (wd_pendingQueue d) + length evs \<Longrightarrow>
     length (wd_pendingQueue d) \<le> MAX_PENDING_EVENTS \<Longrightarrow> wd_pendingOverflow (foldl Enqueue d evs)"
proof (induction evs arbitrary: d)
  case (Cons ev evs)
  then show ?case
    by (cases "length (wd_pendingQueue d) \<ge> MAX_PENDING_EVENTS") (simp_all add: Enqueue_def)
qed simp

text \<open>
  A registered channel that will never send anything again: in every later state in which the
  channel is still registered, its queue is empty and no worker has or will find it.
\<close>

definition never_notified :: "WatchRegistry \<times> WatchDispatcher \<Rightarrow> nat \<Rightarrow> bool" where
  "never_notified s c \<longleftrightarrow>
     (\<forall>reg d i. watch_step\<^sup>*\<^sup>* s (reg, d) \<and> map_of (wd_channels d) i = Some c \<longrightarrow>
        wc_needReWatch (wd_heap d c) \<and> wc_queue (wd_heap d c) = [] \<and> count (placed d) c = 0)"

lemma stuck_never_notified:
  assumes "wd_inv (snd s)" and "stuck (snd s) c"
  shows "never_notified s c"
  unfolding never_notified_def
proof (intro allI impI)
  fix reg d i assume a: "watch_step\<^sup>*\<^sup>* s (reg, d) \<and> map_of (wd_channels d) i = Some c"
  then have "wd_inv d" "silent c d"
    using silent_reachable [of s "(reg, d)" c] assms by (auto simp: silent_def)
  moreover from this have "\<not> wc_cancelled (wd_heap d c)" using queues_ok_live(2) a by blast
  ultimately show "wc_needReWatch (wd_heap d c) \<and> wc_queue (wd_heap d c) = [] \<and> count (placed d) c = 0"
    using silent_not_placed by (auto simp: silent_def stuck_def)
qed

text \<open>
  C15. A rewatch request can be lost, and the watcher with it. When the pending queue overflows
  while a notification is in flight, ScheduleAllChannelsForRewatch replaces the channel's queue
  by a rewatch event of revision 0; the commit of the notification in flight then pops it,
  because 0 is not above the largest revision sent. The channel stays registered and waits for
  its rewatch, but its queue is empty and fan-out skips it: from the reachable state below, no
  interleaving ever sends this watcher another event or the request to rewatch.
\<close>

theorem rewatch_request_can_be_lost:
  "\<exists>reg d. watch_step\<^sup>*\<^sup>* (watch_start 1) (reg, d) \<and> map_of (wd_channels d) 1 = Some 0
     \<and> never_notified (reg, d) 0"
proof -
  let ?evs = "replicate (Suc MAX_PENDING_EVENTS) (demo_event 3)"
  let ?d1 = "foldl Enqueue demo_flying ?evs"
  let ?s2 = "(demo_registered, FanOutOverflow ?d1)"
  let ?s3 = "DispatchLoop_end demo_registered (FanOutOverflow ?d1) demo_flight K_OK 0"
  have r1: "watch_step\<^sup>*\<^sup>* (watch_start 1) (demo_registered, ?d1)"
    using demo_flying_reachable enqueue_many_reachable by (rule rtranclp_trans)
  have "watch_step (demo_registered, ?d1) ?s2" by (rule ws_overflow)
  with r1 have r2: "watch_step\<^sup>*\<^sup>* (watch_start 1) ?s2" by (rule rtranclp.rtrancl_into_rtrancl)
  have inv1: "wd_inv ?d1" using watch_reachable_inv [OF _ r1] by simp
  have f1: "demo_flight \<in> set (wd_flights ?d1)"
    by (simp add: enqueue_many_facts demo_flying_facts del: replicate_Suc)
  have over: "wd_pendingOverflow ?d1"
    by (rule enqueue_many_overflow) (simp_all add: demo_flying_facts del: replicate_Suc)
  then have "demo_flight \<in> set (wd_flights (FanOutOverflow ?d1))"
    using f1 by (simp add: FanOutOverflow_def ScheduleAllChannelsForRewatch_def)
  then have "watch_step ?s2 ?s3" by (rule ws_end)
  with r2 have r3: "watch_step\<^sup>*\<^sup>* (watch_start 1) ?s3" by (rule rtranclp.rtrancl_into_rtrancl)
  have inv3: "wd_inv (snd ?s3)" using watch_reachable_inv [OF _ r3] by simp
  have "map_of (wd_channels ?d1) 1 = Some 0"
    by (simp add: enqueue_many_facts demo_flying_facts del: replicate_Suc)
  then have id1: "wc_watchId (wd_heap ?d1 0) = 1" by (rule queues_ok_live(3) [OF inv1])
  have "stuck (snd ?s3) (fl_channel demo_flight)
    \<and> wc_watchId (wd_heap (snd ?s3) (fl_channel demo_flight)) = wc_watchId (wd_heap ?d1 (fl_channel demo_flight))"
    using demo_flying_facts over
    by (intro overflow_during_flight [OF inv1 f1])
      (simp_all add: enqueue_many_facts demo_flight_def del: replicate_Suc)
  then have st: "stuck (snd ?s3) 0" and "wc_watchId (wd_heap (snd ?s3) 0) = 1"
    using id1 by (simp_all add: demo_flight_def)
  then have "map_of (wd_channels (snd ?s3)) 1 = Some 0"
    using inv3 st by (simp add: wd_inv_def table_ok_def stuck_def)
  then show ?thesis
    using r3 stuck_never_notified [OF inv3 st] by (metis prod.collapse)
qed


theorem dispatcher_queues_bounded_witness:
  "GetPendingEventCount demo_watched \<le> MAX_PENDING_EVENTS"
  using dispatcher_queues_bounded [OF _ demo_watched_reachable] by simp

lemma remove_watcher_exact_witness:
  "map_of (wd_channels demo_watched) 1 = Some 0
   \<and> map_of (wd_channels (snd (RemoveChannelsByWatcher demo_registered demo_watched ''h''))) 1 = None"
proof -
  have c: "map_of (wd_channels demo_watched) 1 = Some 0"
    and a: "wc_watcherAddr (wd_heap demo_watched 0) = ''h''"
    by (simp_all add: demo_watched_eq new_channel_def)
  then show ?thesis
    using remove_watcher_exact [OF _ demo_watched_reachable, of "''h''" 1] by simp
qed

end
