(* ===== verification/Leases.thy ===== *)
theory Leases
  imports MemoryKv TtlManager
begin

section \<open>Leases across the store and the expiry queue\<close>

text \<open>
  CoordinatorStore (src/datasystem/common/coordinator/coordinator_store.cpp) commits a lease in
  the KV store and then, without a common lock, schedules it in the TTL manager; the expiration
  thread takes due records out of the manager and only then asks the store to delete the key.
  This theory gives the two contracts that make this safe, as locales, interprets them on the
  models of the two components, and defines the interleaving of the threads as a step relation
  whose invariants are the properties: a live lease is never forgotten, and never ended early.
\<close>

subsection \<open>The two interfaces\<close>

text \<open>
  A store of leases: \<open>lease s k\<close> is the revision, generation and TTL of key \<open>k\<close>, \<open>ok n s\<close> says
  that the store is well-formed and has room for \<open>n\<close> more operations, and \<open>grants s op\<close> is the
  lease an operation hands to its caller.
\<close>

locale lease_store =
  fixes ok :: "nat \<Rightarrow> 's \<Rightarrow> bool"
    and lease :: "'s \<Rightarrow> string \<Rightarrow> (int \<times> u64 \<times> int) option"
    and bound :: "'s \<Rightarrow> int"
    and mutate :: "'s \<Rightarrow> 'op \<Rightarrow> 's"
    and grants :: "'s \<Rightarrow> 'op \<Rightarrow> (string \<times> int \<times> int \<times> u64) option"
    and expire :: "'s \<Rightarrow> string \<Rightarrow> int \<Rightarrow> u64 \<Rightarrow> 's"
  assumes lease_bound: "ok n s \<Longrightarrow> lease s k = Some (rv, g, t) \<Longrightarrow> rv \<le> bound s"
    and mutate_ok: "ok (Suc n) s \<Longrightarrow> ok n (mutate s op)"
    and mutate_bound: "ok (Suc n) s \<Longrightarrow> bound s \<le> bound (mutate s op)"
    and mutate_lease: "ok (Suc n) s \<Longrightarrow> lease (mutate s op) k = Some (rv, g, t) \<Longrightarrow>
      lease s k = Some (rv, g, t)
      \<or> grants s op = Some (k, t, rv, g)
        \<and> (bound s < rv \<or> (\<exists>g0 t0. lease s k = Some (rv, g0, t0) \<and> g0 < g))"
    and grants_lease: "ok (Suc n) s \<Longrightarrow> grants s op = Some (k, t, rv, g) \<Longrightarrow>
      lease (mutate s op) k = Some (rv, g, t)
        \<and> (bound s < rv \<or> (\<exists>g0 t0. lease s k = Some (rv, g0, t0) \<and> g0 < g))"
    and expire_ok: "ok (Suc n) s \<Longrightarrow> ok n (expire s k rv g)"
    and expire_bound: "ok (Suc n) s \<Longrightarrow> bound s \<le> bound (expire s k rv g)"
    and expire_lease: "ok (Suc n) s \<Longrightarrow> lease (expire s k rv g) k'
      = (if k' = k \<and> (\<exists>t > 0. lease s k = Some (rv, g, t)) then None else lease s k')"

text \<open>A queue of scheduled leases.\<close>

locale expiry_queue =
  fixes qok :: "'q \<Rightarrow> bool"
    and view :: "'q \<Rightarrow> string \<Rightarrow> TtlScheduleRecord option"
    and schedule :: "'q \<Rightarrow> int \<Rightarrow> string \<Rightarrow> int \<Rightarrow> int \<Rightarrow> u64 \<Rightarrow> 'q"
    and drain :: "'q \<Rightarrow> int \<Rightarrow> 'q \<times> ExpiredTtlRecord list"
  assumes view_key: "qok q \<Longrightarrow> view q k = Some r \<Longrightarrow> tr_key r = k"
    and schedule_ok: "qok q \<Longrightarrow> qok (schedule q now k t rv g)"
    and schedule_view: "qok q \<Longrightarrow> view (schedule q now k t rv g) = schedule_spec (view q) now k t rv g"
    and drain_ok: "qok q \<Longrightarrow> qok (fst (drain q now))"
    and drain_due: "qok q \<Longrightarrow> x \<in> set (snd (drain q now)) \<Longrightarrow>
      \<exists>r. view q (er_key x) = Some r \<and> x = expired_of r \<and> tr_expireTime r \<le> now"
    and drain_view: "qok q \<Longrightarrow> view (fst (drain q now)) k
      = (if k \<in> er_key ` set (snd (drain q now)) then None else view q k)"

subsection \<open>The store and the manager provide them\<close>

definition kv_ok :: "nat \<Rightarrow> MemoryKvStore \<Rightarrow> bool" where
  "kv_ok n s \<longleftrightarrow> kv_inv s \<and> mk_revision s + int n \<le> INT64_MAX
     \<and> (\<exists>m. gens_below m s \<and> m + n < 2 ^ 64)"

definition kv_lease :: "MemoryKvStore \<Rightarrow> string \<Rightarrow> (int \<times> u64 \<times> int) option" where
  "kv_lease s k = map_option (\<lambda>e. (ve_modRevision e, ve_ttlGeneration e, ve_ttlMs e))
                             (map_of (mk_data s) k)"

definition kv_mutate :: "MemoryKvStore \<Rightarrow> KvOp \<Rightarrow> MemoryKvStore" where
  "kv_mutate s op = fst (kv_step s op)"

text \<open>The lease a successful Put or KeepAlive returns to CoordinatorStore.\<close>

fun kv_grants :: "MemoryKvStore \<Rightarrow> KvOp \<Rightarrow> (string \<times> int \<times> int \<times> u64) option" where
  "kv_grants s (OpPut k v ttl ev em eg) =
     (case fst (Put s k v ttl ev em eg) of
        Inr (version, revision, gen) \<Rightarrow> Some (k, ttl, revision, gen) | Inl _ \<Rightarrow> None)"
| "kv_grants s (OpKeepAlive k em) =
     (case fst (KeepAlive s k em) of
        Inr (ttl, remaining, revision, gen) \<Rightarrow> Some (k, ttl, revision, gen) | Inl _ \<Rightarrow> None)"
| "kv_grants s op = None"

definition kv_expire :: "MemoryKvStore \<Rightarrow> string \<Rightarrow> int \<Rightarrow> u64 \<Rightarrow> MemoryKvStore" where
  "kv_expire s k rv g = fst (snd (DeleteIfTtlExpired s k rv g))"

lemma kv_ok_step:
  assumes "kv_ok (Suc n) s"
  shows "kv_ok n (fst (kv_step s op))" "mk_revision s \<le> mk_revision (fst (kv_step s op))"
proof -
  obtain m where inv: "kv_inv s" and room: "mk_revision s < INT64_MAX"
    and fit: "mk_revision s + int (Suc n) \<le> INT64_MAX" and m: "gens_below m s" "m + Suc n < 2 ^ 64"
    using assms by (auto simp: kv_ok_def)
  have r1: "1 \<le> mk_revision s" and ok: "omap_ok (mk_data s)" using inv by (auto simp: kv_inv_def)
  note rv = kv_step_revision [OF r1 room, of op]
  show "mk_revision s \<le> mk_revision (fst (kv_step s op))" using rv by simp
  have "gens_below (m + 1) (fst (kv_step s op))" using gens_below_step [OF ok m(1)] m(2) by simp
  then show "kv_ok n (fst (kv_step s op))"
    using kv_inv_step [OF inv room] rv(2) fit m(2) unfolding kv_ok_def
    by (intro conjI exI [of _ "m + 1"]) auto
qed

lemma kv_ok_facts:
  assumes "kv_ok (Suc n) s"
  shows "omap_ok (mk_data s)" "wrap_s64 (mk_revision s + 1) = mk_revision s + 1"
    "map_of (mk_data s) k = Some e \<Longrightarrow> ve_modRevision e \<le> mk_revision s"
    "map_of (mk_data s) k = Some e \<Longrightarrow> ve_ttlGeneration e < ve_ttlGeneration e + 1"
proof -
  obtain m where inv: "kv_inv s" and room: "mk_revision s < INT64_MAX"
    and m: "gens_below m s" "m + Suc n < 2 ^ 64"
    using assms by (auto simp: kv_ok_def)
  show "omap_ok (mk_data s)" using inv by (simp add: kv_inv_def)
  show "wrap_s64 (mk_revision s + 1) = mk_revision s + 1"
    using inv room by (intro wrap_s64_succ) (auto simp: kv_inv_def)
  show "map_of (mk_data s) k = Some e \<Longrightarrow> ve_modRevision e \<le> mk_revision s"
    using inv by (auto simp: kv_inv_def entry_ok_def)
  show "map_of (mk_data s) k = Some e \<Longrightarrow> ve_ttlGeneration e < ve_ttlGeneration e + 1"
    using m by (intro gen_succ_greater [of _ m]) (auto simp: gens_below_def)
qed

text \<open>The effect of a step on the leases, by operation.\<close>

lemma kv_mutate_cases:
  assumes "kv_ok (Suc n) s"
  obtains (same) "kv_grants s op = None" "\<forall>k. kv_lease (kv_mutate s op) k \<in> {None, kv_lease s k}"
  | (grant) k t rv g where "kv_grants s op = Some (k, t, rv, g)"
      "kv_lease (kv_mutate s op) = (kv_lease s)(k \<mapsto> (rv, g, t))"
      "mk_revision s < rv \<or> (\<exists>g0 t0. kv_lease s k = Some (rv, g0, t0) \<and> g0 < g)"
proof (cases op)
  case (OpPut k v ttl ev em eg)
  note facts = kv_ok_facts [OF assms]
  show ?thesis
  proof (cases rule: Put_cases [of s k ev em eg v ttl])
    case (fail c)
    then show ?thesis using same OpPut by (simp add: kv_mutate_def)
  next
    case (commit e r)
    have "ve_modRevision e = r" "ve_ttlMs e = ttl"
      using commit(3) by (auto simp: put_entry_def split: option.splits)
    then show ?thesis
      using commit facts(1,2) OpPut
      by (intro grant [of k ttl r "ve_ttlGeneration e"])
        (auto simp: kv_mutate_def kv_lease_def fun_eq_iff)
  qed
next
  case (OpDelete k re em)
  show ?thesis
  proof (cases rule: Delete_cases [of s k re "[]" em])
    case (noop res)
    then show ?thesis using same OpDelete by (simp add: kv_mutate_def)
  next
    case (commit r)
    then show ?thesis
      using OpDelete by (intro same) (simp_all add: kv_mutate_def kv_lease_def map_of_filter_notin)
  qed
next
  case (OpExpire k r g)
  show ?thesis
  proof (cases rule: DeleteIfTtlExpired_cases [of s k r g])
    case noop
    then show ?thesis using same OpExpire by (simp add: kv_mutate_def)
  next
    case (commit e r')
    then show ?thesis using OpExpire by (intro same) (simp_all add: kv_mutate_def kv_lease_def)
  qed
next
  case (OpKeepAlive k em)
  note facts = kv_ok_facts [OF assms]
  show ?thesis
  proof (cases rule: KeepAlive_cases [of s k em])
    case (noop c)
    then show ?thesis using same OpKeepAlive by (simp add: kv_mutate_def)
  next
    case (commit e)
    then show ?thesis
      using facts(1) facts(4) [OF commit(1)] OpKeepAlive
      by (intro grant [of k "ve_ttlMs e" "ve_modRevision e" "ve_ttlGeneration e + 1"])
        (auto simp: kv_mutate_def kv_lease_def fun_eq_iff)
  qed
qed

lemma kv_expire_mutate: "kv_expire s k rv g = kv_mutate s (OpExpire k rv g)"
  by (simp add: kv_expire_def kv_mutate_def)

lemma kv_expire_lease:
  "kv_lease (kv_expire s k rv g) k'
     = (if k' = k \<and> (\<exists>t > 0. kv_lease s k = Some (rv, g, t)) then None else kv_lease s k')"
proof (cases rule: DeleteIfTtlExpired_cases [of s k rv g])
  case noop
  have "\<not> (\<exists>t > 0. kv_lease s k = Some (rv, g, t))"
  proof
    assume "\<exists>t > 0. kv_lease s k = Some (rv, g, t)"
    then obtain e where "map_of (mk_data s) k = Some e" "ve_modRevision e = rv"
      "ve_ttlGeneration e = g" "0 < ve_ttlMs e"
      by (auto simp: kv_lease_def)
    then show False using noop DeleteIfTtlExpired_commit [OF _ _ _ _ refl] by fastforce
  qed
  then show ?thesis using noop by (auto simp: kv_expire_def)
next
  case (commit e r')
  then show ?thesis by (auto simp: kv_expire_def kv_lease_def)
qed

interpretation kvl: lease_store kv_ok kv_lease mk_revision kv_mutate kv_grants kv_expire
proof
  fix n s k rv g t op
  show "rv \<le> mk_revision s" if "kv_ok n s" "kv_lease s k = Some (rv, g, t)"
    using that by (auto simp: kv_ok_def kv_lease_def kv_inv_def entry_ok_def)
  show "kv_ok n (kv_mutate s op)" "mk_revision s \<le> mk_revision (kv_mutate s op)"
    "kv_ok n (kv_expire s k rv g)" "mk_revision s \<le> mk_revision (kv_expire s k rv g)"
    if "kv_ok (Suc n) s"
    using kv_ok_step [OF that] unfolding kv_expire_mutate kv_mutate_def by blast+
  show "kv_lease s k = Some (rv, g, t) \<or> kv_grants s op = Some (k, t, rv, g)
      \<and> (mk_revision s < rv \<or> (\<exists>g0 t0. kv_lease s k = Some (rv, g0, t0) \<and> g0 < g))"
    if "kv_ok (Suc n) s" "kv_lease (kv_mutate s op) k = Some (rv, g, t)"
    using that(1)
  proof (cases rule: kv_mutate_cases [where op = op])
    case same
    then have "kv_lease (kv_mutate s op) k \<in> {None, kv_lease s k}" by blast
    then show ?thesis using that(2) by auto
  next
    case (grant k' t' rv' g')
    then show ?thesis using that(2) by (auto split: if_splits)
  qed
  show "kv_lease (kv_mutate s op) k = Some (rv, g, t)
      \<and> (mk_revision s < rv \<or> (\<exists>g0 t0. kv_lease s k = Some (rv, g0, t0) \<and> g0 < g))"
    if "kv_ok (Suc n) s" "kv_grants s op = Some (k, t, rv, g)"
    using that(1)
  proof (cases rule: kv_mutate_cases [where op = op])
    case same
    then show ?thesis using that(2) by simp
  next
    case (grant k' t' rv' g')
    then show ?thesis using that(2) by auto
  qed
  show "kv_lease (kv_expire s k rv g) k'
      = (if k' = k \<and> (\<exists>t > 0. kv_lease s k = Some (rv, g, t)) then None else kv_lease s k')" for k'
    by (rule kv_expire_lease)
qed

definition ttl_ok :: "TtlManager \<Rightarrow> bool" where
  "ttl_ok m \<longleftrightarrow> ttl_inv m \<and> tm_running m \<and> tm_hasCallback m"

lemma Schedule_flags [simp]:
  "tm_running (Schedule m now k t rv g) = tm_running m"
  "tm_hasCallback (Schedule m now k t rv g) = tm_hasCallback m"
  by (simp_all add: Schedule_def Let_def split: option.splits)

interpretation tmq: expiry_queue ttl_ok ttl_view Schedule CheckExpiration
proof
  fix q k r now t rv g x
  show "tr_key r = k" if "ttl_ok q" "ttl_view q k = Some r"
    using that ttl_view_iff by (auto simp: ttl_ok_def)
  show "ttl_ok (Schedule q now k t rv g)"
    "ttl_view (Schedule q now k t rv g) = schedule_spec (ttl_view q) now k t rv g"
    "ttl_ok (fst (CheckExpiration q now))" if "ttl_ok q"
    using that by (simp_all add: ttl_ok_def Schedule_view)
  note facts = expiration_pass_facts [where m = q and now = now,
      OF _ _ _ prod.collapse [symmetric]]
  show "\<exists>r. ttl_view q (er_key x) = Some r \<and> x = expired_of r \<and> tr_expireTime r \<le> now"
    if "ttl_ok q" "x \<in> set (snd (CheckExpiration q now))"
  proof -
    have "map_option expired_of (ttl_view q (er_key x)) = Some x" "er_key x \<in> due_keys q now"
      using that facts(5) [of x] facts(4) by (auto simp: ttl_ok_def)
    then show ?thesis by (auto simp: due_keys_def)
  qed
  show "ttl_view (fst (CheckExpiration q now)) k
      = (if k \<in> er_key ` set (snd (CheckExpiration q now)) then None else ttl_view q k)" if "ttl_ok q"
    using that facts(6) [of k] by (simp add: ttl_ok_def)
qed

subsection \<open>Tracking of leases\<close>

text \<open>
  Where a lease may be on its way to expiry: in a Schedule call that is still to be made, in the
  queue, or among the records drained from the queue and not yet handed to the store.
\<close>

type_synonym lease_call = "string \<times> int \<times> int \<times> u64"

definition tracked :: "(string \<Rightarrow> TtlScheduleRecord option) \<Rightarrow> lease_call list \<Rightarrow> ExpiredTtlRecord list
    \<Rightarrow> string \<Rightarrow> int \<Rightarrow> u64 \<Rightarrow> bool" where
  "tracked V calls expd k rv g \<longleftrightarrow>
     (\<exists>t > 0. (k, t, rv, g) \<in> set calls)
     \<or> (\<exists>r. V k = Some r \<and> tr_revision r = rv \<and> tr_ttlGeneration r = g)
     \<or> (\<exists>x \<in> set expd. er_key x = k \<and> er_revision x = rv \<and> er_ttlGeneration x = g)"

text \<open>Every lease that can expire is tracked.\<close>

definition covered :: "(string \<Rightarrow> (int \<times> u64 \<times> int) option) \<Rightarrow> (string \<Rightarrow> TtlScheduleRecord option)
    \<Rightarrow> lease_call list \<Rightarrow> ExpiredTtlRecord list \<Rightarrow> bool" where
  "covered L V calls expd \<longleftrightarrow>
     (\<forall>k rv g t. L k = Some (rv, g, t) \<and> 0 < t \<longrightarrow> tracked V calls expd k rv g)"

text \<open>Nothing named by a predicate is newer than the lease the store holds.\<close>

definition not_newer :: "(string \<Rightarrow> (int \<times> u64 \<times> int) option) \<Rightarrow> int
    \<Rightarrow> (string \<Rightarrow> int \<Rightarrow> u64 \<Rightarrow> bool) \<Rightarrow> bool" where
  "not_newer L b P \<longleftrightarrow>
     (\<forall>k rv g. P k rv g \<longrightarrow> rv \<le> b
        \<and> (\<forall>rv' g' t'. L k = Some (rv', g', t') \<longrightarrow> lease_le (rv, g) (rv', g')))"

lemma lease_le_refl [simp]: "lease_le a a"
  by (simp add: lease_le_def)

lemma lease_le_antisym: "lease_le a b \<Longrightarrow> lease_le b a \<Longrightarrow> a = b"
  by (auto simp: lease_le_def prod_eq_iff)

lemma not_newerD:
  "not_newer L b P \<Longrightarrow> P k rv g \<Longrightarrow> rv \<le> b"
  "not_newer L b P \<Longrightarrow> P k rv g \<Longrightarrow> L k = Some (rv', g', t') \<Longrightarrow> lease_le (rv, g) (rv', g')"
  by (auto simp: not_newer_def)

lemma not_newer_mono: "not_newer L b P \<Longrightarrow> (\<And>k rv g. Q k rv g \<Longrightarrow> P k rv g) \<Longrightarrow> not_newer L b Q"
  unfolding not_newer_def by blast

text \<open>The calls that a committed operation owes to the queue.\<close>

definition owed :: "lease_call option \<Rightarrow> lease_call list" where
  "owed gr = (case gr of Some (k, t, rv, g) \<Rightarrow> if 0 < t then [(k, t, rv, g)] else [] | None \<Rightarrow> [])"

locale lease_protocol = lease_store ok lease bound mutate grants expire
    + expiry_queue qok view schedule drain
  for ok :: "nat \<Rightarrow> 's \<Rightarrow> bool"
    and lease :: "'s \<Rightarrow> string \<Rightarrow> (int \<times> u64 \<times> int) option"
    and bound :: "'s \<Rightarrow> int"
    and mutate :: "'s \<Rightarrow> 'op \<Rightarrow> 's"
    and grants :: "'s \<Rightarrow> 'op \<Rightarrow> (string \<times> int \<times> int \<times> u64) option"
    and expire :: "'s \<Rightarrow> string \<Rightarrow> int \<Rightarrow> u64 \<Rightarrow> 's"
    and qok :: "'q \<Rightarrow> bool"
    and view :: "'q \<Rightarrow> string \<Rightarrow> TtlScheduleRecord option"
    and schedule :: "'q \<Rightarrow> int \<Rightarrow> string \<Rightarrow> int \<Rightarrow> int \<Rightarrow> u64 \<Rightarrow> 'q"
    and drain :: "'q \<Rightarrow> int \<Rightarrow> 'q \<times> ExpiredTtlRecord list"
begin

lemma mutate_not_newer:
  assumes ok: "ok (Suc n) s" and nn: "not_newer (lease s) (bound s) P"
    and Q: "\<And>k rv g. Q k rv g \<Longrightarrow> P k rv g \<or> (\<exists>t. grants s op = Some (k, t, rv, g))"
  shows "not_newer (lease (mutate s op)) (bound (mutate s op)) Q"
  unfolding not_newer_def
proof (intro allI impI conjI)
  fix k rv g assume q: "Q k rv g"
  have b: "bound s \<le> bound (mutate s op)" by (rule mutate_bound [OF ok])
  have ok': "ok n (mutate s op)" by (rule mutate_ok [OF ok])
  show "rv \<le> bound (mutate s op)"
    using Q [OF q] not_newerD(1) [OF nn] b grants_lease [OF ok] lease_bound [OF ok'] by fastforce
  fix rv' g' t' assume l': "lease (mutate s op) k = Some (rv', g', t')"
  from Q [OF q] show "lease_le (rv, g) (rv', g')"
  proof
    assume p: "P k rv g"
    note nn1 = not_newerD(1) [OF nn p] and nn2 = not_newerD(2) [OF nn p]
    from mutate_lease [OF ok l'] show ?thesis
    proof (elim disjE conjE exE)
      assume "lease s k = Some (rv', g', t')"
      then show ?thesis by (rule nn2)
    next
      assume "bound s < rv'"
      then show ?thesis using nn1 by (simp add: lease_le_def)
    next
      fix g0 t0 assume "lease s k = Some (rv', g0, t0)" and "g0 < g'"
      then show ?thesis using nn2 [of rv' g0 t0] by (auto simp: lease_le_def)
    qed
  next
    assume "\<exists>t. grants s op = Some (k, t, rv, g)"
    then show ?thesis using grants_lease [OF ok] l' by fastforce
  qed
qed

lemma mutate_covered:
  assumes "ok (Suc n) s" and "covered (lease s) V calls expd"
  shows "covered (lease (mutate s op)) V (calls @ owed (grants s op)) expd"
  unfolding covered_def
proof (intro allI impI, elim conjE)
  fix k rv g and t :: int assume l: "lease (mutate s op) k = Some (rv, g, t)" and t: "0 < t"
  from mutate_lease [OF assms(1) l] show "tracked V (calls @ owed (grants s op)) expd k rv g"
  proof
    assume "lease s k = Some (rv, g, t)"
    then have "tracked V calls expd k rv g" using assms(2) t by (auto simp: covered_def)
    then show ?thesis by (auto simp: tracked_def)
  next
    assume "grants s op = Some (k, t, rv, g)
        \<and> (bound s < rv \<or> (\<exists>g0 t0. lease s k = Some (rv, g0, t0) \<and> g0 < g))"
    then have "(k, t, rv, g) \<in> set (owed (grants s op))" using t by (simp add: owed_def)
    then show ?thesis using t by (auto simp: tracked_def)
  qed
qed

lemma schedule_tracked_back:
  assumes "qok q" and "(k0, t0, rv0, g0) \<in> set calls"
    and "tracked (view (schedule q now k0 t0 rv0 g0)) (remove1 (k0, t0, rv0, g0) calls) expd k rv g"
  shows "tracked (view q) calls expd k rv g"
proof -
  have "\<exists>t > 0. (k, t, rv, g) \<in> set calls"
    if "\<exists>t > 0. (k, t, rv, g) \<in> set (remove1 (k0, t0, rv0, g0) calls)"
    using that set_remove1_subset by fastforce
  then show ?thesis
    using assms by (auto simp: tracked_def schedule_view schedule_spec_older split: if_splits)
qed

lemma schedule_covered:
  assumes q: "qok q" and call: "(k0, t0, rv0, g0) \<in> set calls"
    and nn: "not_newer L b (tracked (view q) calls expd)" and cov: "covered L (view q) calls expd"
  shows "covered L (view (schedule q now k0 t0 rv0 g0)) (remove1 (k0, t0, rv0, g0) calls) expd"
  unfolding covered_def
proof (intro allI impI, elim conjE)
  fix k rv g and t :: int assume L: "L k = Some (rv, g, t)" and t: "0 < t"
  let ?V' = "view (schedule q now k0 t0 rv0 g0)"
  let ?calls' = "remove1 (k0, t0, rv0, g0) calls"
  have V': "?V' = schedule_spec (view q) now k0 t0 rv0 g0" by (rule schedule_view [OF q])
  have tr: "tracked (view q) calls expd k rv g" using cov L t by (auto simp: covered_def)
  show "tracked ?V' ?calls' expd k rv g"
  proof (cases "k = k0 \<and> 0 < t0")
    case False
    then have "(k, t', rv, g) \<in> set ?calls'" if "0 < t'" "(k, t', rv, g) \<in> set calls" for t'
      using that in_set_remove1 [of "(k, t', rv, g)" "(k0, t0, rv0, g0)" calls] by blast
    moreover have "?V' k = view q k" using False by (auto simp: V' schedule_spec_older)
    ultimately show ?thesis using tr by (auto simp: tracked_def)
  next
    case True
    then have "tracked (view q) calls expd k rv0 g0" using call by (auto simp: tracked_def)
    then have le0: "lease_le (rv0, g0) (rv, g)" using not_newerD(2) [OF nn _ L] by blast
    have leV: "lease_le (tr_revision r, tr_ttlGeneration r) (rv, g)" if "view q k = Some r" for r
      using that not_newerD(2) [OF nn _ L, of "tr_revision r" "tr_ttlGeneration r"]
      by (auto simp: tracked_def)
    have call': "(k, t', rv, g) \<in> set ?calls' \<or> (rv0, g0) = (rv, g)"
      if "(k, t', rv, g) \<in> set calls" for t'
      using that in_set_remove1 [of "(k, t', rv, g)" "(k0, t0, rv0, g0)" calls] by blast
    show ?thesis
    proof (cases "(rv0, g0) = (rv, g)")
      case same: True
      have "\<not> (case view q k0 of None \<Rightarrow> False | Some r \<Rightarrow> older_lease rv0 g0 r)"
        using leV same True by (cases "view q k0") (simp_all add: older_lease_iff)
      then have "?V' k = Some \<lparr>tr_key = k0, tr_revision = rv0, tr_ttlGeneration = g0,
                 tr_expireTime = expire_time now t0\<rparr>"
        using True unfolding V' schedule_spec_older by simp
      then show ?thesis using same by (simp add: tracked_def)
    next
      case other: False
      have "?V' k = Some r" if r: "view q k = Some r" "tr_revision r = rv" "tr_ttlGeneration r = g" for r
      proof -
        have "older_lease rv0 g0 r"
          using other le0 lease_le_antisym [of "(rv, g)" "(rv0, g0)"] r by (auto simp: older_lease_iff)
        then show ?thesis using True r(1) by (simp add: V' schedule_spec_older)
      qed
      then show ?thesis
        using tr call' other unfolding tracked_def by blast
    qed
  qed
qed

lemma drain_tracked:
  assumes q: "qok q"
  shows "tracked (view (fst (drain q now))) calls (expd @ snd (drain q now)) k rv g
    \<longleftrightarrow> tracked (view q) calls expd k rv g"
proof -
  have "(\<exists>r. view (fst (drain q now)) k = Some r \<and> tr_revision r = rv \<and> tr_ttlGeneration r = g)
      \<or> (\<exists>x \<in> set (snd (drain q now)). er_key x = k \<and> er_revision x = rv \<and> er_ttlGeneration x = g)
      \<longleftrightarrow> (\<exists>r. view q k = Some r \<and> tr_revision r = rv \<and> tr_ttlGeneration r = g)"
  proof (cases "k \<in> er_key ` set (snd (drain q now))")
    case True
    then obtain x r where x: "x \<in> set (snd (drain q now))" "er_key x = k"
      "view q k = Some r" "x = expired_of r"
      using drain_due [OF q] by blast
    have "y = x" if "y \<in> set (snd (drain q now))" "er_key y = k" for y
      using drain_due [OF q that(1)] that(2) x by auto
    then have "(\<exists>y \<in> set (snd (drain q now)). er_key y = k \<and> er_revision y = rv \<and> er_ttlGeneration y = g)
        \<longleftrightarrow> er_revision x = rv \<and> er_ttlGeneration x = g"
      using x(1,2) by blast
    then show ?thesis using x(3,4) True drain_view [OF q, of now k] by (simp add: expired_of_def)
  next
    case False
    then show ?thesis using drain_view [OF q, of now k] by auto
  qed
  then show ?thesis unfolding tracked_def set_append by blast
qed

lemma expire_covered:
  assumes ok: "ok (Suc n) s" and x: "x \<in> set expd" and cov: "covered (lease s) V calls expd"
  shows "covered (lease (expire s (er_key x) (er_revision x) (er_ttlGeneration x))) V calls
    (remove1 x expd)"
  unfolding covered_def
proof (intro allI impI, elim conjE)
  fix k rv g and t :: int
  assume L: "lease (expire s (er_key x) (er_revision x) (er_ttlGeneration x)) k = Some (rv, g, t)"
    and t: "0 < t"
  have L0: "lease s k = Some (rv, g, t)"
    and ne: "\<not> (k = er_key x \<and> rv = er_revision x \<and> g = er_ttlGeneration x)"
    using L t expire_lease [OF ok, of "er_key x" "er_revision x" "er_ttlGeneration x" k]
    by (auto split: if_splits)
  have "tracked V calls expd k rv g" using cov L0 t by (auto simp: covered_def)
  moreover have "y \<in> set (remove1 x expd)"
    if "y \<in> set expd" "er_key y = k" "er_revision y = rv" "er_ttlGeneration y = g" for y
  proof -
    have "y \<noteq> x" using that ne by auto
    then show ?thesis using that(1) by (simp add: in_set_remove1)
  qed
  ultimately show "tracked V calls (remove1 x expd) k rv g" unfolding tracked_def by blast
qed

lemma expire_not_newer:
  assumes ok: "ok (Suc n) s" and nn: "not_newer (lease s) (bound s) P"
  shows "not_newer (lease (expire s k rv g)) (bound (expire s k rv g)) P"
  unfolding not_newer_def
proof (intro allI impI conjI)
  fix k' rv' g' assume p: "P k' rv' g'"
  show "rv' \<le> bound (expire s k rv g)"
    using not_newerD(1) [OF nn p] expire_bound [OF ok, of k rv g] by simp
  fix rv2 g2 t2 assume "lease (expire s k rv g) k' = Some (rv2, g2, t2)"
  then have "lease s k' = Some (rv2, g2, t2)"
    using expire_lease [OF ok, of k rv g k'] by (simp split: if_splits)
  then show "lease_le (rv', g') (rv2, g2)" by (rule not_newerD(2) [OF nn p])
qed

end

interpretation lp: lease_protocol kv_ok kv_lease mk_revision kv_mutate kv_grants kv_expire
  ttl_ok ttl_view Schedule CheckExpiration
  by unfold_locales

subsection \<open>The interleaving of the threads\<close>

text \<open>
  The state that the RPC threads, the expiration thread and the clock share, with the calls and
  records they hold between two critical sections. \<open>ls_granted\<close> is a history variable: when a
  lease was committed and for how long.
\<close>

record LeaseSystem =
  ls_kv :: MemoryKvStore
  ls_ttl :: TtlManager
  ls_calls :: "lease_call list"
  ls_expired :: "ExpiredTtlRecord list"
  ls_now :: int
  ls_granted :: "(string \<times> int \<times> u64) \<rightharpoonup> (int \<times> int)"

definition grant_history :: "lease_call option \<Rightarrow> int \<Rightarrow> ((string \<times> int \<times> u64) \<rightharpoonup> (int \<times> int))
    \<Rightarrow> ((string \<times> int \<times> u64) \<rightharpoonup> (int \<times> int))" where
  "grant_history gr now G = (case gr of None \<Rightarrow> G | Some (k, t, rv, g) \<Rightarrow> G((k, rv, g) \<mapsto> (now, t)))"

text \<open>
  Put, KeepAlive and Delete commit in the store and owe a Schedule call for a lease with a
  positive TTL; the call comes later, as do the deletions of drained records. The sum of the
  clock and a TTL stays within 64 bits.
\<close>

inductive lease_step :: "LeaseSystem \<Rightarrow> LeaseSystem \<Rightarrow> bool" where
  lt_tick: "ls_now s \<le> t \<Longrightarrow> lease_step s (s\<lparr>ls_now := t\<rparr>)"
| lt_commit: "\<forall>k r g. op \<noteq> OpExpire k r g \<Longrightarrow>
      lease_step s (s\<lparr>ls_kv := kv_mutate (ls_kv s) op,
      ls_calls := ls_calls s @ owed (kv_grants (ls_kv s) op),
      ls_granted := grant_history (kv_grants (ls_kv s) op) (ls_now s) (ls_granted s)\<rparr>)"
| lt_schedule: "(k, t, rv, g) \<in> set (ls_calls s) \<Longrightarrow>
      ls_now s + t * NANOS_PER_MILLI \<le> INT64_MAX \<Longrightarrow>
      lease_step s (s\<lparr>ls_ttl := Schedule (ls_ttl s) (ls_now s) k t rv g,
        ls_calls := remove1 (k, t, rv, g) (ls_calls s)\<rparr>)"
| lt_drain: "lease_step s (s\<lparr>ls_ttl := fst (CheckExpiration (ls_ttl s) (ls_now s)),
      ls_expired := ls_expired s @ snd (CheckExpiration (ls_ttl s) (ls_now s))\<rparr>)"
| lt_expire: "x \<in> set (ls_expired s) \<Longrightarrow>
      lease_step s (s\<lparr>ls_kv := kv_expire (ls_kv s) (er_key x) (er_revision x) (er_ttlGeneration x),
        ls_expired := remove1 x (ls_expired s)\<rparr>)"

definition lease_start :: LeaseSystem where
  "lease_start = \<lparr>ls_kv = started_store, ls_ttl = Ttl_Start (SetExpireCallback new_TtlManager True),
     ls_calls = [], ls_expired = [], ls_now = 0, ls_granted = Map.empty\<rparr>"

inductive lease_reach :: "nat \<Rightarrow> LeaseSystem \<Rightarrow> bool" where
  reach_start: "lease_reach 0 lease_start"
| reach_step: "lease_reach n s \<Longrightarrow> lease_step s s' \<Longrightarrow> lease_reach (Suc n) s'"

subsection \<open>Invariant of the interleaving\<close>

abbreviation ls_tracked :: "LeaseSystem \<Rightarrow> string \<Rightarrow> int \<Rightarrow> u64 \<Rightarrow> bool" where
  "ls_tracked s \<equiv> tracked (ttl_view (ls_ttl s)) (ls_calls s) (ls_expired s)"

definition granted_for :: "LeaseSystem \<Rightarrow> string \<Rightarrow> int \<Rightarrow> u64 \<Rightarrow> bool" where
  "granted_for s k rv g \<longleftrightarrow> ls_granted s (k, rv, g) \<noteq> None"

text \<open>
  The clock against the history: a call still to be made was granted before now, a scheduled
  record ends no earlier than the grant allows, and a drained record has run its time.
\<close>

type_synonym grants_of = "(string \<times> int \<times> u64) \<rightharpoonup> (int \<times> int)"

definition calls_timed :: "grants_of \<Rightarrow> int \<Rightarrow> lease_call list \<Rightarrow> bool" where
  "calls_timed G now calls \<longleftrightarrow> (\<forall>k t rv g. (k, t, rv, g) \<in> set calls \<longrightarrow>
     0 < t \<and> (\<exists>t0. G (k, rv, g) = Some (t0, t) \<and> t0 \<le> now))"

definition queue_timed :: "grants_of \<Rightarrow> (string \<Rightarrow> TtlScheduleRecord option) \<Rightarrow> bool" where
  "queue_timed G V \<longleftrightarrow> (\<forall>k r. V k = Some r \<longrightarrow>
     (\<exists>t0 t. G (k, tr_revision r, tr_ttlGeneration r) = Some (t0, t)
        \<and> t0 + t * NANOS_PER_MILLI \<le> tr_expireTime r))"

definition drained_timed :: "grants_of \<Rightarrow> int \<Rightarrow> ExpiredTtlRecord list \<Rightarrow> bool" where
  "drained_timed G now expd \<longleftrightarrow> (\<forall>x \<in> set expd.
     (\<exists>t0 t. G (er_key x, er_revision x, er_ttlGeneration x) = Some (t0, t)
        \<and> t0 + t * NANOS_PER_MILLI \<le> now))"

definition leases_timed :: "grants_of \<Rightarrow> (string \<Rightarrow> (int \<times> u64 \<times> int) option) \<Rightarrow> bool" where
  "leases_timed G L \<longleftrightarrow> (\<forall>k rv g t. L k = Some (rv, g, t) \<longrightarrow> (\<exists>t0. G (k, rv, g) = Some (t0, t)))"

lemmas timed_defs = calls_timed_def queue_timed_def drained_timed_def leases_timed_def

definition timed :: "LeaseSystem \<Rightarrow> bool" where
  "timed s \<longleftrightarrow> 0 \<le> ls_now s
     \<and> calls_timed (ls_granted s) (ls_now s) (ls_calls s)
     \<and> queue_timed (ls_granted s) (ttl_view (ls_ttl s))
     \<and> drained_timed (ls_granted s) (ls_now s) (ls_expired s)
     \<and> leases_timed (ls_granted s) (kv_lease (ls_kv s))"

definition lease_inv :: "nat \<Rightarrow> LeaseSystem \<Rightarrow> bool" where
  "lease_inv n s \<longleftrightarrow> kv_ok n (ls_kv s) \<and> ttl_ok (ls_ttl s)
     \<and> covered (kv_lease (ls_kv s)) (ttl_view (ls_ttl s)) (ls_calls s) (ls_expired s)
     \<and> not_newer (kv_lease (ls_kv s)) (mk_revision (ls_kv s)) (ls_tracked s)
     \<and> not_newer (kv_lease (ls_kv s)) (mk_revision (ls_kv s)) (granted_for s)
     \<and> timed s"

lemma kv_ok_Suc: "kv_ok (Suc n) s \<Longrightarrow> kv_ok n s"
  by (auto simp: kv_ok_def intro: add_lessD1)

lemma grant_fresh:
  assumes inv: "lease_inv (Suc n) s" and gr: "kv_grants (ls_kv s) op = Some (k, t, rv, g)"
  shows "ls_granted s (k, rv, g) = None"
proof (rule ccontr)
  assume "ls_granted s (k, rv, g) \<noteq> None"
  then have gf: "granted_for s k rv g" by (simp add: granted_for_def)
  have ok: "kv_ok (Suc n) (ls_kv s)"
    and nn: "not_newer (kv_lease (ls_kv s)) (mk_revision (ls_kv s)) (granted_for s)"
    using inv by (auto simp: lease_inv_def)
  have "mk_revision (ls_kv s) < rv \<or> (\<exists>g0 t0. kv_lease (ls_kv s) k = Some (rv, g0, t0) \<and> g0 < g)"
    using kvl.grants_lease [OF ok gr] by blast
  then show False
  proof (elim disjE exE conjE)
    assume "mk_revision (ls_kv s) < rv"
    then show False using not_newerD(1) [OF nn gf] by simp
  next
    fix g0 t0 assume "kv_lease (ls_kv s) k = Some (rv, g0, t0)" "g0 < g"
    then show False using not_newerD(2) [OF nn gf] by (auto simp: lease_le_def)
  qed
qed

lemma grant_history_mono:
  assumes "lease_inv (Suc n) s" and "ls_granted s x = Some y"
  shows "grant_history (kv_grants (ls_kv s) op) (ls_now s) (ls_granted s) x = Some y"
proof (cases "kv_grants (ls_kv s) op")
  case (Some a)
  obtain k t rv g where a: "a = (k, t, rv, g)" by (cases a)
  have "ls_granted s (k, rv, g) = None" using grant_fresh [OF assms(1)] Some a by simp
  then show ?thesis using assms(2) Some a by (auto simp: grant_history_def)
qed (simp add: grant_history_def assms(2))

lemma queue_timed_schedule:
  assumes "queue_timed G V" and call: "calls_timed G now calls" "(k, t, rv, g) \<in> set calls"
    and fit: "0 \<le> now" "now + t * NANOS_PER_MILLI \<le> INT64_MAX"
  shows "queue_timed G (schedule_spec V now k t rv g)"
proof -
  obtain t0 where t0: "0 < t" "G (k, rv, g) = Some (t0, t)" "t0 \<le> now"
    using call unfolding calls_timed_def by blast
  have "0 \<le> t * NANOS_PER_MILLI" using t0(1) by (simp add: NANOS_PER_MILLI_def)
  then have "wrap_s64 (t * NANOS_PER_MILLI) = t * NANOS_PER_MILLI"
    and "wrap_s64 (now + t * NANOS_PER_MILLI) = now + t * NANOS_PER_MILLI"
    using fit by (auto intro!: wrap_s64_id simp: INT64_MAX_def)
  then have "expire_time now t = now + t * NANOS_PER_MILLI" by (simp add: expire_time_def)
  then show ?thesis using assms(1) t0 by (auto simp: queue_timed_def schedule_spec_older)
qed

lemma timed_mono_now: "timed s \<Longrightarrow> ls_now s \<le> t \<Longrightarrow> timed (s\<lparr>ls_now := t\<rparr>)"
  unfolding timed_def timed_defs by (simp, intro conjI) fastforce+

lemma timed_schedule:
  assumes "timed s" "ttl_ok (ls_ttl s)" "(k, t, rv, g) \<in> set (ls_calls s)"
    "ls_now s + t * NANOS_PER_MILLI \<le> INT64_MAX"
  shows "timed (s\<lparr>ls_ttl := Schedule (ls_ttl s) (ls_now s) k t rv g,
    ls_calls := remove1 (k, t, rv, g) (ls_calls s)\<rparr>)"
proof -
  have "calls_timed (ls_granted s) (ls_now s) (remove1 (k, t, rv, g) (ls_calls s))"
    using assms(1) set_remove1_subset unfolding timed_def calls_timed_def by fast
  then show ?thesis
    using assms queue_timed_schedule [of "ls_granted s" "ttl_view (ls_ttl s)" "ls_now s" "ls_calls s"]
    by (simp add: timed_def tmq.schedule_view)
qed

lemma timed_drain:
  assumes "timed s" "ttl_ok (ls_ttl s)"
  shows "timed (s\<lparr>ls_ttl := fst (CheckExpiration (ls_ttl s) (ls_now s)),
      ls_expired := ls_expired s @ snd (CheckExpiration (ls_ttl s) (ls_now s))\<rparr>)"
proof -
  have q: "queue_timed (ls_granted s) (ttl_view (ls_ttl s))" using assms(1) by (simp add: timed_def)
  have "drained_timed (ls_granted s) (ls_now s) (snd (CheckExpiration (ls_ttl s) (ls_now s)))"
    unfolding drained_timed_def
  proof
    fix x assume "x \<in> set (snd (CheckExpiration (ls_ttl s) (ls_now s)))"
    from tmq.drain_due [OF assms(2) this]
    obtain r where r: "ttl_view (ls_ttl s) (er_key x) = Some r" "x = expired_of r"
      "tr_expireTime r \<le> ls_now s"
      by blast
    then obtain t0 t where "ls_granted s (er_key x, tr_revision r, tr_ttlGeneration r) = Some (t0, t)"
      "t0 + t * NANOS_PER_MILLI \<le> tr_expireTime r"
      using q unfolding queue_timed_def by blast
    then show "\<exists>t0 t. ls_granted s (er_key x, er_revision x, er_ttlGeneration x) = Some (t0, t)
        \<and> t0 + t * NANOS_PER_MILLI \<le> ls_now s"
      using r(2,3) by (auto simp: expired_of_def)
  qed
  then show ?thesis
    using assms by (auto simp: timed_def drained_timed_def queue_timed_def tmq.drain_view)
qed

lemma timed_expire:
  assumes "timed s" "kv_ok (Suc n) (ls_kv s)"
  shows "timed (s\<lparr>ls_kv := kv_expire (ls_kv s) (er_key x) (er_revision x) (er_ttlGeneration x),
        ls_expired := remove1 x (ls_expired s)\<rparr>)"
proof -
  have "drained_timed (ls_granted s) (ls_now s) (remove1 x (ls_expired s))"
    using assms(1) set_remove1_subset unfolding timed_def drained_timed_def by fast
  then show ?thesis
    using assms by (auto simp: timed_def leases_timed_def kvl.expire_lease)
qed

lemma timed_commit:
  assumes inv: "lease_inv (Suc n) s"
  shows "timed (s\<lparr>ls_kv := kv_mutate (ls_kv s) op,
      ls_calls := ls_calls s @ owed (kv_grants (ls_kv s) op),
      ls_granted := grant_history (kv_grants (ls_kv s) op) (ls_now s) (ls_granted s)\<rparr>)"
proof -
  let ?gr = "kv_grants (ls_kv s) op"
  let ?G = "grant_history ?gr (ls_now s) (ls_granted s)"
  have t: "timed s" and ok: "kv_ok (Suc n) (ls_kv s)" using inv by (auto simp: lease_inv_def)
  note mono = grant_history_mono [OF inv, of _ _ op]
  have new: "?G (k, rv, g) = Some (ls_now s, t)" if "?gr = Some (k, t, rv, g)" for k t rv g
    using that by (simp add: grant_history_def)
  have "calls_timed ?G (ls_now s) (ls_calls s)" "queue_timed ?G (ttl_view (ls_ttl s))"
    "drained_timed ?G (ls_now s) (ls_expired s)"
    using t mono unfolding timed_def timed_defs by blast+
  moreover have "calls_timed ?G (ls_now s) (owed ?gr)"
    by (auto simp: calls_timed_def owed_def grant_history_def split: option.splits if_splits)
  moreover have "leases_timed ?G (kv_lease (kv_mutate (ls_kv s) op))"
    unfolding leases_timed_def
  proof (intro allI impI)
    fix k rv g t0 assume "kv_lease (kv_mutate (ls_kv s) op) k = Some (rv, g, t0)"
    from kvl.mutate_lease [OF ok this] show "\<exists>ts. ?G (k, rv, g) = Some (ts, t0)"
      using t mono new unfolding timed_def leases_timed_def by blast
  qed
  ultimately show ?thesis using t by (auto simp: timed_def calls_timed_def)
qed

lemma lease_invD:
  assumes "lease_inv n s"
  shows "kv_ok n (ls_kv s)" and "ttl_ok (ls_ttl s)"
    and "covered (kv_lease (ls_kv s)) (ttl_view (ls_ttl s)) (ls_calls s) (ls_expired s)"
    and "not_newer (kv_lease (ls_kv s)) (mk_revision (ls_kv s)) (ls_tracked s)"
    and "not_newer (kv_lease (ls_kv s)) (mk_revision (ls_kv s)) (granted_for s)"
    and "timed s"
  using assms by (simp_all add: lease_inv_def)

lemma granted_for_cong: "ls_granted s' = ls_granted s \<Longrightarrow> granted_for s' = granted_for s"
  by (simp add: granted_for_def fun_eq_iff)

lemma lease_inv_commit:
  assumes inv: "lease_inv (Suc n) s"
    and s': "s' = s\<lparr>ls_kv := kv_mutate (ls_kv s) op,
      ls_calls := ls_calls s @ owed (kv_grants (ls_kv s) op),
      ls_granted := grant_history (kv_grants (ls_kv s) op) (ls_now s) (ls_granted s)\<rparr>"
  shows "lease_inv n s'"
proof -
  note ok = lease_invD(1) [OF inv] and nt = lease_invD(4) [OF inv] and ng = lease_invD(5) [OF inv]
  have "\<exists>t. kv_grants (ls_kv s) op = Some (k, t, rv, g)"
    if "ls_tracked s' k rv g" "\<not> ls_tracked s k rv g" for k rv g
    using that by (cases "kv_grants (ls_kv s) op") (auto simp: s' tracked_def owed_def split: if_splits)
  then have "not_newer (kv_lease (ls_kv s')) (mk_revision (ls_kv s')) (ls_tracked s')"
    using lp.mutate_not_newer [OF ok nt, of "ls_tracked s'" op] by (simp add: s') blast
  moreover have "\<exists>t. kv_grants (ls_kv s) op = Some (k, t, rv, g)"
    if "granted_for s' k rv g" "\<not> granted_for s k rv g" for k rv g
    using that by (cases "kv_grants (ls_kv s) op")
      (auto simp: s' granted_for_def grant_history_def split: if_splits)
  then have "not_newer (kv_lease (ls_kv s')) (mk_revision (ls_kv s')) (granted_for s')"
    using lp.mutate_not_newer [OF ok ng, of "granted_for s'" op] by (simp add: s') blast
  ultimately show ?thesis
    using kvl.mutate_ok [OF ok, of op] lp.mutate_covered [OF ok lease_invD(3) [OF inv], of op]
      timed_commit [OF inv, of op] lease_invD(2) [OF inv] s'
    by (simp add: lease_inv_def)
qed

lemma lease_inv_schedule:
  assumes inv: "lease_inv (Suc n) s" and call: "(k, t, rv, g) \<in> set (ls_calls s)"
    and fit: "ls_now s + t * NANOS_PER_MILLI \<le> INT64_MAX"
    and s': "s' = s\<lparr>ls_ttl := Schedule (ls_ttl s) (ls_now s) k t rv g,
        ls_calls := remove1 (k, t, rv, g) (ls_calls s)\<rparr>"
  shows "lease_inv n s'"
proof -
  note q = lease_invD(2) [OF inv] and nt = lease_invD(4) [OF inv]
  have "not_newer (kv_lease (ls_kv s')) (mk_revision (ls_kv s')) (ls_tracked s')"
    using not_newer_mono [OF nt] lp.schedule_tracked_back [OF q call] by (simp add: s')
  moreover have "granted_for s' = granted_for s" by (rule granted_for_cong) (simp add: s')
  ultimately show ?thesis
    using kv_ok_Suc [OF lease_invD(1) [OF inv]] lease_invD(5) [OF inv] tmq.schedule_ok [OF q]
      lp.schedule_covered [OF q call nt lease_invD(3) [OF inv]]
      timed_schedule [OF lease_invD(6) [OF inv] q call fit] s'
    by (simp add: lease_inv_def)
qed

lemma lease_inv_drain:
  assumes inv: "lease_inv (Suc n) s"
    and s': "s' = s\<lparr>ls_ttl := fst (CheckExpiration (ls_ttl s) (ls_now s)),
      ls_expired := ls_expired s @ snd (CheckExpiration (ls_ttl s) (ls_now s))\<rparr>"
  shows "lease_inv n s'"
proof -
  note q = lease_invD(2) [OF inv]
  have tr: "ls_tracked s' = ls_tracked s"
    using lp.drain_tracked [OF q, of "ls_now s"] by (simp add: s' fun_eq_iff)
  have kv: "ls_kv s' = ls_kv s" by (simp add: s')
  have "covered (kv_lease (ls_kv s')) (ttl_view (ls_ttl s')) (ls_calls s') (ls_expired s')"
    using lease_invD(3) [OF inv] unfolding covered_def tr kv .
  moreover have "granted_for s' = granted_for s" by (rule granted_for_cong) (simp add: s')
  moreover have "ttl_ok (ls_ttl s')" "timed s'"
    using tmq.drain_ok [OF q] timed_drain [OF lease_invD(6) [OF inv] q] by (simp_all add: s')
  ultimately show ?thesis
    using kv_ok_Suc [OF lease_invD(1) [OF inv]] lease_invD [OF inv] unfolding lease_inv_def tr kv by simp
qed

lemma lease_inv_expire:
  assumes inv: "lease_inv (Suc n) s" and x: "x \<in> set (ls_expired s)"
    and s': "s' = s\<lparr>ls_kv := kv_expire (ls_kv s) (er_key x) (er_revision x) (er_ttlGeneration x),
        ls_expired := remove1 x (ls_expired s)\<rparr>"
  shows "lease_inv n s'"
proof -
  note ok = lease_invD(1) [OF inv]
  have "ls_tracked s k rv g" if "ls_tracked s' k rv g" for k rv g
    using that set_remove1_subset [of x "ls_expired s"] by (auto simp: s' tracked_def)
  then have "not_newer (kv_lease (ls_kv s')) (mk_revision (ls_kv s')) (ls_tracked s')"
    using not_newer_mono [OF lp.expire_not_newer [OF ok lease_invD(4) [OF inv]]]
    by (simp add: s')
  moreover have "not_newer (kv_lease (ls_kv s')) (mk_revision (ls_kv s')) (granted_for s')"
    using lp.expire_not_newer [OF ok lease_invD(5) [OF inv]] granted_for_cong [of s' s]
    by (simp add: s')
  ultimately show ?thesis
    using kvl.expire_ok [OF ok] lease_invD [OF inv]
      lp.expire_covered [OF ok x lease_invD(3) [OF inv]] timed_expire [OF lease_invD(6) [OF inv] ok] s'
    by (simp add: lease_inv_def)
qed

lemma lease_inv_step:
  assumes "lease_step s s'" and inv: "lease_inv (Suc n) s"
  shows "lease_inv n s'"
  using assms(1)
proof cases
  case (lt_tick t')
  then show ?thesis
    using kv_ok_Suc [OF lease_invD(1) [OF inv]] lease_invD [OF inv] timed_mono_now [of s t'] granted_for_cong [of s' s]
    by (simp add: lease_inv_def)
next
  case (lt_commit op)
  then show ?thesis using lease_inv_commit [OF inv] by simp
next
  case (lt_schedule k t rv g)
  then show ?thesis using lease_inv_schedule [OF inv] by simp
next
  case lt_drain
  then show ?thesis using lease_inv_drain [OF inv] by simp
next
  case (lt_expire x)
  then show ?thesis using lease_inv_expire [OF inv] by simp
qed

lemma lease_inv_start: "int n < INT64_MAX \<Longrightarrow> lease_inv n lease_start"
  by (auto simp: lease_inv_def lease_start_def kv_ok_def INT64_MAX_def ttl_ok_def timed_def timed_defs
      ttl_inv_def ttl_view_def Ttl_Start_def SetExpireCallback_def new_TtlManager_def covered_def not_newer_def tracked_def granted_for_def kv_lease_def
      intro!: exI [of _ "0 :: nat"])

lemma lease_reach_inv:
  assumes "lease_reach n s" and "int (n + m) < INT64_MAX"
  shows "lease_inv m s"
  using assms
proof (induction arbitrary: m)
  case reach_start
  then show ?case by (intro lease_inv_start) simp
next
  case (reach_step n s s')
  then show ?case by (intro lease_inv_step [OF reach_step.hyps(2)] reach_step.IH) simp
qed

subsection \<open>Properties\<close>

text \<open>
  C16. In every interleaving of RPC threads, expiration thread and clock, a lease with a positive
  TTL that the store holds is on its way to expiry: its Schedule call is still to be made, or the
  TTL manager has a record of exactly this revision and generation, or the drained record waits
  for the store. No order of Schedule calls of a key loses the newest lease.
\<close>

theorem live_lease_is_tracked:
  assumes "lease_reach n s" and "int n < INT64_MAX"
    and "map_of (mk_data (ls_kv s)) k = Some e" and "0 < ve_ttlMs e"
  shows "(\<exists>t > 0. (k, t, ve_modRevision e, ve_ttlGeneration e) \<in> set (ls_calls s))
    \<or> (\<exists>r. ttl_view (ls_ttl s) k = Some r
         \<and> tr_revision r = ve_modRevision e \<and> tr_ttlGeneration r = ve_ttlGeneration e)
    \<or> (\<exists>x \<in> set (ls_expired s). er_key x = k
         \<and> er_revision x = ve_modRevision e \<and> er_ttlGeneration x = ve_ttlGeneration e)"
proof -
  have "lease_inv 0 s" using assms(1,2) lease_reach_inv [of n s 0] by simp
  then have "covered (kv_lease (ls_kv s)) (ttl_view (ls_ttl s)) (ls_calls s) (ls_expired s)"
    by (rule lease_invD)
  then have "ls_tracked s k (ve_modRevision e) (ve_ttlGeneration e)"
    using assms(3,4) by (simp add: covered_def kv_lease_def)
  then show ?thesis by (simp add: tracked_def)
qed


subsection \<open>A concrete interleaving\<close>

text \<open>Key a is put with a TTL of 5 ms; the call is scheduled, the clock advances, the lease is drained.\<close>

definition demo_put :: KvOp where
  "demo_put = OpPut ''a'' ''1'' 5 (-1) 0 0"

definition demo_s1 :: LeaseSystem where
  "demo_s1 = lease_start\<lparr>ls_kv := kv_mutate started_store demo_put,
     ls_calls := [(''a'', 5, 2, 1)], ls_granted := [(''a'', 2, 1) \<mapsto> (0, 5)]\<rparr>"

definition demo_s2 :: LeaseSystem where
  "demo_s2 = demo_s1\<lparr>ls_ttl := Schedule (ls_ttl lease_start) 0 ''a'' 5 2 1, ls_calls := []\<rparr>"

definition demo_s4 :: LeaseSystem where
  "demo_s4 = demo_s2\<lparr>ls_now := 6000000,
     ls_ttl := fst (CheckExpiration (ls_ttl demo_s2) 6000000),
     ls_expired := snd (CheckExpiration (ls_ttl demo_s2) 6000000)\<rparr>"

lemma demo_grant: "kv_grants started_store demo_put = Some (''a'', 5, 2, 1)"
  by (simp add: demo_put_def kv_run_eval)

lemma demo_reach1: "lease_reach 1 demo_s1"
proof -
  have "lease_step lease_start demo_s1"
    using lt_commit [of demo_put lease_start] demo_grant
    by (simp add: lease_start_def demo_s1_def owed_def grant_history_def demo_put_def)
  then show ?thesis using reach_step [OF reach_start] by simp
qed

lemma demo_reach4: "lease_reach 4 demo_s4"
proof -
  have "lease_step demo_s1 demo_s2"
    using lt_schedule [of "''a''" 5 2 1 demo_s1]
    by (simp add: demo_s1_def demo_s2_def lease_start_def NANOS_PER_MILLI_def INT64_MAX_def)
  then have "lease_reach 2 demo_s2" using reach_step [OF demo_reach1] by (simp add: eval_nat_numeral)
  moreover have "lease_step demo_s2 (demo_s2\<lparr>ls_now := 6000000\<rparr>)"
    by (rule lt_tick) (simp add: demo_s1_def demo_s2_def lease_start_def)
  ultimately have "lease_reach 3 (demo_s2\<lparr>ls_now := 6000000\<rparr>)"
    using reach_step by (metis numeral_3_eq_3 numeral_2_eq_2)
  moreover have "lease_step (demo_s2\<lparr>ls_now := 6000000\<rparr>) demo_s4"
    using lt_drain [of "demo_s2\<lparr>ls_now := 6000000\<rparr>"]
    by (simp add: demo_s4_def) (simp add: demo_s1_def demo_s2_def lease_start_def)
  ultimately show ?thesis using reach_step [of 3] by (simp add: eval_nat_numeral)
qed

lemma demo_entry:
  "map_of (mk_data (ls_kv demo_s1)) ''a'' = Some demo_lease"
  "map_of (mk_data (ls_kv demo_s4)) ''a'' = Some demo_lease"
  by (simp_all add: demo_s4_def demo_s2_def demo_s1_def kv_mutate_def demo_put_def kv_run_eval)

theorem live_lease_is_tracked_witness:
  "map_of (mk_data (ls_kv demo_s1)) ''a'' = Some demo_lease \<and> ttl_view (ls_ttl demo_s1) ''a'' = None
   \<and> (\<exists>t. (''a'', t, 2, 1) \<in> set (ls_calls demo_s1))"
proof -
  have "ttl_view (ls_ttl demo_s1) ''a'' = None" "ls_expired demo_s1 = []"
    by (simp_all add: demo_s1_def lease_start_def ttl_view_def Ttl_Start_def SetExpireCallback_def
        new_TtlManager_def)
  moreover have "int 1 < INT64_MAX" "0 < ve_ttlMs demo_lease"
    by (simp_all add: INT64_MAX_def demo_lease_def)
  ultimately show ?thesis
    using live_lease_is_tracked [OF demo_reach1 _ demo_entry(1)] demo_entry(1)
    by (auto simp: demo_lease_def)
qed


end
