(* ===== verification/CoordinatorStore.thy ===== *)
theory CoordinatorStore
  imports WatchDispatcher Leases
begin

section \<open>The coordinator store\<close>

text \<open>
  Models src/datasystem/common/coordinator/coordinator_store.{h,cpp}: the facade that owns the KV
  store, the watch registry, the watch dispatcher and the TTL manager and wires them together by
  callbacks. The four shared pointers may be null (the default constructor leaves them so), hence
  the options. The committed-mutation observer is the list of the calls it received. Each call is
  one atomic step here; Leases and WatchDispatcher treat the interleavings of its parts.
\<close>

subsection \<open>State and wiring\<close>

record CoordinatorStore =
  cs_memKvStore :: "MemoryKvStore option"
  cs_watchRegistry :: "WatchRegistry option"
  cs_watchDispatcher :: "WatchDispatcher option"
  cs_ttlManager :: "TtlManager option"
  cs_observer :: bool
  cs_observed :: "(WatchEventType \<times> string) list"
  cs_shutdown :: bool

text \<open>The mutation callback that BindCallbacks installs, on one event and on all events of a call.\<close>

definition mutation_callback :: "CoordinatorStore \<Rightarrow> WatchEvent \<Rightarrow> CoordinatorStore" where
  "mutation_callback cs ev =
     (let cs1 = (if cs_observer cs
                 then cs\<lparr>cs_observed := cs_observed cs @ [(we_type ev, kv_key (we_entry ev))]\<rparr> else cs)
      in cs1\<lparr>cs_watchDispatcher := map_option (\<lambda>d. Enqueue d ev) (cs_watchDispatcher cs1)\<rparr>)"

definition commit_kv :: "CoordinatorStore \<Rightarrow> MemoryKvStore \<Rightarrow> WatchEvent list \<Rightarrow> CoordinatorStore" where
  "commit_kv cs kv evs = foldl mutation_callback (cs\<lparr>cs_memKvStore := Some kv\<rparr>) evs"

definition BindCallbacks :: "CoordinatorStore \<Rightarrow> CoordinatorStore" where
  "BindCallbacks cs =
     (let cs1 = (if cs_memKvStore cs \<noteq> None \<and> cs_watchDispatcher cs \<noteq> None
                 then cs\<lparr>cs_memKvStore := map_option (\<lambda>kv. SetMutationCallback kv True) (cs_memKvStore cs)\<rparr>
                 else cs)
      in if cs_ttlManager cs1 \<noteq> None \<and> cs_memKvStore cs1 \<noteq> None
         then cs1\<lparr>cs_ttlManager := map_option (\<lambda>m. SetExpireCallback m True) (cs_ttlManager cs1)\<rparr>
         else cs1)"

definition new_CoordinatorStore :: "MemoryKvStore option \<Rightarrow> WatchRegistry option
    \<Rightarrow> WatchDispatcher option \<Rightarrow> TtlManager option \<Rightarrow> CoordinatorStore" where
  "new_CoordinatorStore kv reg d m =
     BindCallbacks \<lparr>cs_memKvStore = kv, cs_watchRegistry = reg, cs_watchDispatcher = d,
       cs_ttlManager = m, cs_observer = False, cs_observed = [], cs_shutdown = False\<rparr>"

text \<open>CheckInitialized, with the four objects it finds.\<close>

definition CheckInitialized :: "CoordinatorStore
    \<Rightarrow> (MemoryKvStore \<times> WatchRegistry \<times> WatchDispatcher \<times> TtlManager) result" where
  "CheckInitialized cs =
     (case (cs_memKvStore cs, cs_watchRegistry cs, cs_watchDispatcher cs, cs_ttlManager cs) of
        (Some kv, Some reg, Some d, Some m) \<Rightarrow> Inr (kv, reg, d, m)
      | _ \<Rightarrow> Inl K_NOT_READY)"

subsection \<open>Operations\<close>

text \<open>\<open>rc\<close> is the status of starting the dispatcher's notify executor.\<close>

definition Store_Start :: "CoordinatorStore \<Rightarrow> StatusCode \<Rightarrow> unit result \<times> CoordinatorStore" where
  "Store_Start cs rc =
     (case CheckInitialized cs of
        Inl c \<Rightarrow> (Inl c, cs)
      | Inr (kv, reg, d, m) \<Rightarrow>
          (case Dispatcher_Start d rc of
             (Inl c, d') \<Rightarrow> (Inl c, cs\<lparr>cs_watchDispatcher := Some d'\<rparr>)
           | (Inr _, d') \<Rightarrow> (Inr (), cs\<lparr>cs_watchDispatcher := Some d', cs_ttlManager := Some (Ttl_Start m)\<rparr>)))"

definition Store_Put :: "CoordinatorStore \<Rightarrow> int \<Rightarrow> string \<Rightarrow> string \<Rightarrow> int \<Rightarrow> int \<Rightarrow> int \<Rightarrow> int
    \<Rightarrow> (int \<times> int) result \<times> CoordinatorStore" where
  "Store_Put cs now key value ttlMs expectedVersion expectedModRevision expectedGlobalRevision =
     (case CheckInitialized cs of
        Inl c \<Rightarrow> (Inl c, cs)
      | Inr (kv, reg, d, m) \<Rightarrow>
          (case Put kv key value ttlMs expectedVersion expectedModRevision expectedGlobalRevision of
             (Inl c, kv', evs) \<Rightarrow> (Inl c, commit_kv cs kv' evs)
           | (Inr (version, revision, ttlGeneration), kv', evs) \<Rightarrow>
               (let cs1 = commit_kv cs kv' evs in
                (Inr (version, revision),
                 if ttlMs > 0
                 then cs1\<lparr>cs_ttlManager := Some (Schedule m now key ttlMs revision ttlGeneration)\<rparr>
                 else cs1))))"

definition Store_Range :: "CoordinatorStore \<Rightarrow> string \<Rightarrow> string \<Rightarrow> KeyValueEntry list \<Rightarrow> int \<Rightarrow> bool
    \<Rightarrow> (KeyValueEntry list \<times> int \<times> bool) result" where
  "Store_Range cs key rangeEnd kvs knownModRevision wantUnchanged =
     (case CheckInitialized cs of
        Inl c \<Rightarrow> Inl c
      | Inr (kv, reg, d, m) \<Rightarrow> Inr (Range_kv kv key rangeEnd kvs knownModRevision wantUnchanged))"

definition DeleteRange :: "CoordinatorStore \<Rightarrow> string \<Rightarrow> string \<Rightarrow> int
    \<Rightarrow> (int \<times> int) result \<times> CoordinatorStore" where
  "DeleteRange cs key rangeEnd expectedModRevision =
     (case CheckInitialized cs of
        Inl c \<Rightarrow> (Inl c, cs)
      | Inr (kv, reg, d, m) \<Rightarrow>
          (case Delete kv key rangeEnd [] expectedModRevision of
             (Inl c, kv', evs) \<Rightarrow> (Inl c, commit_kv cs kv' evs)
           | (Inr (deleted, revision, entries), kv', evs) \<Rightarrow>
               (Inr (deleted, revision), commit_kv cs kv' evs)))"

text \<open>
  WatchRange appends to the caller's vector \<open>initialKvs0\<close>, or clears it. Outputs: the watch id, the
  initial entries and the snapshot revision.
\<close>

definition WatchRange_store :: "CoordinatorStore \<Rightarrow> string \<Rightarrow> string \<Rightarrow> string \<Rightarrow> string
    \<Rightarrow> KeyValueEntry list \<Rightarrow> bool \<Rightarrow> (int \<times> KeyValueEntry list \<times> int) result \<times> CoordinatorStore" where
  "WatchRange_store cs key rangeEnd watcherAddr registrationId initialKvs0 skipInitialKvs =
     (case CheckInitialized cs of
        Inl c \<Rightarrow> (Inl c, cs)
      | Inr (kv, reg, d, m) \<Rightarrow>
          (case Register reg key rangeEnd watcherAddr registrationId of
             (Inl c, reg') \<Rightarrow> (Inl c, cs\<lparr>cs_watchRegistry := Some reg'\<rparr>)
           | (Inr (watchId, created), reg') \<Rightarrow>
               (let d1 = (if created then AddChannel d watchId watcherAddr else d);
                    (initialKvs, snapshotRevision) =
                      (if skipInitialKvs then ([], CurrentRevision kv)
                       else case Range_kv kv key rangeEnd initialKvs0 0 False of (kvs, r, unchanged) \<Rightarrow> (kvs, r))
                in (Inr (watchId, initialKvs, snapshotRevision),
                    cs\<lparr>cs_watchRegistry := Some reg',
                       cs_watchDispatcher := Some (SetSnapshotRevision d1 watchId snapshotRevision)\<rparr>))))"

text \<open>The loop of CancelWatch: the first error that is not K_NOT_FOUND is kept.\<close>

fun cancel_watch_ids :: "WatchRegistry \<Rightarrow> WatchDispatcher \<Rightarrow> string \<Rightarrow> int list \<Rightarrow> StatusCode option
    \<Rightarrow> StatusCode option \<times> WatchRegistry \<times> WatchDispatcher" where
  "cancel_watch_ids reg d addr [] firstError = (firstError, reg, d)"
| "cancel_watch_ids reg d addr (i # ids) firstError =
     (case Cancel reg i addr of
        (Inr _, reg') \<Rightarrow> cancel_watch_ids reg' (RemoveChannel d i) addr ids firstError
      | (Inl c, reg') \<Rightarrow>
          if c = K_NOT_FOUND then cancel_watch_ids reg' (RemoveChannel d i) addr ids firstError
          else cancel_watch_ids reg' d addr ids (case firstError of None \<Rightarrow> Some c | Some e \<Rightarrow> Some e))"

definition CancelWatch :: "CoordinatorStore \<Rightarrow> string \<Rightarrow> int list \<Rightarrow> unit result \<times> CoordinatorStore" where
  "CancelWatch cs watcherAddr watchIds =
     (case CheckInitialized cs of
        Inl c \<Rightarrow> (Inl c, cs)
      | Inr (kv, reg, d, m) \<Rightarrow>
          (case cancel_watch_ids reg d watcherAddr watchIds None of
             (firstError, reg', d') \<Rightarrow>
               (case firstError of None \<Rightarrow> Inr () | Some e \<Rightarrow> Inl e,
                cs\<lparr>cs_watchRegistry := Some reg', cs_watchDispatcher := Some d'\<rparr>)))"

definition Store_KeepAlive :: "CoordinatorStore \<Rightarrow> int \<Rightarrow> string \<Rightarrow> int
    \<Rightarrow> (int \<times> int) result \<times> CoordinatorStore" where
  "Store_KeepAlive cs now key expectedModRevision =
     (case CheckInitialized cs of
        Inl c \<Rightarrow> (Inl c, cs)
      | Inr (kv, reg, d, m) \<Rightarrow>
          (case KeepAlive kv key expectedModRevision of
             (Inl c, kv') \<Rightarrow> (Inl c, cs\<lparr>cs_memKvStore := Some kv'\<rparr>)
           | (Inr (ttlMs, remainingTtlMs, revision, ttlGeneration), kv') \<Rightarrow>
               (Inr (ttlMs, remainingTtlMs),
                cs\<lparr>cs_memKvStore := Some kv',
                   cs_ttlManager := Some (Schedule m now key ttlMs revision ttlGeneration)\<rparr>)))"

definition SetCommittedMutationObserver :: "CoordinatorStore \<Rightarrow> bool \<Rightarrow> CoordinatorStore" where
  "SetCommittedMutationObserver cs observer = cs\<lparr>cs_observer := observer\<rparr>"

definition StopTtl :: "CoordinatorStore \<Rightarrow> CoordinatorStore" where
  "StopTtl cs = cs\<lparr>cs_ttlManager := map_option Ttl_Stop (cs_ttlManager cs)\<rparr>"

definition Shutdown :: "CoordinatorStore \<Rightarrow> CoordinatorStore" where
  "Shutdown cs =
     (if cs_shutdown cs then cs
      else
        let cs1 = StopTtl (cs\<lparr>cs_shutdown := True\<rparr>);
            cs2 = cs1\<lparr>cs_observer := False,
                      cs_memKvStore := map_option (\<lambda>kv. SetMutationCallback kv False) (cs_memKvStore cs1)\<rparr>
        in cs2\<lparr>cs_watchDispatcher := map_option Dispatcher_Stop (cs_watchDispatcher cs2)\<rparr>)"

text \<open>
  One pass of the expiration thread: the manager drains the due records and calls the expire
  callback, which deletes in the store and so runs the mutation callback.
\<close>

definition expire_record :: "CoordinatorStore \<Rightarrow> ExpiredTtlRecord \<Rightarrow> CoordinatorStore" where
  "expire_record cs x =
     (case cs_memKvStore cs of
        None \<Rightarrow> cs
      | Some kv \<Rightarrow>
          (case DeleteIfTtlExpired kv (er_key x) (er_revision x) (er_ttlGeneration x) of
             (deleted, kv', evs) \<Rightarrow> commit_kv cs kv' evs))"

definition expiration_pass :: "CoordinatorStore \<Rightarrow> int \<Rightarrow> CoordinatorStore" where
  "expiration_pass cs now =
     (case cs_ttlManager cs of
        None \<Rightarrow> cs
      | Some m \<Rightarrow>
          (case CheckExpiration m now of
             (m', expired) \<Rightarrow> foldl expire_record (cs\<lparr>cs_ttlManager := Some m'\<rparr>) expired))"

subsection \<open>The two watch tables\<close>

text \<open>The address under which the dispatcher has a channel for a watch id.\<close>

definition chan_addr :: "WatchDispatcher \<Rightarrow> int \<rightharpoonup> string" where
  "chan_addr d i = map_option (\<lambda>c. wc_watcherAddr (wd_heap d c)) (map_of (wd_channels d) i)"

definition tables_agree :: "WatchRegistry \<Rightarrow> WatchDispatcher \<Rightarrow> bool" where
  "tables_agree reg d \<longleftrightarrow> (\<forall>i. map_option wa_watcherAddr (reg_view reg i) = chan_addr d i)"

definition watch_ok :: "WatchRegistry \<Rightarrow> WatchDispatcher \<Rightarrow> bool" where
  "watch_ok reg d \<longleftrightarrow> reg_inv reg \<and> wd_inv d \<and> tables_agree reg d"

lemma chan_addr_same: "same_table d d' \<Longrightarrow> chan_addr d' = chan_addr d"
  by (rule ext) (simp add: chan_addr_def same_table_def option.map_comp comp_def)

lemma chan_addr_locals [simp]:
  "chan_addr (Enqueue d ev) = chan_addr d" "chan_addr (FanOutTake d) = chan_addr d"
  "chan_addr (d\<lparr>wd_batch := b\<rparr>) = chan_addr d" "chan_addr (d\<lparr>wd_cancelFailures := n\<rparr>) = chan_addr d"
  "chan_addr (d\<lparr>wd_flights := fs\<rparr>) = chan_addr d"
  by (simp_all add: chan_addr_def Enqueue_def FanOutTake_def Let_def fun_eq_iff)

lemma same_table_scheduled:
  "wc_cancelled ch = wc_cancelled (wd_heap d c) \<Longrightarrow> wc_watchId ch = wc_watchId (wd_heap d c) \<Longrightarrow>
     wc_watcherAddr ch = wc_watcherAddr (wd_heap d c) \<Longrightarrow>
     same_table d (ScheduleChannelLocked (set_channel d c ch) c)"
  by (rule same_table_trans [OF same_table_set_channel same_table_Schedule])

lemma push_event_keeps [simp]:
  "wc_cancelled (push_event ev ch) = wc_cancelled ch" "wc_watchId (push_event ev ch) = wc_watchId ch"
  "wc_watcherAddr (push_event ev ch) = wc_watcherAddr ch"
  by (simp_all add: push_event_def)

lemma same_table_steps:
  "same_table d (fan_out_watcher ev d i)" "same_table d (rewatch_channel d c)"
  "same_table d (SetSnapshotRevision d i rv)"
  by (auto simp: fan_out_watcher_def rewatch_channel_def SetSnapshotRevision_def Let_def
      intro!: same_table_scheduled same_table_set_channel split: option.splits)

lemma foldl_same_table: "(\<And>d x. same_table d (f d x)) \<Longrightarrow> same_table d (foldl f d xs)"
  by (rule foldl_inv [where P = "same_table d"]) (auto intro: same_table_trans)

lemma chan_addr_fan_out [simp]:
  "chan_addr (FanOutOverflow d) = chan_addr d" "chan_addr (fan_out_event reg d ev) = chan_addr d"
  "chan_addr (SetSnapshotRevision d i rv) = chan_addr d"
proof -
  have "same_table d (FanOutOverflow d)"
    unfolding FanOutOverflow_def ScheduleAllChannelsForRewatch_def
    using same_table_trans [OF same_table_groups(6) foldl_same_table [where f = rewatch_channel]]
      same_table_steps(2) by auto
  then show "chan_addr (FanOutOverflow d) = chan_addr d" by (rule chan_addr_same)
  show "chan_addr (fan_out_event reg d ev) = chan_addr d"
    unfolding fan_out_event_def by (intro chan_addr_same foldl_same_table same_table_steps)
  show "chan_addr (SetSnapshotRevision d i rv) = chan_addr d"
    by (intro chan_addr_same same_table_steps)
qed

lemma chan_addr_fan_out_loop [simp]: "chan_addr (FanOutLoop reg d) = chan_addr d"
  unfolding FanOutLoop_def Let_def
  by (rule foldl_inv [where P = "\<lambda>x. chan_addr x = chan_addr d"]) simp_all

lemma chan_addr_remove [simp]: "chan_addr (RemoveChannel d i) = (chan_addr d)(i := None)"
proof
  fix j
  have "wc_watcherAddr (wd_heap (RemoveChannel d i) c) = wc_watcherAddr (wd_heap d c)" for c
    by (auto simp: RemoveChannel_def Let_def split: option.splits)
  then show "chan_addr (RemoveChannel d i) j = ((chan_addr d)(i := None)) j"
    by (simp add: chan_addr_def RemoveChannel_channels)
qed

lemma chan_addr_add_fresh:
  assumes inv: "wd_inv d"
  shows "chan_addr (add_fresh d i addr) = (chan_addr d)(i \<mapsto> addr)"
proof
  fix j
  have ok: "omap_ok (wd_channels d)" using inv by (simp add: wd_inv_def table_ok_def)
  have "c \<noteq> wd_nextChannel d" if "map_of (wd_channels d) j = Some c" for c
    using queues_ok_live(1) [OF inv that] by simp
  then show "chan_addr (add_fresh d i addr) j = ((chan_addr d)(i \<mapsto> addr)) j"
    using ok by (cases "map_of (wd_channels d) j")
      (auto simp: chan_addr_def add_fresh_def Let_def new_channel_def)
qed

lemma chan_addr_add:
  "wd_inv d \<Longrightarrow> chan_addr (AddChannel d i addr) = (chan_addr d)(i \<mapsto> addr)"
  by (simp add: AddChannel_eq chan_addr_add_fresh [OF RemoveChannel_inv])

lemma chan_addr_begin [simp]: "chan_addr (DispatchLoop_begin d g now) = chan_addr d"
proof -
  obtain res d1 where w: "WaitForReadyChannel d g now = (res, d1)" by fastforce
  then have d1: "chan_addr d1 = chan_addr d"
    by (auto simp: WaitForReadyChannel_def Let_def chan_addr_def fun_eq_iff split: list.splits)
  have keep: "wc_watcherAddr (snd (prepare_channel b ch)) = wc_watcherAddr ch" for b ch
    by (auto simp: prepare_channel_def Let_def split: prod.splits)
  have "chan_addr d2 = chan_addr d1" if "HandleChannelEvents_prepare d1 g c = (fo, es, d2)" for c fo es d2
    using that keep [of "wd_running d1" "wd_heap d1 c"]
    by (auto simp: HandleChannelEvents_prepare_def chan_addr_def fun_eq_iff
        split: prod.splits Prepared.splits intro!: option.map_cong)
  then show ?thesis
    using w d1 by (auto simp: DispatchLoop_begin_def split: option.splits prod.splits)
qed

lemma chan_addr_requeue [simp]: "chan_addr (DispatchLoop_requeue d f r now) = chan_addr d"
proof -
  have keep: "wc_watcherAddr (snd (PrepareRetry b ch)) = wc_watcherAddr ch" for b ch
    by (simp add: PrepareRetry_def Let_def)
  show ?thesis
    using keep [of "wd_running d" "wd_heap d (fl_channel f)"]
    by (auto simp: DispatchLoop_requeue_def Let_def chan_addr_def push_ready_def fun_eq_iff
        split: HandleResult.splits prod.splits option.splits intro!: option.map_cong)
qed

subsection \<open>Registration and cancellation keep the tables in step\<close>

lemma watch_ok_same:
  "watch_ok reg d \<Longrightarrow> wd_inv d' \<Longrightarrow> chan_addr d' = chan_addr d \<Longrightarrow> watch_ok reg d'"
  by (simp add: watch_ok_def tables_agree_def)

lemma watch_ok_cancel:
  assumes ok: "watch_ok reg d" and c: "Cancel reg i addr = (res, reg')"
  shows "watch_ok reg' (if res = Inl K_INVALID then d else RemoveChannel d i)"
    and "res = Inr () \<or> res = Inl K_NOT_FOUND \<or> res = Inl K_INVALID"
    and "chan_addr d i = Some addr \<Longrightarrow> res = Inr ()"
    and "rg_nextWatchId reg' = rg_nextWatchId reg"
proof -
  have inv: "reg_inv reg" and d: "wd_inv d" and agree: "tables_agree reg d"
    using ok by (auto simp: watch_ok_def)
  have wok: "watchers_ok reg" using inv by (simp add: reg_inv_def)
  have view: "reg_view reg i = None \<longleftrightarrow> rg_watchers reg i = None" by (rule reg_view_dom [OF wok])
  have all: "watch_ok reg' (if res = Inl K_INVALID then d else RemoveChannel d i)
      \<and> (res = Inr () \<or> res = Inl K_NOT_FOUND \<or> res = Inl K_INVALID)
      \<and> (chan_addr d i = Some addr \<longrightarrow> res = Inr ())
      \<and> rg_nextWatchId reg' = rg_nextWatchId reg"
  proof (cases "rg_watchers reg i")
    case None
    then have "res = Inl K_NOT_FOUND" "reg' = reg" using c by (auto simp: Cancel_def)
    moreover have "chan_addr d i = None" using agree None view by (metis option.simps(8) tables_agree_def)
    ultimately show ?thesis
      using ok RemoveChannel_inv [OF d] by (simp add: watch_ok_def tables_agree_def fun_upd_idem)
  next
    case (Some w)
    then obtain a where a: "reg_view reg i = Some a" using view by (cases "reg_view reg i") auto
    then have "wa_watcherAddr a = wt_watcherAddr w" using Some by (auto simp: reg_view_Some)
    then have addr: "chan_addr d i = Some (wt_watcherAddr w)"
      using agree a unfolding tables_agree_def by (metis option.simps(9))
    show ?thesis
    proof (cases "addr = [] \<or> wt_watcherAddr w = addr")
      case True
      then have "res = Inr ()" "reg' = unregister reg i w"
        using c Cancel_commit [OF Some True] by auto
      moreover have "tables_agree (unregister reg i w) (RemoveChannel d i)"
        using agree by (simp add: tables_agree_def reg_view_unregister)
      ultimately show ?thesis
        using reg_inv_unregister [OF inv Some] RemoveChannel_inv [OF d]
        by (simp add: watch_ok_def unregister_def Let_def)
    next
      case False
      then have "res = Inl K_INVALID" "reg' = reg" using c Some by (auto simp: Cancel_def)
      then show ?thesis using ok addr False by simp
    qed
  qed
  then show "watch_ok reg' (if res = Inl K_INVALID then d else RemoveChannel d i)"
    "res = Inr () \<or> res = Inl K_NOT_FOUND \<or> res = Inl K_INVALID"
    "chan_addr d i = Some addr \<Longrightarrow> res = Inr ()"
    "rg_nextWatchId reg' = rg_nextWatchId reg" by auto
qed

lemma watch_ok_cancel_ids:
  assumes "watch_ok reg d" and "cancel_watch_ids reg d addr ids e = (e', reg', d')"
  shows "watch_ok reg' d' \<and> rg_nextWatchId reg' = rg_nextWatchId reg"
  using assms
proof (induction ids arbitrary: reg d e)
  case (Cons i ids)
  obtain res reg1 where c: "Cancel reg i addr = (res, reg1)" by fastforce
  note w = watch_ok_cancel [OF Cons.prems(1) c]
  show ?case
    using w(2)
  proof (elim disjE)
    assume "res = Inr ()"
    then show ?thesis using Cons.IH [of reg1 "RemoveChannel d i" e] Cons.prems(2) c w(1,4) by simp
  next
    assume "res = Inl K_NOT_FOUND"
    then show ?thesis using Cons.IH [of reg1 "RemoveChannel d i" e] Cons.prems(2) c w(1,4) by simp
  next
    assume "res = Inl K_INVALID"
    then show ?thesis using Cons.IH [of reg1 d] Cons.prems(2) c w(1,4) by simp
  qed
qed simp

lemma watch_ok_cancel_watches:
  assumes "watch_ok reg d" and "\<forall>i \<in> set ids. chan_addr d i = Some addr" and "distinct ids"
  shows "watch_ok (fst (cancel_watches reg addr ids n)) (foldl RemoveChannel d ids)
    \<and> rg_nextWatchId (fst (cancel_watches reg addr ids n)) = rg_nextWatchId reg"
  using assms
proof (induction ids arbitrary: reg d n)
  case (Cons i ids)
  obtain res reg1 where c: "Cancel reg i addr = (res, reg1)" by fastforce
  note w = watch_ok_cancel [OF Cons.prems(1) c]
  have "res = Inr ()" using w(3) Cons.prems(2) by simp
  moreover have "\<forall>j \<in> set ids. chan_addr (RemoveChannel d i) j = Some addr"
    using Cons.prems(2,3) by auto
  ultimately show ?case
    using Cons.IH [of reg1 "RemoveChannel d i" n] c w(1,4) Cons.prems(3) by simp
qed simp

lemma watch_ok_remove_by:
  assumes ok: "watch_ok reg d"
  shows "watch_ok (fst (RemoveChannelsByWatcher reg d addr)) (snd (RemoveChannelsByWatcher reg d addr))
    \<and> rg_nextWatchId (fst (RemoveChannelsByWatcher reg d addr)) = rg_nextWatchId reg"
proof (cases "wd_watchIdsByWatcher d addr")
  case None
  then show ?thesis using ok by (simp add: RemoveChannelsByWatcher_def)
next
  case (Some ids)
  have idx: "index_ok d" using ok by (simp add: watch_ok_def wd_inv_def)
  have "chan_addr d i = Some addr" if "i \<in> set ids" for i
    using idx Some that unfolding index_ok_def chan_addr_def by (metis option.simps(9))
  moreover have "distinct ids" using idx Some by (auto simp: index_ok_def)
  moreover have "watch_ok reg (d\<lparr>wd_cancelFailures := n\<rparr>)" for n
    using ok cancel_failures_inv [of d n "[]"] by (simp add: watch_ok_def tables_agree_def)
  ultimately show ?thesis
    using watch_ok_cancel_watches [of reg "d\<lparr>wd_cancelFailures := _\<rparr>" ids addr "wd_cancelFailures d"] Some
    by (auto simp: RemoveChannelsByWatcher_def split: prod.splits)
qed

lemma watch_ok_end:
  assumes ok: "watch_ok reg d" and f: "f \<in> set (wd_flights d)"
    and e: "DispatchLoop_end reg d f status now = (reg', d')"
  shows "watch_ok reg' d' \<and> rg_nextWatchId reg' = rg_nextWatchId reg"
proof -
  let ?d1 = "d\<lparr>wd_flights := remove1 f (wd_flights d)\<rparr>"
  let ?ch = "wd_heap d (fl_channel f)"
  have inv: "wd_inv d" using ok by (simp add: watch_ok_def)
  have inv': "wd_inv d'" using DispatchLoop_end_inv [OF inv f, of reg status now] e by simp
  obtain r reg1 d2 where h: "HandleChannelEvents_finish reg ?d1 f status = (r, reg1, d2)"
    by (metis prod_cases3)
  have d': "reg' = reg1" "chan_addr d' = chan_addr d2"
    using e h by (auto simp: DispatchLoop_end_def Let_def)
  show ?thesis
  proof (cases "wc_cancelled ?ch \<or> (status \<noteq> K_NOT_FOUND \<and> (status \<noteq> K_OK \<or> \<not> fl_needReWatch f))
      \<or> \<not> wd_running d")
    case True
    have "wc_watcherAddr (snd (commit_channel m ch)) = wc_watcherAddr ch" for m ch
      by (simp add: commit_channel_def Let_def)
    then have "reg1 = reg" "chan_addr d2 = chan_addr d"
      using h True
      by (auto simp: HandleChannelEvents_finish_def Let_def chan_addr_def fun_eq_iff
          split: if_splits prod.splits intro!: option.map_cong; metis snd_conv)+
    then show ?thesis using watch_ok_same [OF ok inv'] d' by simp
  next
    case False
    let ?i = "wc_watchId ?ch"
    have "map_of (wd_channels d) ?i = Some (fl_channel f)"
      using inv False return_flight(1) [OF inv f] by (simp add: wd_inv_def table_ok_def)
    then have addr: "chan_addr d ?i = Some (wc_watcherAddr ?ch)" by (simp add: chan_addr_def)
    obtain res where c: "Cancel reg ?i (wc_watcherAddr ?ch) = (res, reg1)"
      and d2: "d2 = RemoveChannel ?d1 ?i"
      using h False by (auto simp: HandleChannelEvents_finish_def Let_def
          RemoveRewatchRequiredWatcher_def split: if_splits intro: prod.collapse [symmetric])
    have "res = Inr ()" using watch_ok_cancel(3) [OF ok c addr] .
    then have "watch_ok reg1 (RemoveChannel d ?i)" "rg_nextWatchId reg1 = rg_nextWatchId reg"
      using watch_ok_cancel(1,4) [OF ok c] by simp_all
    then show ?thesis
      using watch_ok_same [OF _ inv'] d' d2 by simp
  qed
qed

lemma watch_ok_register:
  assumes ok: "watch_ok reg d" and room: "rg_nextWatchId reg < INT64_MAX"
    and r: "Register reg key rangeEnd addr rid = (Inr (i, created), reg')"
  shows "watch_ok reg' (if created then AddChannel d i addr else d)"
    and "reg_view reg' i = Some \<lparr>wa_key = key, wa_rangeEnd = rangeEnd, wa_watcherAddr = addr,
           wa_registrationId = rid\<rparr>"
    and "rg_nextWatchId reg' \<le> rg_nextWatchId reg + 1"
proof -
  have inv: "reg_inv reg" and d: "wd_inv d" and agree: "tables_agree reg d"
    using ok by (auto simp: watch_ok_def)
  have one: "1 \<le> rg_nextWatchId reg" using inv by (simp add: reg_inv_def watchers_ok_def)
  have all: "watch_ok reg' (if created then AddChannel d i addr else d)
    \<and> reg_view reg' i = Some \<lparr>wa_key = key, wa_rangeEnd = rangeEnd, wa_watcherAddr = addr,
           wa_registrationId = rid\<rparr>
    \<and> rg_nextWatchId reg' \<le> rg_nextWatchId reg + 1"
  proof (cases "rid = [] \<or> rg_watchIdsByRegistrationId reg rid = None")
    case True
    then have eq: "i = rg_nextWatchId reg" "created" "reg' = register_fresh reg key rangeEnd addr rid"
      using r Register_fresh [OF True] by auto
    have "rg_nextWatchId reg' = rg_nextWatchId reg + 1"
      using one room by (simp add: eq register_fresh_def Let_def wrap_s64_succ)
    moreover have "tables_agree reg' (AddChannel d i addr)"
      using agree by (simp add: tables_agree_def eq reg_view_fresh chan_addr_add [OF d])
    ultimately show ?thesis
      using reg_inv_fresh [OF inv room True] AddChannel_inv [OF d] eq
      by (simp add: watch_ok_def reg_view_fresh)
  next
    case False
    then obtain j where j: "rg_watchIdsByRegistrationId reg rid = Some j" and rid: "rid \<noteq> []" by auto
    then have "i = j" "\<not> created" "reg' = reg"
      and w: "\<exists>w. rg_watchers reg j = Some w \<and> wt_watcherAddr w = addr"
      and sc: "rg_watchScopesById reg j = Some (key, rangeEnd)"
      using r by (auto simp: Register_def split: option.splits if_splits)
    moreover have "\<exists>w. rg_watchers reg j = Some w \<and> wt_registrationId w = rid"
      using inv j rid by (simp add: reg_inv_def watchers_ok_def)
    ultimately show ?thesis using ok by (auto simp: reg_view_Some)
  qed
  then show "watch_ok reg' (if created then AddChannel d i addr else d)"
    "reg_view reg' i = Some \<lparr>wa_key = key, wa_rangeEnd = rangeEnd, wa_watcherAddr = addr,
           wa_registrationId = rid\<rparr>"
    "rg_nextWatchId reg' \<le> rg_nextWatchId reg + 1" by auto
qed

lemma Register_error_same: "Register reg key rangeEnd addr rid = (Inl c, reg') \<Longrightarrow> reg' = reg"
  by (auto simp: Register_def Let_def split: option.splits if_splits)

subsection \<open>Runs of the store\<close>

text \<open>
  The calls on a started store, the passes of its expiration and fan-out threads and the halves of
  a worker iteration, as requests of one sequence.
\<close>

datatype StoreOp =
    SoPut int string string int int int int
  | SoDelete string string int
  | SoKeepAlive int string int
  | SoWatch string string string string bool
  | SoCancel string "int list"
  | SoRemoveWatcher string
  | SoExpire int
  | SoFanOut
  | SoBegin nat int
  | SoEnd nat StatusCode int

definition with_watch :: "CoordinatorStore \<Rightarrow>
    (WatchRegistry \<Rightarrow> WatchDispatcher \<Rightarrow> WatchRegistry \<times> WatchDispatcher) \<Rightarrow> CoordinatorStore" where
  "with_watch cs f =
     (case (cs_watchRegistry cs, cs_watchDispatcher cs) of
        (Some reg, Some d) \<Rightarrow>
          (case f reg d of (reg', d') \<Rightarrow>
             cs\<lparr>cs_watchRegistry := Some reg', cs_watchDispatcher := Some d'\<rparr>)
      | _ \<Rightarrow> cs)"

fun store_step :: "CoordinatorStore \<Rightarrow> StoreOp \<Rightarrow> CoordinatorStore" where
  "store_step cs (SoPut now k v ttl ev em eg) = snd (Store_Put cs now k v ttl ev em eg)"
| "store_step cs (SoDelete k e em) = snd (DeleteRange cs k e em)"
| "store_step cs (SoKeepAlive now k em) = snd (Store_KeepAlive cs now k em)"
| "store_step cs (SoWatch k e addr rid skip) = snd (WatchRange_store cs k e addr rid [] skip)"
| "store_step cs (SoCancel addr ids) = snd (CancelWatch cs addr ids)"
| "store_step cs (SoRemoveWatcher addr) = with_watch cs (\<lambda>reg d. RemoveChannelsByWatcher reg d addr)"
| "store_step cs (SoExpire now) = expiration_pass cs now"
| "store_step cs SoFanOut = with_watch cs (\<lambda>reg d. (reg, FanOutLoop reg d))"
| "store_step cs (SoBegin g now) = with_watch cs (\<lambda>reg d.
     (reg, if g < length (wd_groups d) then DispatchLoop_begin d g now else d))"
| "store_step cs (SoEnd i status now) = with_watch cs (\<lambda>reg d.
     if i < length (wd_flights d) then DispatchLoop_end reg d (wd_flights d ! i) status now else (reg, d))"

definition started_CoordinatorStore :: "nat \<Rightarrow> CoordinatorStore" where
  "started_CoordinatorStore threads =
     snd (Store_Start (new_CoordinatorStore (Some empty_store) (Some new_WatchRegistry)
       (Some (new_WatchDispatcher threads)) (Some new_TtlManager)) K_OK)"

definition store_run :: "nat \<Rightarrow> StoreOp list \<Rightarrow> CoordinatorStore" where
  "store_run threads ops = foldl store_step (started_CoordinatorStore threads) ops"

subsection \<open>Invariant of the store\<close>

lemma kv_callback_kept:
  "mk_hasCallback (fst (snd (Put s k v ttl ev em eg))) = mk_hasCallback s"
  "mk_hasCallback (fst (snd (Delete s k re dels em))) = mk_hasCallback s"
  "mk_hasCallback (fst (snd (DeleteIfTtlExpired s k rv g))) = mk_hasCallback s"
  "mk_hasCallback (snd (KeepAlive s k em)) = mk_hasCallback s"
proof -
  show "mk_hasCallback (fst (snd (Put s k v ttl ev em eg))) = mk_hasCallback s"
    by (cases rule: Put_cases [of s k ev em eg v ttl]) auto
  show "mk_hasCallback (fst (snd (Delete s k re dels em))) = mk_hasCallback s"
    by (cases rule: Delete_cases [of s k re dels em]) auto
  show "mk_hasCallback (fst (snd (DeleteIfTtlExpired s k rv g))) = mk_hasCallback s"
    by (cases rule: DeleteIfTtlExpired_cases [of s k rv g]) auto
  show "mk_hasCallback (snd (KeepAlive s k em)) = mk_hasCallback s"
    by (cases rule: KeepAlive_cases [of s k em]) auto
qed

definition store_inv :: "nat \<Rightarrow> CoordinatorStore \<Rightarrow> bool" where
  "store_inv n cs \<longleftrightarrow> (\<exists>kv reg d m. cs_memKvStore cs = Some kv \<and> cs_watchRegistry cs = Some reg
     \<and> cs_watchDispatcher cs = Some d \<and> cs_ttlManager cs = Some m
     \<and> mk_hasCallback kv \<and> watch_ok reg d \<and> rg_nextWatchId reg \<le> int n + 1)"

lemma store_invI:
  "cs_memKvStore cs = Some kv \<Longrightarrow> cs_watchRegistry cs = Some reg \<Longrightarrow> cs_watchDispatcher cs = Some d \<Longrightarrow>
     cs_ttlManager cs = Some m \<Longrightarrow> mk_hasCallback kv \<Longrightarrow> watch_ok reg d \<Longrightarrow>
     rg_nextWatchId reg \<le> int n + 1 \<Longrightarrow> store_inv n cs"
  by (simp add: store_inv_def)

lemma store_invE:
  assumes "store_inv n cs"
  obtains kv reg d m where "cs_memKvStore cs = Some kv" "cs_watchRegistry cs = Some reg"
    "cs_watchDispatcher cs = Some d" "cs_ttlManager cs = Some m"
    "CheckInitialized cs = Inr (kv, reg, d, m)" "watch_ok reg d" "rg_nextWatchId reg \<le> int n + 1"
    "mk_hasCallback kv"
  using assms by (auto simp: store_inv_def CheckInitialized_def)

lemma store_inv_kv: "mk_hasCallback kv \<Longrightarrow> store_inv n cs \<Longrightarrow> store_inv n (cs\<lparr>cs_memKvStore := Some kv\<rparr>)"
  and store_inv_ttl: "store_inv n cs \<Longrightarrow> store_inv n (cs\<lparr>cs_ttlManager := Some m\<rparr>)"
  by (auto simp: store_inv_def)

lemma store_inv_Suc: "store_inv n cs \<Longrightarrow> store_inv (Suc n) cs"
  by (force simp: store_inv_def)

lemma store_inv_commit: "mk_hasCallback kv \<Longrightarrow> store_inv n cs \<Longrightarrow> store_inv n (commit_kv cs kv evs)"
proof -
  have "store_inv n (mutation_callback cs ev)" if "store_inv n cs" for cs ev
    using that
  proof (rule store_invE)
    fix kv reg d m
    assume *: "cs_memKvStore cs = Some kv" "cs_watchRegistry cs = Some reg"
      "cs_watchDispatcher cs = Some d" "cs_ttlManager cs = Some m" "watch_ok reg d"
      "rg_nextWatchId reg \<le> int n + 1" "mk_hasCallback kv"
    moreover have "watch_ok reg (Enqueue d ev)"
      using *(5) by (intro watch_ok_same [OF *(5)] Enqueue_inv) (simp_all add: watch_ok_def)
    ultimately show ?thesis
      by (intro store_invI [of _ kv reg "Enqueue d ev" m]) (simp_all add: mutation_callback_def Let_def)
  qed
  then show "mk_hasCallback kv \<Longrightarrow> store_inv n cs \<Longrightarrow> store_inv n (commit_kv cs kv evs)"
    unfolding commit_kv_def by (intro foldl_inv [where P = "store_inv n"] store_inv_kv)
qed

lemma store_inv_with_watch:
  assumes inv: "store_inv n cs"
    and f: "\<And>reg d reg' d'. watch_ok reg d \<Longrightarrow> f reg d = (reg', d') \<Longrightarrow>
      watch_ok reg' d' \<and> rg_nextWatchId reg' = rg_nextWatchId reg"
  shows "store_inv n (with_watch cs f)"
  using inv
proof (rule store_invE)
  fix kv reg d m
  assume *: "cs_memKvStore cs = Some kv" "cs_watchRegistry cs = Some reg"
    "cs_watchDispatcher cs = Some d" "cs_ttlManager cs = Some m" "watch_ok reg d"
    "rg_nextWatchId reg \<le> int n + 1" "mk_hasCallback kv"
  obtain reg' d' where "f reg d = (reg', d')" by fastforce
  with * f [OF *(5) this] show ?thesis
    by (intro store_invI [of _ kv reg' d' m]) (simp_all add: with_watch_def)
qed

lemma store_inv_watch:
  assumes inv: "store_inv n cs" and room: "int n + 1 < INT64_MAX"
  shows "store_inv (Suc n) (snd (WatchRange_store cs k e addr rid kvs0 skip))"
  using inv
proof (rule store_invE)
  fix kv reg d m
  assume *: "cs_memKvStore cs = Some kv" "cs_watchRegistry cs = Some reg"
    "cs_watchDispatcher cs = Some d" "cs_ttlManager cs = Some m"
    "CheckInitialized cs = Inr (kv, reg, d, m)" "watch_ok reg d" "rg_nextWatchId reg \<le> int n + 1"
    "mk_hasCallback kv"
  obtain res reg' where r: "Register reg k e addr rid = (res, reg')" by fastforce
  show ?thesis
  proof (cases res)
    case (Inl c)
    then have "reg' = reg" using r Register_error_same by blast
    then show ?thesis
      using * Inl r by (intro store_inv_Suc store_invI [of _ kv reg d m]) (simp_all add: WatchRange_store_def)
  next
    case (Inr ic)
    obtain i created where ic: "ic = (i, created)" by fastforce
    let ?d1 = "if created then AddChannel d i addr else d"
    have "watch_ok reg' ?d1 \<and> rg_nextWatchId reg' \<le> rg_nextWatchId reg + 1"
      using watch_ok_register [OF *(6) _ r [unfolded Inr ic]] *(7) room by auto
    moreover have "watch_ok reg' (SetSnapshotRevision ?d1 i rv)" if "watch_ok reg' ?d1" for rv
      using that by (intro watch_ok_same [OF that] SetSnapshotRevision_inv) (simp_all add: watch_ok_def)
    ultimately show ?thesis
      using * Inr ic r by (auto simp: WatchRange_store_def Let_def split: prod.splits
          intro!: store_invI [of _ kv reg' _ m])
  qed
qed

lemma store_inv_cancel:
  assumes inv: "store_inv n cs"
  shows "store_inv n (snd (CancelWatch cs addr ids))"
  using inv
proof (rule store_invE)
  fix kv reg d m
  assume *: "cs_memKvStore cs = Some kv" "cs_watchRegistry cs = Some reg"
    "cs_watchDispatcher cs = Some d" "cs_ttlManager cs = Some m"
    "CheckInitialized cs = Inr (kv, reg, d, m)" "watch_ok reg d" "rg_nextWatchId reg \<le> int n + 1"
    "mk_hasCallback kv"
  obtain e reg' d' where c: "cancel_watch_ids reg d addr ids None = (e, reg', d')"
    by (metis prod_cases3)
  show ?thesis
    using watch_ok_cancel_ids [OF *(6) c] * c
    by (intro store_invI [of _ kv reg' d' m]) (simp_all add: CancelWatch_def)
qed

lemma store_inv_expire:
  assumes inv: "store_inv n cs"
  shows "store_inv n (expiration_pass cs now)"
proof -
  have "store_inv n (expire_record cs x)" if inv: "store_inv n cs" for cs x
    using inv
  proof (rule store_invE)
    fix kv
    assume kv: "cs_memKvStore cs = Some kv" "mk_hasCallback kv"
    obtain del kv' evs where e: "DeleteIfTtlExpired kv (er_key x) (er_revision x) (er_ttlGeneration x)
        = (del, kv', evs)" by (metis prod_cases3)
    then have "mk_hasCallback kv'"
      using kv(2) kv_callback_kept(3) by (metis fst_conv snd_conv)
    then show ?thesis using store_inv_commit [OF _ inv] kv(1) e by (simp add: expire_record_def)
  qed
  then show ?thesis
    unfolding expiration_pass_def using inv
    by (auto split: option.splits prod.splits intro!: foldl_inv [where P = "store_inv n"] store_inv_ttl)
qed

lemma FanOutLoop_inv: "wd_inv d \<Longrightarrow> wd_inv (FanOutLoop reg d)"
  unfolding FanOutLoop_def Let_def
  by (intro foldl_inv [where P = wd_inv] fan_out_event_inv)
    (simp_all add: FanOutOverflow_inv FanOutTake_inv)

lemma store_inv_threads:
  assumes inv: "store_inv n cs"
  shows "store_inv n (store_step cs (SoRemoveWatcher addr))" "store_inv n (store_step cs SoFanOut)"
    "store_inv n (store_step cs (SoBegin g now))" "store_inv n (store_step cs (SoEnd i status now))"
proof -
  show "store_inv n (store_step cs (SoRemoveWatcher addr))"
    unfolding store_step.simps using watch_ok_remove_by
    by (intro store_inv_with_watch [OF inv]) (metis fst_conv snd_conv)
  show "store_inv n (store_step cs SoFanOut)" "store_inv n (store_step cs (SoBegin g now))"
    unfolding store_step.simps
    by (intro store_inv_with_watch [OF inv];
        auto simp: watch_ok_def tables_agree_def FanOutLoop_inv DispatchLoop_begin_inv split: if_splits)+
  show "store_inv n (store_step cs (SoEnd i status now))"
    unfolding store_step.simps
    by (intro store_inv_with_watch [OF inv]) (auto dest: watch_ok_end [OF _ nth_mem] split: if_splits)
qed

lemma store_inv_calls:
  assumes inv: "store_inv n cs"
  shows "store_inv n (store_step cs (SoPut now k v ttl ev em eg))"
    "store_inv n (store_step cs (SoDelete k e em))" "store_inv n (store_step cs (SoKeepAlive now k em))"
proof -
  obtain kv reg d m where c: "CheckInitialized cs = Inr (kv, reg, d, m)" and cb: "mk_hasCallback kv"
    using inv by (rule store_invE)
  note kept = kv_callback_kept [of kv] and commit = store_inv_commit [OF _ inv]
  show "store_inv n (store_step cs (SoPut now k v ttl ev em eg))"
    using c cb kept(1) [of k v ttl ev em eg] commit
    by (auto simp: Store_Put_def Let_def store_inv_ttl split: prod.splits sum.splits)
  show "store_inv n (store_step cs (SoDelete k e em))"
    using c cb kept(2) [of k e "[]" em] commit
    by (auto simp: DeleteRange_def split: prod.splits sum.splits)
  show "store_inv n (store_step cs (SoKeepAlive now k em))"
    using c cb kept(4) [of k em] inv
    by (auto simp: Store_KeepAlive_def store_inv_ttl store_inv_kv split: prod.splits sum.splits)
qed

lemma store_inv_step:
  assumes inv: "store_inv n cs" and room: "int n + 1 < INT64_MAX"
  shows "store_inv (Suc n) (store_step cs op)"
proof (cases op)
  case (SoWatch k e addr rid skip)
  then show ?thesis using store_inv_watch [OF inv room] by simp
next
  case (SoCancel addr ids)
  then show ?thesis using store_inv_Suc [OF store_inv_cancel [OF inv]] by simp
next
  case (SoExpire now)
  then show ?thesis using store_inv_Suc [OF store_inv_expire [OF inv]] by simp
qed (use store_inv_Suc [OF store_inv_calls(1) [OF inv]] store_inv_Suc [OF store_inv_calls(2) [OF inv]]
      store_inv_Suc [OF store_inv_calls(3) [OF inv]] store_inv_Suc [OF store_inv_threads(1) [OF inv]]
      store_inv_Suc [OF store_inv_threads(2) [OF inv]] store_inv_Suc [OF store_inv_threads(3) [OF inv]]
      store_inv_Suc [OF store_inv_threads(4) [OF inv]] in \<open>simp_all only:\<close>)

lemma started_store_eq:
  "started_CoordinatorStore threads = \<lparr>cs_memKvStore = Some started_store,
     cs_watchRegistry = Some new_WatchRegistry, cs_watchDispatcher = Some (started_dispatcher threads),
     cs_ttlManager = Some (Ttl_Start (SetExpireCallback new_TtlManager True)),
     cs_observer = False, cs_observed = [], cs_shutdown = False\<rparr>"
proof -
  have "Dispatcher_Start (new_WatchDispatcher threads) K_OK = (Inr (), started_dispatcher threads)"
    by (simp add: started_dispatcher_def Dispatcher_Start_def Let_def new_WatchDispatcher_def)
  then show ?thesis
    by (simp add: started_CoordinatorStore_def Store_Start_def new_CoordinatorStore_def
        BindCallbacks_def CheckInitialized_def started_store_def Let_def)
qed

lemma store_inv_start:
  assumes "0 < threads"
  shows "store_inv 0 (started_CoordinatorStore threads)"
proof -
  have "tables_agree new_WatchRegistry (started_dispatcher threads)"
    by (simp add: tables_agree_def reg_view_def new_WatchRegistry_def chan_addr_def started_dispatcher_def
        Dispatcher_Start_def Let_def new_WatchDispatcher_def)
  then have "watch_ok new_WatchRegistry (started_dispatcher threads)"
    by (simp add: watch_ok_def started_dispatcher_inv [OF assms])
  moreover have "rg_nextWatchId new_WatchRegistry \<le> int 0 + 1" by (simp add: new_WatchRegistry_def)
  ultimately show ?thesis
    unfolding started_store_eq
    by (intro store_invI [where kv = started_store and reg = new_WatchRegistry]) simp_all
qed

lemma store_run_inv:
  assumes "0 < threads" and "int (length ops) < INT64_MAX"
  shows "store_inv (length ops) (store_run threads ops)"
  using assms(2)
proof (induction ops rule: rev_induct)
  case Nil
  then show ?case using store_inv_start [OF assms(1)] by (simp add: store_run_def)
next
  case (snoc op ops)
  then show ?case using store_inv_step [of "length ops" "store_run threads ops" op]
    by (simp add: store_run_def)
qed

subsection \<open>From a commit to the queue of a watcher\<close>

text \<open>
  Channel \<open>c\<close> of watch \<open>i\<close> either is marked for a re-watch or still waits for what comes after
  the snapshot \<open>snap\<close>.
\<close>

definition watching :: "int \<Rightarrow> nat \<Rightarrow> int \<Rightarrow> WatchDispatcher \<Rightarrow> bool" where
  "watching i c snap d \<longleftrightarrow> wd_inv d \<and> map_of (wd_channels d) i = Some c
     \<and> (wc_needReWatch (wd_heap d c) \<or> wc_snapshotRevision (wd_heap d c) = snap)"

lemma Schedule_channel:
  "wd_heap (ScheduleChannelLocked d c) c = (wd_heap d c)\<lparr>wc_dispatchQueued :=
     wc_dispatchQueued (wd_heap d c) \<or> (\<not> wc_cancelled (wd_heap d c) \<and> wd_groups d \<noteq> [])\<rparr>"
  by (simp add: ScheduleChannelLocked_def Let_def)

lemma other_channel:
  assumes "wd_inv d" "map_of (wd_channels d) i = Some c" "map_of (wd_channels d) j = Some x" "j \<noteq> i"
  shows "x \<noteq> c"
  using queues_ok_live(3) [OF assms(1,2)] queues_ok_live(3) [OF assms(1,3)] assms(4) by auto

lemma fan_out_other:
  assumes "wd_inv d" "map_of (wd_channels d) i = Some c" "j \<noteq> i"
  shows "wd_heap (fan_out_watcher ev d j) c = wd_heap d c"
  using other_channel [OF assms(1,2) _ assms(3)]
  by (auto simp: fan_out_watcher_def Let_def Schedule_other split: option.splits)

lemma fan_out_self:
  assumes inv: "wd_inv d" and i: "map_of (wd_channels d) i = Some c" and live: "\<not> wc_needReWatch (wd_heap d c)"
  shows "wd_heap (fan_out_watcher ev d i) c = (push_event ev (wd_heap d c))\<lparr>wc_dispatchQueued := True\<rparr>"
proof -
  have "wd_groups d \<noteq> []" using inv by (auto simp: wd_inv_def queues_ok_def groups_sorted_def)
  then show ?thesis
    using i live queues_ok_live(2) [OF inv i]
    by (simp add: fan_out_watcher_def Let_def Schedule_channel)
qed

lemma fan_out_channels [simp]: "wd_channels (fan_out_watcher ev d j) = wd_channels d"
  using same_table_steps(1) [of d ev j] by (simp add: same_table_def)

lemma watching_fan_out_watcher:
  assumes w: "watching i c snap d"
  shows "watching i c snap (fan_out_watcher ev d j)"
proof (cases "j = i")
  case True
  have inv: "wd_inv d" and i: "map_of (wd_channels d) i = Some c" using w by (auto simp: watching_def)
  show ?thesis
  proof (cases "wc_needReWatch (wd_heap d c)")
    case True
    then have "fan_out_watcher ev d i = d" using i by (simp add: fan_out_watcher_def Let_def)
    then show ?thesis using w \<open>j = i\<close> by simp
  next
    case False
    then show ?thesis
      using w fan_out_self [OF inv i False, of ev] fan_out_watcher_inv [OF inv, of ev i] \<open>j = i\<close>
      by (simp add: watching_def push_event_def)
  qed
next
  case False
  then show ?thesis
    using w fan_out_other [of d i c j ev] fan_out_watcher_inv [of d ev j] by (simp add: watching_def)
qed

lemma watching_fan_out_event: "watching i c snap d \<Longrightarrow> watching i c snap (fan_out_event reg d ev)"
  unfolding fan_out_event_def by (rule foldl_inv) (rule watching_fan_out_watcher)

lemma foldl_fan_out_others:
  assumes "wd_inv d" "map_of (wd_channels d) i = Some c" "i \<notin> set ids"
  shows "wd_heap (foldl (fan_out_watcher ev) d ids) c = wd_heap d c"
  using assms
proof (induction ids arbitrary: d)
  case (Cons j ids)
  then show ?case
    using fan_out_other [OF Cons.prems(1,2), of j ev] fan_out_watcher_inv [OF Cons.prems(1), of ev j] by simp
qed simp

lemma fan_out_event_reaches:
  assumes w: "watching i c snap d" and reg: "reg_inv reg"
    and m: "i \<in> set (map wt_watchId (MatchWatchers reg (kv_key (we_entry ev)) []))"
    and dist: "distinct (map wt_watchId (MatchWatchers reg (kv_key (we_entry ev)) []))"
  shows "wc_needReWatch (wd_heap (fan_out_event reg d ev) c)
    \<or> wc_snapshotRevision (wd_heap (fan_out_event reg d ev) c) = snap
      \<and> wc_dispatchQueued (wd_heap (fan_out_event reg d ev) c)
      \<and> (\<exists>q. wc_queue (wd_heap (fan_out_event reg d ev) c) = q @ [ev])"
proof -
  let ?ids = "map wt_watchId (MatchWatchers reg (kv_key (we_entry ev)) [])"
  obtain xs ys where ids: "?ids = xs @ i # ys" using m by (meson split_list)
  then have ys: "i \<notin> set ys" using dist by simp
  define d1 where "d1 = foldl (fan_out_watcher ev) d xs"
  define d2 where "d2 = fan_out_watcher ev d1 i"
  have w1: "watching i c snap d1"
    unfolding d1_def using w by (rule foldl_inv [rotated]) (rule watching_fan_out_watcher)
  have w2: "watching i c snap d2" unfolding d2_def by (rule watching_fan_out_watcher [OF w1])
  have last: "wd_heap (fan_out_event reg d ev) c = wd_heap d2 c"
    using foldl_fan_out_others [of d2 i c ys ev] w2 ys
    unfolding fan_out_event_def ids watching_def by (simp add: d1_def d2_def)
  show ?thesis
  proof (cases "wc_needReWatch (wd_heap d1 c)")
    case True
    then have "d2 = d1" using w1 by (simp add: d2_def fan_out_watcher_def watching_def Let_def)
    then show ?thesis using last True by simp
  next
    case False
    then have "wd_heap d2 c = (push_event ev (wd_heap d1 c))\<lparr>wc_dispatchQueued := True\<rparr>"
      using w1 fan_out_self [of d1 i c ev] by (simp add: d2_def watching_def)
    then show ?thesis using w2 last by (auto simp: watching_def push_event_def split: if_splits)
  qed
qed

lemma watching_overflow:
  assumes w: "watching i c snap d"
  shows "watching i c snap (FanOutOverflow d)"
proof -
  let ?P = "\<lambda>d. wc_needReWatch (wd_heap d c) \<or> wc_snapshotRevision (wd_heap d c) = snap"
  have "?P (rewatch_channel d1 y)" if "?P d1" for d1 y
    using that by (auto simp: rewatch_channel_def Let_def ScheduleChannelLocked_def)
  then have "?P (foldl rewatch_channel d1 ys)" if "?P d1" for d1 ys
    using that by (rule foldl_inv)
  then have "?P (FanOutOverflow d)"
    using w unfolding FanOutOverflow_def ScheduleAllChannelsForRewatch_def by (simp add: watching_def)
  moreover have "wd_channels (rewatch_channel d1 y) = wd_channels d1" for d1 y
    using same_table_steps(2) [of d1 y] by (simp add: same_table_def)
  then have "wd_channels (FanOutOverflow d) = wd_channels d"
    unfolding FanOutOverflow_def ScheduleAllChannelsForRewatch_def
    by (auto intro!: foldl_inv [where P = "\<lambda>x. wd_channels x = wd_channels d"])
  ultimately show ?thesis using w FanOutOverflow_inv by (auto simp: watching_def)
qed

text \<open>An event at the end of a short pending queue is in the watcher's queue after one pass.\<close>

lemma fan_out_loop_reaches:
  assumes w: "watching i c snap d" and reg: "reg_inv reg"
    and few: "length (wd_pendingQueue d) < MAX_WATCH_EVENTS_PER_FAN_OUT"
    and m: "i \<in> set (map wt_watchId (MatchWatchers reg (kv_key (we_entry ev)) []))"
    and dist: "distinct (map wt_watchId (MatchWatchers reg (kv_key (we_entry ev)) []))"
  defines "d' \<equiv> FanOutLoop reg (Enqueue d ev)"
  shows "map_of (wd_channels d') i = Some c
    \<and> (wc_needReWatch (wd_heap d' c)
       \<or> wc_snapshotRevision (wd_heap d' c) = snap \<and> wc_dispatchQueued (wd_heap d' c)
         \<and> (\<exists>q. wc_queue (wd_heap d' c) = q @ [ev]))"
proof -
  let ?t = "FanOutTake (Enqueue d ev)"
  have enq: "Enqueue d ev = d\<lparr>wd_pendingQueue := wd_pendingQueue d @ [ev]\<rparr>"
    using few by (simp add: Enqueue_def MAX_PENDING_EVENTS_def MAX_WATCH_EVENTS_PER_FAN_OUT_def)
  have inv: "wd_inv d" using w by (simp add: watching_def)
  have "wd_inv ?t" by (rule FanOutTake_inv [OF Enqueue_inv [OF inv]])
  moreover have "wd_channels ?t = wd_channels d" "wd_heap ?t = wd_heap d"
    by (simp_all add: FanOutTake_def Let_def enq)
  ultimately have wt: "watching i c snap ?t" using w by (simp add: watching_def)
  have batch: "wd_batch (FanOutOverflow ?t) = (wd_batch d @ wd_pendingQueue d) @ [ev]"
  proof -
    have "wd_batch (rewatch_channel d1 y) = wd_batch d1" for d1 y
      by (simp add: rewatch_channel_def Let_def ScheduleChannelLocked_def push_ready_def set_channel_def)
    then have "wd_batch (FanOutOverflow ?t) = wd_batch ?t"
      unfolding FanOutOverflow_def ScheduleAllChannelsForRewatch_def
      by (auto intro!: foldl_inv [where P = "\<lambda>x. wd_batch x = wd_batch ?t"])
    then show ?thesis using few by (simp add: FanOutTake_def Let_def enq)
  qed
  define d1 where "d1 = foldl (fan_out_event reg) ((FanOutOverflow ?t)\<lparr>wd_batch := []\<rparr>)
      (wd_batch d @ wd_pendingQueue d)"
  have "watching i c snap ((FanOutOverflow ?t)\<lparr>wd_batch := []\<rparr>)"
    using watching_overflow [OF wt] by (simp add: watching_def)
  then have w1: "watching i c snap d1"
    unfolding d1_def by (rule foldl_inv [rotated]) (rule watching_fan_out_event)
  have "d' = fan_out_event reg d1 ev"
    unfolding d'_def FanOutLoop_def Let_def batch d1_def by (simp only: foldl_append foldl_Cons foldl_Nil)
  then show ?thesis
    using fan_out_event_reaches [OF w1 reg m dist] watching_fan_out_event [OF w1, of reg ev]
    by (simp add: watching_def)
qed

subsection \<open>Properties of the store\<close>

text \<open>
  C18. The registry and the dispatcher agree. After any sequence of calls, expirations, fan-out
  passes and worker iterations on a started store, failed notifications and forced re-watches
  included, a watch id is registered exactly when the dispatcher has a channel for it, and both
  name the same watcher address: no event is matched to a watch without a channel, and no channel
  outlives its registration.
\<close>

theorem watch_tables_agree:
  assumes "0 < threads" and "int (length ops) < INT64_MAX"
  shows "\<exists>reg d. cs_watchRegistry (store_run threads ops) = Some reg
    \<and> cs_watchDispatcher (store_run threads ops) = Some d
    \<and> (\<forall>i. map_option wa_watcherAddr (reg_view reg i)
           = map_option (\<lambda>c. wc_watcherAddr (wd_heap d c)) (map_of (wd_channels d) i))"
  using store_run_inv [OF assms]
proof (rule store_invE)
  fix kv reg d m
  assume "cs_watchRegistry (store_run threads ops) = Some reg"
    "cs_watchDispatcher (store_run threads ops) = Some d" "watch_ok reg d"
  then show ?thesis by (auto simp: watch_ok_def tables_agree_def chan_addr_def)
qed

lemma watch_result:
  assumes inv: "store_inv n cs" and room: "int n + 1 < INT64_MAX"
    and w: "WatchRange_store cs key rangeEnd addr rid kvs0 skip = (Inr (i, kvs, snap), cs1)"
  obtains kv reg d m c where "CheckInitialized cs1 = Inr (kv, reg, d, m)" "snap = mk_revision kv"
    "mk_hasCallback kv" "cs_watchDispatcher cs1 = Some d" "watch_ok reg d" "watching i c snap d"
    "reg_view reg i = Some \<lparr>wa_key = key, wa_rangeEnd = rangeEnd, wa_watcherAddr = addr,
       wa_registrationId = rid\<rparr>"
  using inv
proof (rule store_invE)
  fix kv reg d m
  assume cs: "cs_memKvStore cs = Some kv" "cs_ttlManager cs = Some m"
    "CheckInitialized cs = Inr (kv, reg, d, m)" "watch_ok reg d" "rg_nextWatchId reg \<le> int n + 1"
    "mk_hasCallback kv"
  obtain created reg' where r: "Register reg key rangeEnd addr rid = (Inr (i, created), reg')"
    using w cs(3) by (auto simp: WatchRange_store_def Let_def split: sum.splits prod.splits)
  define d1 where "d1 = (if created then AddChannel d i addr else d)"
  have snap: "snap = mk_revision kv"
    using w cs(3) r by (auto simp: WatchRange_store_def Let_def CurrentRevision_def Range_kv_def
        split: if_splits option.splits prod.splits)
  have cs1: "cs1 = cs\<lparr>cs_watchRegistry := Some reg', cs_watchDispatcher := Some (SetSnapshotRevision d1 i snap)\<rparr>"
    using w cs(3) r by (auto simp: WatchRange_store_def Let_def d1_def split: prod.splits)
  note ok = watch_ok_register [OF cs(4) _ r, folded d1_def]
  have ok1: "watch_ok reg' d1" "reg_view reg' i = Some \<lparr>wa_key = key, wa_rangeEnd = rangeEnd,
      wa_watcherAddr = addr, wa_registrationId = rid\<rparr>"
    using ok(1,2) cs(5) room by auto
  then have "map_option wa_watcherAddr (reg_view reg' i) = chan_addr d1 i"
    unfolding watch_ok_def tables_agree_def by blast
  then have "chan_addr d1 i = Some addr" using ok1(2) by simp
  then obtain c where c: "map_of (wd_channels d1) i = Some c" by (auto simp: chan_addr_def)
  have inv2: "wd_inv (SetSnapshotRevision d1 i snap)"
    using ok1(1) by (intro SetSnapshotRevision_inv) (simp add: watch_ok_def)
  have "wd_channels (SetSnapshotRevision d1 i snap) = wd_channels d1"
    using same_table_steps(3) [of d1 i snap] by (simp add: same_table_def)
  then have "watching i c snap (SetSnapshotRevision d1 i snap)"
    using inv2 c by (simp add: watching_def) (simp add: SetSnapshotRevision_def Let_def Schedule_channel)
  moreover have "watch_ok reg' (SetSnapshotRevision d1 i snap)"
    using inv2 by (intro watch_ok_same [OF ok1(1)]) simp_all
  ultimately show ?thesis
    using that [of kv reg' "SetSnapshotRevision d1 i snap" m c] cs snap ok1(2)
    by (simp add: cs1 CheckInitialized_def)
qed

text \<open>
  C19. From a commit to the watcher's queue. After a successful WatchRange with snapshot revision
  \<open>snap\<close>, a successful Put of a key in the watched range is, after one fan-out pass over a pending
  queue that fits one pass, the last event in the queue of the watcher's channel, with the value and
  the revision the Put returned, which is above the snapshot, and the channel is queued for
  dispatch; unless the channel has been marked for a re-watch, which tells the watcher to start over.
\<close>

theorem commit_reaches_watcher:
  assumes "0 < threads" and "int (length ops) + 1 < INT64_MAX"
    and "WatchRange_store (store_run threads ops) key rangeEnd addr rid [] skip = (Inr (i, kvs, snap), cs1)"
    and "Store_Put cs1 now k v ttl ev em eg = (Inr (version, rv), cs2)"
    and "if rangeEnd = [] then k = key else key \<le> k \<and> k < rangeEnd"
    and "cs_watchDispatcher cs1 = Some d1" and "length (wd_pendingQueue d1) < MAX_WATCH_EVENTS_PER_FAN_OUT"
    and "0 \<le> snap" and "snap < INT64_MAX"
  shows "\<exists>d c. cs_watchDispatcher (store_step cs2 SoFanOut) = Some d \<and> map_of (wd_channels d) i = Some c
    \<and> (wc_needReWatch (wd_heap d c)
       \<or> wc_snapshotRevision (wd_heap d c) = snap \<and> snap < rv \<and> wc_dispatchQueued (wd_heap d c)
         \<and> (\<exists>q e. wc_queue (wd_heap d c) = q @ [e] \<and> we_type e = PUT \<and> kv_key (we_entry e) = k
               \<and> kv_value (we_entry e) = v \<and> we_revision e = rv))"
proof -
  have inv: "store_inv (length ops) (store_run threads ops)"
    using assms(1,2) by (intro store_run_inv) auto
  obtain kv reg m c where ci: "CheckInitialized cs1 = Inr (kv, reg, d1, m)" and snap: "snap = mk_revision kv"
    and cb: "mk_hasCallback kv" and ok: "watch_ok reg d1" and w: "watching i c snap d1"
    and view: "reg_view reg i = Some \<lparr>wa_key = key, wa_rangeEnd = rangeEnd, wa_watcherAddr = addr,
       wa_registrationId = rid\<rparr>"
    using watch_result [OF inv assms(2,3)] assms(6) by (metis option.inject)
  show ?thesis
  proof (cases rule: Put_cases [of kv k ev em eg v ttl])
    case (fail e)
    then show ?thesis using assms(4) ci by (simp add: Store_Put_def)
  next
    case (commit e r)
    have e: "ve_value e = v" using commit(3) by (simp add: put_entry_def split: option.splits)
    let ?ev = "put_event k e r"
    have rv: "rv = r" "r = snap + 1"
      using assms(4,8,9) ci commit snap by (auto simp: Store_Put_def Let_def wrap_s64_succ)
    have cs2: "cs_watchRegistry cs2 = Some reg" "cs_watchDispatcher cs2 = Some (Enqueue d1 ?ev)"
      using assms(4) ci cb commit(4)
      by (auto simp: Store_Put_def Let_def callback_events_def commit_kv_def mutation_callback_def
          CheckInitialized_def split: option.splits)
    have reg: "reg_inv reg" using ok by (simp add: watch_ok_def)
    have "i \<in> set (map wt_watchId (MatchWatchers reg (kv_key (we_entry ?ev)) []))"
      unfolding MatchWatchers_view(2) [OF reg]
      using view assms(5) by (auto simp: watch_covers_def put_event_def to_kv_def split: if_splits)
    note reach = fan_out_loop_reaches [OF w reg assms(7) this MatchWatchers_view(1) [OF reg]]
    have "cs_watchDispatcher (store_step cs2 SoFanOut) = Some (FanOutLoop reg (Enqueue d1 ?ev))"
      using cs2 by (simp add: with_watch_def)
    then show ?thesis
      using reach rv e by (auto simp: put_event_def to_kv_def)
  qed
qed

subsection \<open>After shutdown\<close>

text \<open>The calls a client can still make on a store whose threads have been joined.\<close>

fun client_call :: "StoreOp \<Rightarrow> bool" where
  "client_call SoFanOut = False"
| "client_call (SoBegin g now) = False"
| "client_call (SoEnd i status now) = False"
| "client_call op = True"

definition quiet :: "(WatchEventType \<times> string) list \<Rightarrow> WatchEvent list option \<Rightarrow> CoordinatorStore \<Rightarrow> bool" where
  "quiet observed pending cs \<longleftrightarrow> \<not> cs_observer cs \<and> cs_observed cs = observed
     \<and> map_option wd_pendingQueue (cs_watchDispatcher cs) = pending
     \<and> (\<forall>kv. cs_memKvStore cs = Some kv \<longrightarrow> \<not> mk_hasCallback kv)
     \<and> (\<forall>m. cs_ttlManager cs = Some m \<longrightarrow> \<not> tm_running m)"

lemma no_callback_events:
  assumes "\<not> mk_hasCallback kv"
  shows "snd (snd (Put kv k v ttl ev em eg)) = []" "snd (snd (Delete kv k re dels em)) = []"
    "snd (snd (DeleteIfTtlExpired kv k rv g)) = []"
proof -
  show "snd (snd (Put kv k v ttl ev em eg)) = []"
    using assms by (cases rule: Put_cases [of kv k ev em eg v ttl]) (auto simp: callback_events_def)
  show "snd (snd (Delete kv k re dels em)) = []"
    using assms by (cases rule: Delete_cases [of kv k re dels em]) (auto simp: callback_events_def)
  show "snd (snd (DeleteIfTtlExpired kv k rv g)) = []"
    using assms by (cases rule: DeleteIfTtlExpired_cases [of kv k rv g]) (auto simp: callback_events_def)
qed

lemma quiet_pass: "quiet ob pq cs \<Longrightarrow> expiration_pass cs now = cs"
  by (cases "cs_ttlManager cs") (simp_all add: quiet_def expiration_pass_def CheckExpiration_def)

lemma pending_kept [simp]:
  "wd_pendingQueue (RemoveChannel d i) = wd_pendingQueue d"
  "wd_pendingQueue (AddChannel d i addr) = wd_pendingQueue d"
  "wd_pendingQueue (SetSnapshotRevision d i rv) = wd_pendingQueue d"
  "wd_pendingQueue (foldl RemoveChannel d ids) = wd_pendingQueue d"
proof -
  show rm: "wd_pendingQueue (RemoveChannel d i) = wd_pendingQueue d" for d i
    by (simp add: RemoveChannel_def Let_def split: option.splits)
  show "wd_pendingQueue (AddChannel d i addr) = wd_pendingQueue d"
    by (simp add: AddChannel_def Let_def split: option.splits)
  show "wd_pendingQueue (SetSnapshotRevision d i rv) = wd_pendingQueue d"
    using same_table_steps(3) [of d i rv] by (simp add: same_table_def)
  show "wd_pendingQueue (foldl RemoveChannel d ids) = wd_pendingQueue d"
    by (rule foldl_inv [where P = "\<lambda>x. wd_pendingQueue x = wd_pendingQueue d"]) (simp_all add: rm)
qed

lemma cancel_watch_ids_pending:
  "cancel_watch_ids reg d addr ids e = (e', reg', d') \<Longrightarrow> wd_pendingQueue d' = wd_pendingQueue d"
  by (induction ids arbitrary: reg d e) (auto split: sum.splits prod.splits if_splits)

lemma quiet_kv_step:
  assumes q: "quiet ob pq cs" and ci: "CheckInitialized cs = Inr (kv, reg, d, m)"
  shows "quiet ob pq (snd (Store_Put cs now k v ttl ev em eg))" "quiet ob pq (snd (DeleteRange cs k e em))"
    "quiet ob pq (snd (Store_KeepAlive cs now k em))"
proof -
  have kv: "cs_memKvStore cs = Some kv" "cs_ttlManager cs = Some m"
    using ci by (auto simp: CheckInitialized_def split: option.splits)
  then have cb: "\<not> mk_hasCallback kv" and run: "\<not> tm_running m" using q by (auto simp: quiet_def)
  note kept = kv_callback_kept [of kv] and none = no_callback_events [OF cb]
  show "quiet ob pq (snd (Store_Put cs now k v ttl ev em eg))"
    using q ci cb run kept(1) [of k v ttl ev em eg] none(1) [of k v ttl ev em eg]
    by (auto simp: Store_Put_def Let_def commit_kv_def quiet_def kv split: prod.splits sum.splits)
  show "quiet ob pq (snd (DeleteRange cs k e em))"
    using q ci cb run kept(2) [of k e "[]" em] none(2) [of k e "[]" em]
    by (auto simp: DeleteRange_def commit_kv_def quiet_def kv split: prod.splits sum.splits)
  show "quiet ob pq (snd (Store_KeepAlive cs now k em))"
    using q ci cb run kept(4) [of k em]
    by (auto simp: Store_KeepAlive_def quiet_def kv split: prod.splits sum.splits)
qed

lemma quiet_watch_step:
  assumes q: "quiet ob pq cs" and ci: "CheckInitialized cs = Inr (kv, reg, d, m)"
  shows "quiet ob pq (snd (WatchRange_store cs k e addr rid kvs skip))"
    "quiet ob pq (snd (CancelWatch cs addr ids))"
proof -
  have cs: "cs_watchRegistry cs = Some reg" "cs_watchDispatcher cs = Some d"
    using ci by (auto simp: CheckInitialized_def split: option.splits)
  show "quiet ob pq (snd (WatchRange_store cs k e addr rid kvs skip))"
    using q ci cs by (auto simp: WatchRange_store_def Let_def quiet_def split: prod.splits sum.splits)
  obtain e' reg' d' where c: "cancel_watch_ids reg d addr ids None = (e', reg', d')"
    by (metis prod_cases3)
  have "wd_pendingQueue d' = wd_pendingQueue d" by (rule cancel_watch_ids_pending [OF c])
  then show "quiet ob pq (snd (CancelWatch cs addr ids))"
    using q ci cs c by (simp add: CancelWatch_def quiet_def)
qed

lemma quiet_remove_by:
  assumes q: "quiet ob pq cs"
  shows "quiet ob pq (with_watch cs (\<lambda>reg d. RemoveChannelsByWatcher reg d addr))"
proof -
  have "wd_pendingQueue (snd (RemoveChannelsByWatcher reg d addr)) = wd_pendingQueue d" for reg d
    by (simp add: RemoveChannelsByWatcher_def split: option.splits prod.splits)
  then show ?thesis
    using q by (cases "cs_watchRegistry cs"; cases "cs_watchDispatcher cs")
      (auto simp: with_watch_def quiet_def split_def)
qed

lemma quiet_step:
  assumes q: "quiet ob pq cs" and c: "client_call op"
  shows "quiet ob pq (store_step cs op)"
proof (cases "CheckInitialized cs")
  case (Inl e)
  then show ?thesis
    using q c quiet_pass [OF q] quiet_remove_by [OF q]
    by (cases op) (simp_all add: Store_Put_def DeleteRange_def Store_KeepAlive_def WatchRange_store_def
        CancelWatch_def)
next
  case (Inr x)
  obtain kv reg d m where x: "x = (kv, reg, d, m)" by (cases x)
  note ci = Inr [unfolded x]
  show ?thesis
    using quiet_kv_step [OF q ci] quiet_watch_step [OF q ci] quiet_remove_by [OF q] quiet_pass [OF q] q c
    by (cases op) simp_all
qed

text \<open>
  C20. Shutdown silences the store. Whatever calls clients still make after the first Shutdown, and
  whatever they commit, the committed-mutation observer sees nothing more, no event is added to the
  dispatcher's pending queue, and an expiration pass deletes nothing.
\<close>

theorem shutdown_is_quiet:
  assumes "\<not> cs_shutdown cs" and "list_all client_call ops"
  shows "cs_observed (foldl store_step (Shutdown cs) ops) = cs_observed cs
    \<and> map_option wd_pendingQueue (cs_watchDispatcher (foldl store_step (Shutdown cs) ops))
        = map_option wd_pendingQueue (cs_watchDispatcher cs)
    \<and> expiration_pass (foldl store_step (Shutdown cs) ops) now = foldl store_step (Shutdown cs) ops"
proof -
  let ?pq = "map_option wd_pendingQueue (cs_watchDispatcher cs)"
  have "wd_pendingQueue (Dispatcher_Stop d) = wd_pendingQueue d" for d
    by (simp add: Dispatcher_Stop_def)
  moreover have "\<not> tm_running (Ttl_Stop m)" for m by (simp add: Ttl_Stop_def)
  ultimately have "quiet (cs_observed cs) ?pq (Shutdown cs)"
    using assms(1) by (auto simp: quiet_def Shutdown_def StopTtl_def Let_def SetMutationCallback_def
        option.map_comp comp_def)
  then have "quiet (cs_observed cs) ?pq (foldl store_step (Shutdown cs) ops)"
    using assms(2)
  proof (induction ops rule: rev_induct)
    case (snoc op ops)
    then show ?case by (simp add: quiet_step)
  qed simp
  then show ?thesis using quiet_pass by (auto simp: quiet_def)
qed

subsection \<open>A concrete store\<close>

text \<open>A watch on key k without initial entries, then a Put of that key.\<close>

definition demo_watch :: StoreOp where
  "demo_watch = SoWatch ''k'' [] ''h'' ''r'' True"

definition demo_cs1 :: CoordinatorStore where
  "demo_cs1 = snd (WatchRange_store (store_run 2 []) ''k'' [] ''h'' ''r'' [] True)"

definition demo_cs2 :: CoordinatorStore where
  "demo_cs2 = snd (Store_Put demo_cs1 0 ''k'' ''v'' 0 (-1) 0 0)"

lemma demo_register:
  "Register new_WatchRegistry ''k'' [] ''h'' ''r'' = (Inr (1, True), register_fresh new_WatchRegistry ''k'' [] ''h'' ''r'')"
  using Register_fresh [of "''r''" new_WatchRegistry "''k''" "[]" "''h''"] by (simp add: new_WatchRegistry_def)

lemma demo_init:
  "CheckInitialized (started_CoordinatorStore 2) = Inr (started_store, new_WatchRegistry,
     started_dispatcher 2, Ttl_Start (SetExpireCallback new_TtlManager True))"
  by (simp add: started_store_eq CheckInitialized_def)

lemma demo_watch_result:
  "WatchRange_store (store_run 2 []) ''k'' [] ''h'' ''r'' [] True = (Inr (1, [], 1), demo_cs1)"
  by (simp add: demo_cs1_def WatchRange_store_def store_run_def demo_init demo_register Let_def
      CurrentRevision_def started_store_def SetMutationCallback_def empty_store_def)

lemma demo_cs1_eq:
  "demo_cs1 = (started_CoordinatorStore 2)
     \<lparr>cs_watchRegistry := Some (register_fresh new_WatchRegistry ''k'' [] ''h'' ''r''),
      cs_watchDispatcher := Some (SetSnapshotRevision (AddChannel (started_dispatcher 2) 1 ''h'') 1 1)\<rparr>"
  by (simp add: demo_cs1_def WatchRange_store_def store_run_def demo_init demo_register Let_def
      CurrentRevision_def started_store_def SetMutationCallback_def empty_store_def)

lemma demo_put_result:
  "Store_Put demo_cs1 0 ''k'' ''v'' 0 (-1) 0 0 = (Inr (1, 2), demo_cs2)"
  by (simp add: demo_cs2_def demo_cs1_eq started_store_eq Store_Put_def CheckInitialized_def
      started_store_def SetMutationCallback_def empty_store_def Put_def put_checks_def put_entry_def
      wrap_s64_def Let_def)

theorem watch_tables_agree_witness:
  "\<exists>reg d. cs_watchRegistry (store_run 2 [demo_watch]) = Some reg
     \<and> cs_watchDispatcher (store_run 2 [demo_watch]) = Some d
     \<and> map_option wa_watcherAddr (reg_view reg 1) = Some ''h''
     \<and> map_option (\<lambda>c. wc_watcherAddr (wd_heap d c)) (map_of (wd_channels d) 1) = Some ''h''"
proof -
  have run: "store_run 2 [demo_watch] = demo_cs1"
    using demo_watch_result by (simp add: store_run_def demo_watch_def)
  have v: "reg_view (register_fresh new_WatchRegistry ''k'' [] ''h'' ''r'') 1
      = Some \<lparr>wa_key = ''k'', wa_rangeEnd = [], wa_watcherAddr = ''h'', wa_registrationId = ''r''\<rparr>"
    by (simp add: reg_view_fresh) (simp add: new_WatchRegistry_def)
  have "int (length [demo_watch]) < INT64_MAX" by (simp add: INT64_MAX_def)
  from watch_tables_agree [OF _ this, of 2] obtain reg d where
    rd: "cs_watchRegistry (store_run 2 [demo_watch]) = Some reg"
      "cs_watchDispatcher (store_run 2 [demo_watch]) = Some d"
    and agree: "map_option wa_watcherAddr (reg_view reg 1)
        = map_option (\<lambda>c. wc_watcherAddr (wd_heap d c)) (map_of (wd_channels d) 1)"
    by auto
  have "map_option wa_watcherAddr (reg_view reg 1) = Some ''h''"
    using rd(1) v by (simp add: run demo_cs1_eq)
  then show ?thesis using rd agree by auto
qed

theorem commit_reaches_watcher_witness:
  "\<exists>d c. cs_watchDispatcher (store_step demo_cs2 SoFanOut) = Some d \<and> map_of (wd_channels d) 1 = Some c
    \<and> (wc_needReWatch (wd_heap d c)
       \<or> wc_snapshotRevision (wd_heap d c) = 1 \<and> 1 < (2 :: int) \<and> wc_dispatchQueued (wd_heap d c)
         \<and> (\<exists>q e. wc_queue (wd_heap d c) = q @ [e] \<and> we_type e = PUT \<and> kv_key (we_entry e) = ''k''
               \<and> kv_value (we_entry e) = ''v'' \<and> we_revision e = 2))"
proof -
  let ?d = "SetSnapshotRevision (AddChannel (started_dispatcher 2) 1 ''h'') 1 1"
  have d: "cs_watchDispatcher demo_cs1 = Some ?d" by (simp add: demo_cs1_eq)
  have q: "length (wd_pendingQueue ?d) < MAX_WATCH_EVENTS_PER_FAN_OUT"
    by (simp add: started_dispatcher_def Dispatcher_Start_def new_WatchDispatcher_def Let_def
        MAX_WATCH_EVENTS_PER_FAN_OUT_def)
  show ?thesis
    using commit_reaches_watcher [OF _ _ demo_watch_result demo_put_result _ d q]
    by (simp add: INT64_MAX_def)
qed

theorem shutdown_is_quiet_witness:
  "cs_observed (foldl store_step (Shutdown demo_cs1) [SoPut 0 ''k'' ''v'' 5 (-1) 0 0]) = []
   \<and> expiration_pass (foldl store_step (Shutdown demo_cs1) [SoPut 0 ''k'' ''v'' 5 (-1) 0 0]) 9000000
     = foldl store_step (Shutdown demo_cs1) [SoPut 0 ''k'' ''v'' 5 (-1) 0 0]"
proof -
  have "\<not> cs_shutdown demo_cs1" "cs_observed demo_cs1 = []"
    by (simp_all add: demo_cs1_eq started_store_eq)
  then show ?thesis
    using shutdown_is_quiet [of demo_cs1 "[SoPut 0 ''k'' ''v'' 5 (-1) 0 0]" 9000000] by simp
qed

end
