(* ===== verification/HashRingToken.thy ===== *)
theory HashRingToken
  imports DS_Prelude
begin

section \<open>Ring tokens\<close>

text \<open>
  Models src/datasystem/common/util/hash_algorithm.cpp (MurmurHash3, without the injection points
  that only a test build has) and src/datasystem/common/util/hash_ring_token.{h,cpp}: the token of
  a member on the hash ring is the hash of "address#index" or "address#index#seed". The functions
  write the decimal digits into a reused character buffer; the buffer is modelled with the bytes
  that earlier calls left in it. Words are read in little-endian order, as on the supported
  platforms.
\<close>

unbundle bit_operations_syntax

type_synonym u8 = "8 word"

subsection \<open>MurmurHash3\<close>

definition C1 :: u32 where "C1 = 0xcc9e2d51"
definition C2 :: u32 where "C2 = 0x1b873593"
definition R1 :: nat where "R1 = 15"
definition R2 :: nat where "R2 = 13"
definition murmur_M :: u32 where "murmur_M = 5"
definition murmur_N :: u32 where "murmur_N = 0xe6546b64"

definition Rotl :: "u32 \<Rightarrow> nat \<Rightarrow> u32" where
  "Rotl val r = (if val = 0 then val else push_bit r val OR drop_bit (32 - r) val)"

definition Fmix :: "u32 \<Rightarrow> u32" where
  "Fmix val =
     (let val = val XOR drop_bit 16 val;
          val = val * 0x85ebca6b;
          val = val XOR drop_bit 13 val;
          val = val * 0xc2b2ae35
      in val XOR drop_bit 16 val)"

text \<open>GetRemain runs the index from mod - 1 down to 0; the byte with index i is shifted by 8 * i.\<close>

fun remain_from :: "u8 list \<Rightarrow> nat \<Rightarrow> u32 \<Rightarrow> u32" where
  "remain_from remain 0 k = k"
| "remain_from remain (Suc i) k = remain_from remain i (k XOR push_bit (i * 8) (ucast (remain ! i)))"

definition GetRemain :: "u8 list \<Rightarrow> nat \<Rightarrow> u32" where
  "GetRemain remain m = remain_from remain m 0"

definition le_block :: "u8 \<Rightarrow> u8 \<Rightarrow> u8 \<Rightarrow> u8 \<Rightarrow> u32" where
  "le_block a b c d = ucast a OR push_bit 8 (ucast b) OR push_bit 16 (ucast c) OR push_bit 24 (ucast d)"

definition mix_block :: "u32 \<Rightarrow> u32" where
  "mix_block k = Rotl (k * C1) R1 * C2"

fun murmur_body :: "u8 list \<Rightarrow> u32 \<Rightarrow> u8 list \<times> u32" where
  "murmur_body (a # b # c # d # rest) result =
     murmur_body rest (Rotl (result XOR mix_block (le_block a b c d)) R2 * murmur_M + murmur_N)"
| "murmur_body remain result = (remain, result)"

definition MurmurHash3_32 :: "u8 list \<Rightarrow> u32 \<Rightarrow> u32" where
  "MurmurHash3_32 data seed =
     (case murmur_body data seed of (remain, result) \<Rightarrow>
        let m = length data mod 4;
            result = (if m \<noteq> 0 then result XOR mix_block (GetRemain remain m) else result)
        in Fmix (result XOR of_nat (length data)))"

definition byte_of :: "char \<Rightarrow> u8" where
  "byte_of c = of_nat (of_char c)"

subsection \<open>Decimal digits in a buffer\<close>

fun decimal :: "nat \<Rightarrow> string" where
  "decimal n = (if n < 10 then [char_of (48 + n)] else decimal (n div 10) @ [char_of (48 + n mod 10)])"

text \<open>
  std::to_chars into [pos, size): the digits overwrite the buffer from pos on, and the result is the
  position behind them; without room the result is the end and the buffer is left as it is.
\<close>

definition overwrite :: "nat \<Rightarrow> string \<Rightarrow> string \<Rightarrow> string" where
  "overwrite pos s input = take pos input @ s @ drop (pos + length s) input"

definition to_chars :: "string \<Rightarrow> nat \<Rightarrow> u32 \<Rightarrow> string \<times> nat" where
  "to_chars input pos n =
     (let s = decimal (unat n)
      in if pos + length s \<le> length input then (overwrite pos s input, pos + length s)
         else (input, length input))"

definition TOKEN_SEPARATOR :: char where "TOKEN_SEPARATOR = CHR ''#''"
definition MAX_UINT32_DECIMAL_DIGITS :: nat where "MAX_UINT32_DECIMAL_DIGITS = 10"

definition MAX_TOKEN_SUFFIX_BYTES :: nat where
  "MAX_TOKEN_SUFFIX_BYTES = MAX_UINT32_DECIMAL_DIGITS * 2 + 2"

definition MAX_HASH_RING_TOKEN_SEEDS :: u32 where "MAX_HASH_RING_TOKEN_SEEDS = 10000"
definition MAX_HASH_RING_TOKENS_PER_MEMBER :: u32 where "MAX_HASH_RING_TOKENS_PER_MEMBER = 4096"
definition BALANCED_PLACEMENT_SEED_CANDIDATES :: u32 where "BALANCED_PLACEMENT_SEED_CANDIDATES = 1000"

text \<open>resize pads with null characters.\<close>

definition InitializeTokenBuffer :: "string \<Rightarrow> string" where
  "InitializeTokenBuffer address =
     (let input = address @ [TOKEN_SEPARATOR]
      in input @ replicate (length address + MAX_TOKEN_SUFFIX_BYTES - length input) (char_of (0 :: nat)))"

definition MakeTokenWithBuffer :: "nat \<Rightarrow> u32 \<Rightarrow> u32 \<Rightarrow> string \<Rightarrow> u32 \<times> string" where
  "MakeTokenWithBuffer prefixSize index seed input =
     (case to_chars input prefixSize index of (input1, next1) \<Rightarrow>
        (case (if seed > 0 then to_chars (overwrite next1 [TOKEN_SEPARATOR] input1) (next1 + 1) seed
               else (input1, next1)) of
           (input2, next2) \<Rightarrow> (MurmurHash3_32 (map byte_of (take next2 input2)) 0, input2)))"

definition MakeHashRingToken :: "string \<Rightarrow> u32 \<Rightarrow> u32 \<Rightarrow> u32" where
  "MakeHashRingToken address index seed =
     fst (MakeTokenWithBuffer (length address + 1) index seed (InitializeTokenBuffer address))"

fun rebuild_tokens :: "nat \<Rightarrow> nat \<Rightarrow> u32 list \<Rightarrow> string \<Rightarrow> u32 list" where
  "rebuild_tokens prefixSize index [] input = []"
| "rebuild_tokens prefixSize index (seed # seeds) input =
     (case MakeTokenWithBuffer prefixSize (of_nat index) seed input of
        (token, input') \<Rightarrow> token # rebuild_tokens prefixSize (Suc index) seeds input')"

definition MakeHashRingTokens :: "string \<Rightarrow> u32 list \<Rightarrow> u32 list" where
  "MakeHashRingTokens address seeds =
     rebuild_tokens (length address + 1) 0 seeds (InitializeTokenBuffer address)"

text \<open>The loop over the seeds from 1 on; \<open>n\<close> seeds are left.\<close>

fun derive_candidates :: "nat \<Rightarrow> nat \<Rightarrow> u32 \<Rightarrow> string \<Rightarrow> u32 list" where
  "derive_candidates indexEnd 0 seed input = []"
| "derive_candidates indexEnd (Suc n) seed input =
     (case to_chars (overwrite indexEnd [TOKEN_SEPARATOR] input) (indexEnd + 1) seed of
        (input', next') \<Rightarrow>
          MurmurHash3_32 (map byte_of (take next' input')) 0
          # derive_candidates indexEnd n (seed + 1) input')"

definition MakeHashRingTokenCandidates :: "string \<Rightarrow> u32 \<Rightarrow> u32 \<Rightarrow> u32 list" where
  "MakeHashRingTokenCandidates address index candidateSeeds =
     (case to_chars (InitializeTokenBuffer address) (length address + 1) index of
        (input, indexEnd) \<Rightarrow>
          MurmurHash3_32 (map byte_of (take indexEnd input)) 0
          # derive_candidates indexEnd (unat candidateSeeds - 1) 1 input)"

subsection \<open>Digits\<close>

declare decimal.simps [simp del]

lemma decimal_length: "n < 10 ^ k \<Longrightarrow> 0 < k \<Longrightarrow> length (decimal n) \<le> k"
proof (induction n arbitrary: k rule: decimal.induct)
  case (1 n)
  show ?case
  proof (cases "n < 10")
    case False
    obtain j where "k = Suc j" using 1(3) by (cases k) auto
    moreover have "0 < j" using 1(2) False calculation by (cases j) auto
    ultimately have k: "k = Suc j" "0 < j" by simp_all
    have "n div 10 < 10 ^ j" using 1(2) k by (simp add: less_mult_imp_div_less mult.commute)
    then show ?thesis using 1(1) [OF False _ k(2)] False k by (simp add: decimal.simps [of n])
  qed (use 1 in \<open>simp add: decimal.simps [of n]\<close>)
qed

lemma decimal_nonempty: "decimal n \<noteq> []"
  by (subst decimal.simps) simp

lemma decimal_u32: "length (decimal (unat (n :: u32))) \<le> 10"
proof -
  have "unat n < 2 ^ 32" using unsigned_less [of n, where ?'a = nat] by simp
  then show ?thesis by (intro decimal_length) simp_all
qed

subsection \<open>Tokens do not depend on the buffer\<close>

text \<open>The token as the comment in the header describes it.\<close>

definition token_text :: "string \<Rightarrow> u32 \<Rightarrow> u32 \<Rightarrow> string" where
  "token_text address index seed =
     address @ [TOKEN_SEPARATOR] @ decimal (unat index)
     @ (if seed > 0 then TOKEN_SEPARATOR # decimal (unat seed) else [])"

definition token_of :: "string \<Rightarrow> u32 \<Rightarrow> u32 \<Rightarrow> u32" where
  "token_of address index seed = MurmurHash3_32 (map byte_of (token_text address index seed)) 0"

text \<open>A buffer for an address: its size, and the address with the separator in front.\<close>

definition buffer_ok :: "string \<Rightarrow> string \<Rightarrow> bool" where
  "buffer_ok address input \<longleftrightarrow> length input = length address + MAX_TOKEN_SUFFIX_BYTES
     \<and> take (length address + 1) input = address @ [TOKEN_SEPARATOR]"

lemma InitializeTokenBuffer_ok: "buffer_ok address (InitializeTokenBuffer address)"
  by (simp add: buffer_ok_def InitializeTokenBuffer_def Let_def MAX_TOKEN_SUFFIX_BYTES_def
      MAX_UINT32_DECIMAL_DIGITS_def)

lemma overwrite_facts:
  assumes "pos + length s \<le> length input"
  shows "length (overwrite pos s input) = length input"
    "take (pos + length s) (overwrite pos s input) = take pos input @ s"
    "k \<le> pos \<Longrightarrow> take k (overwrite pos s input) = take k input"
proof -
  have pos: "pos \<le> length input" using assms by simp
  show "length (overwrite pos s input) = length input"
    "take (pos + length s) (overwrite pos s input) = take pos input @ s"
    using assms pos by (simp_all add: overwrite_def)
  show "take k (overwrite pos s input) = take k input" if "k \<le> pos"
    using pos that by (simp add: overwrite_def min_absorb2)
qed

lemma to_chars_fits:
  assumes "pos + 10 \<le> length input"
  shows "to_chars input pos n = (overwrite pos (decimal (unat n)) input, pos + length (decimal (unat n)))"
  using assms decimal_u32 [of n] by (simp add: to_chars_def Let_def)

lemma MakeTokenWithBuffer_correct:
  assumes "buffer_ok address input"
  shows "fst (MakeTokenWithBuffer (length address + 1) index seed input) = token_of address index seed"
    "buffer_ok address (snd (MakeTokenWithBuffer (length address + 1) index seed input))"
proof -
  let ?a = "length address + 1"
  let ?ds = "decimal (unat index)"
  let ?ss = "decimal (unat seed)"
  have len: "length input = length address + 22" and pre: "take ?a input = address @ [TOKEN_SEPARATOR]"
    using assms by (auto simp: buffer_ok_def MAX_TOKEN_SUFFIX_BYTES_def MAX_UINT32_DECIMAL_DIGITS_def)
  have ds: "length ?ds \<le> 10" and ss: "length ?ss \<le> 10" by (rule decimal_u32)+
  define b1 where "b1 = overwrite ?a ?ds input"
  have t1: "to_chars input ?a index = (b1, ?a + length ?ds)"
    unfolding b1_def by (rule to_chars_fits) (simp add: len)
  have b1: "length b1 = length input" "take (?a + length ?ds) b1 = address @ [TOKEN_SEPARATOR] @ ?ds"
    "take ?a b1 = address @ [TOKEN_SEPARATOR]"
    using overwrite_facts [of ?a ?ds input] ds len pre by (simp_all add: b1_def)
  define b2 where "b2 = overwrite (?a + length ?ds) [TOKEN_SEPARATOR] b1"
  have b2: "length b2 = length input"
    "take (?a + length ?ds + 1) b2 = address @ [TOKEN_SEPARATOR] @ ?ds @ [TOKEN_SEPARATOR]"
    "take ?a b2 = address @ [TOKEN_SEPARATOR]"
    using overwrite_facts [of "?a + length ?ds" "[TOKEN_SEPARATOR]" b1] ds len b1
    by (simp_all add: b2_def)
  define b3 where "b3 = overwrite (?a + length ?ds + 1) ?ss b2"
  have t3: "to_chars b2 (?a + length ?ds + 1) seed = (b3, ?a + length ?ds + 1 + length ?ss)"
    unfolding b3_def by (rule to_chars_fits) (use b2(1) len ds in simp)
  have b3: "length b3 = length input"
    "take (?a + length ?ds + 1 + length ?ss) b3
       = address @ [TOKEN_SEPARATOR] @ ?ds @ [TOKEN_SEPARATOR] @ ?ss"
    "take ?a b3 = address @ [TOKEN_SEPARATOR]"
    using overwrite_facts [of "?a + length ?ds + 1" ?ss b2] ds ss len b2 by (simp_all add: b3_def)
  have m: "MakeTokenWithBuffer ?a index seed input
      = (token_of address index seed, if seed > 0 then b3 else b1)"
    using t1 t3 b1(2) b3(2) b2_def by (simp add: MakeTokenWithBuffer_def token_of_def token_text_def)
  show "fst (MakeTokenWithBuffer ?a index seed input) = token_of address index seed"
    by (simp only: m fst_conv)
  show "buffer_ok address (snd (MakeTokenWithBuffer ?a index seed input))"
    unfolding m using assms b1 b3 by (simp add: buffer_ok_def)
qed

lemma MakeHashRingToken_eq: "MakeHashRingToken address index seed = token_of address index seed"
  by (simp add: MakeHashRingToken_def MakeTokenWithBuffer_correct [OF InitializeTokenBuffer_ok, simplified])

lemma rebuild_tokens_correct:
  "buffer_ok address input \<Longrightarrow> rebuild_tokens (length address + 1) i seeds input
     = map (\<lambda>j. token_of address (of_nat (i + j)) (seeds ! j)) [0..<length seeds]"
proof (induction seeds arbitrary: i input)
  case (Cons seed seeds)
  obtain t input' where m: "MakeTokenWithBuffer (length address + 1) (of_nat i) seed input = (t, input')"
    by fastforce
  then have t: "t = token_of address (of_nat i) seed" "buffer_ok address input'"
    using MakeTokenWithBuffer_correct [OF Cons.prems, of "of_nat i" seed] by auto
  have "map (\<lambda>j. token_of address (of_nat (i + j)) ((seed # seeds) ! j)) [0..<length (seed # seeds)]
      = token_of address (of_nat i) seed
        # map (\<lambda>j. token_of address (of_nat (Suc i + j)) (seeds ! j)) [0..<length seeds]"
    by (simp add: upt_conv_Cons map_Suc_upt [symmetric] ac_simps del: upt_Suc)
  then show ?case using m t Cons.IH [OF t(2), of "Suc i"] by simp
qed simp

lemma derive_candidates_correct:
  assumes "length input = length address + MAX_TOKEN_SUFFIX_BYTES"
    and "e = length address + 1 + length (decimal (unat index))"
    and "take e input = address @ [TOKEN_SEPARATOR] @ decimal (unat index)"
    and "0 < unat seed" and "unat seed + n \<le> 2 ^ 32"
  shows "derive_candidates e n seed input
    = map (\<lambda>j. token_of address index (of_nat j)) [unat seed..<unat seed + n]"
  using assms
proof (induction n arbitrary: seed input)
  case (Suc n)
  let ?ss = "decimal (unat seed)"
  have len: "length input = length address + 22"
    using Suc.prems(1) by (simp add: MAX_TOKEN_SUFFIX_BYTES_def MAX_UINT32_DECIMAL_DIGITS_def)
  have e: "e \<le> length address + 11" and ss: "length ?ss \<le> 10"
    using Suc.prems(2) decimal_u32 [of index] decimal_u32 [of seed] by auto
  define b where "b = overwrite e [TOKEN_SEPARATOR] input"
  have b: "length b = length input" "take (e + 1) b = take e input @ [TOKEN_SEPARATOR]"
    "take e b = take e input"
    using overwrite_facts [of e "[TOKEN_SEPARATOR]" input] e len by (simp_all add: b_def)
  define b' where "b' = overwrite (e + 1) ?ss b"
  have b': "length b' = length input" "take (e + 1 + length ?ss) b' = take (e + 1) b @ ?ss"
    "take e b' = take e b"
    using overwrite_facts [of "e + 1" ?ss b] e ss len b(1) by (simp_all add: b'_def)
  have t: "to_chars b (e + 1) seed = (b', e + 1 + length ?ss)"
    unfolding b'_def by (rule to_chars_fits) (use b(1) len e in simp)
  have pos: "0 < seed" using Suc.prems(4) by (simp add: word_less_nat_alt)
  have head: "MurmurHash3_32 (map byte_of (take (e + 1 + length ?ss) b')) 0 = token_of address index seed"
    using b'(2) b(2) Suc.prems(3) pos by (simp add: token_of_def token_text_def)
  have d: "derive_candidates e (Suc n) seed input
      = token_of address index seed # derive_candidates e n (seed + 1) b'"
    using t head by (simp add: b_def [symmetric])
  show ?case
  proof (cases n)
    case 0
    then show ?thesis using d by simp
  next
    case (Suc k)
    then have "unat (seed + 1) = unat seed + 1" using Suc.prems(5) by (simp add: unat_word_ariths)
    then have "derive_candidates e n (seed + 1) b'
        = map (\<lambda>j. token_of address index (of_nat j)) [Suc (unat seed)..<Suc (unat seed) + n]"
      using Suc.IH [of b' "seed + 1"] Suc.prems b' b by simp
    then show ?thesis using d by (simp add: upt_conv_Cons del: upt_Suc)
  qed
qed simp

lemma MakeHashRingTokenCandidates_eq:
  "MakeHashRingTokenCandidates address index n
     = map (\<lambda>seed. token_of address index (of_nat seed)) [0..<max 1 (unat n)]"
proof -
  let ?ds = "decimal (unat index)"
  let ?e = "length address + 1 + length ?ds"
  let ?b = "InitializeTokenBuffer address"
  define b where "b = overwrite (length address + 1) ?ds ?b"
  have len: "length ?b = length address + 22" and pre: "take (length address + 1) ?b = address @ [TOKEN_SEPARATOR]"
    using InitializeTokenBuffer_ok [of address]
    by (auto simp: buffer_ok_def MAX_TOKEN_SUFFIX_BYTES_def MAX_UINT32_DECIMAL_DIGITS_def)
  have t: "to_chars ?b (length address + 1) index = (b, ?e)"
    unfolding b_def by (rule to_chars_fits) (simp add: len)
  have b: "length b = length address + 22" "take ?e b = address @ [TOKEN_SEPARATOR] @ ?ds"
    using overwrite_facts [of "length address + 1" ?ds ?b] decimal_u32 [of index] len pre
    by (simp_all add: b_def)
  have n: "unat n < 2 ^ 32" using unsigned_less [of n, where ?'a = nat] by simp
  have "derive_candidates ?e (unat n - 1) 1 b
      = map (\<lambda>j. token_of address index (of_nat j)) [unat (1 :: u32)..<unat (1 :: u32) + (unat n - 1)]"
    using b n by (intro derive_candidates_correct)
      (simp_all add: MAX_TOKEN_SUFFIX_BYTES_def MAX_UINT32_DECIMAL_DIGITS_def)
  moreover have "[unat (1 :: u32)..<unat (1 :: u32) + (unat n - 1)] = [1..<max 1 (unat n)]"
    by (cases "unat n") (simp_all del: upt_Suc)
  ultimately have "derive_candidates ?e (unat n - 1) 1 b
      = map (\<lambda>j. token_of address index (of_nat j)) [1..<max 1 (unat n)]" by (simp only:)
  moreover have "MurmurHash3_32 (map byte_of (take ?e b)) 0 = token_of address index 0"
    using b(2) by (simp add: token_of_def token_text_def)
  ultimately show ?thesis
    using t by (simp add: MakeHashRingTokenCandidates_def upt_conv_Cons less_max_iff_disj del: upt_Suc)
qed

lemma MakeHashRingTokens_eq:
  "MakeHashRingTokens address seeds
     = map (\<lambda>i. token_of address (of_nat i) (seeds ! i)) [0..<length seeds]"
  using rebuild_tokens_correct [OF InitializeTokenBuffer_ok, of address 0 seeds]
  by (simp add: MakeHashRingTokens_def)


end
