(* ===== verification/TopologyTypes.thy ===== *)
theory TopologyTypes
  imports DS_Prelude
begin

section \<open>Topology data\<close>

text \<open>
  Models src/datasystem/cluster/model/topology_types.h: members and their ring tokens, the topology
  state with its active batch, the tasks derived from it and the plans of the algorithms. The
  default operator== of the structs is equality of the records.
\<close>

datatype MemberState = INITIAL | JOINING | ACTIVE | PRE_LEAVING | LEAVING | FAILED

datatype TopologyChangeType = SCALE_OUT | SCALE_IN | FAILURE

datatype TopologyTaskKind = MIGRATE | DELETE_MEMBER

datatype TopologyCallbackPhase = PH_SCALE_OUT | PH_SCALE_IN | PH_SCALE_IN_CLEANUP | PH_FAILURE

definition MAX_MEMBER_ADDRESS_BYTES :: nat where "MAX_MEMBER_ADDRESS_BYTES = 1024"
definition MAX_TOPOLOGY_TASK_RANGES :: nat where "MAX_TOPOLOGY_TASK_RANGES = 4096"
definition DEFAULT_HASH_RING_TOKENS_PER_MEMBER :: u32 where "DEFAULT_HASH_RING_TOKENS_PER_MEMBER = 32"

definition IsCommittedMemberState :: "MemberState \<Rightarrow> bool" where
  "IsCommittedMemberState state \<longleftrightarrow> state = ACTIVE \<or> state = PRE_LEAVING \<or> state = LEAVING"

definition IsAdmittedScaleInMigrationTargetState :: "MemberState \<Rightarrow> bool" where
  "IsAdmittedScaleInMigrationTargetState state \<longleftrightarrow> state = ACTIVE \<or> state = PRE_LEAVING"

record MemberIdentity =
  mi_id :: string
  mi_address :: string

record TokenRange =
  rng_from :: u32
  rng_end :: u32

record TokenSeedOverride =
  so_tokenIndex :: u32
  so_tokenSeed :: u32

record Member =
  mb_identity :: MemberIdentity
  mb_state :: MemberState
  mb_tokens :: "u32 list"
  mb_tokenSeedOverrides :: "TokenSeedOverride list"

abbreviation mb_address :: "Member \<Rightarrow> string" where
  "mb_address m \<equiv> mi_address (mb_identity m)"

abbreviation mb_id :: "Member \<Rightarrow> string" where
  "mb_id m \<equiv> mi_id (mb_identity m)"

record ActiveBatch =
  ab_type :: TopologyChangeType
  ab_epoch :: u64

record TopologyMigrationFence =
  mf_topologyVersion :: u64
  mf_batchEpoch :: u64
  mf_source :: MemberIdentity
  mf_target :: MemberIdentity

record TopologyState =
  ts_clusterHasInit :: bool
  ts_version :: u64
  ts_members :: "Member list"
  ts_activeBatch :: "ActiveBatch option"
  ts_tokensPerMember :: u32

record TopologyTaskRange =
  ttr_ownerAddress :: string
  ttr_range :: TokenRange
  ttr_finished :: bool

record TopologyMigrateTask =
  mt_taskId :: string
  mt_type :: TopologyChangeType
  mt_epoch :: u64
  mt_executorAddress :: string
  mt_targetAddress :: string
  mt_sourceRanges :: "TopologyTaskRange list"

record TopologyDeleteTask =
  dt_taskId :: string
  dt_epoch :: u64
  dt_executorAddress :: string
  dt_failedAddress :: string
  dt_recoveryRanges :: "TopologyTaskRange list"

datatype TopologyTask = MigrateTask TopologyMigrateTask | DeleteTask TopologyDeleteTask

fun TaskKind :: "TopologyTask \<Rightarrow> TopologyTaskKind" where
  "TaskKind (MigrateTask _) = MIGRATE"
| "TaskKind (DeleteTask _) = DELETE_MEMBER"

record TopologyTaskNotify =
  tn_activeBatch :: "ActiveBatch option"
  tn_taskIds :: "string list"
  tn_restartTimestampsByAddress :: "(string, int) omap"

record TopologyOwnerChange =
  oc_source :: "MemberIdentity option"
  oc_target :: MemberIdentity
  oc_ranges :: "TokenRange list"

record TopologyPlan =
  tp_next :: TopologyState
  tp_ownerChanges :: "TopologyOwnerChange list"

text \<open>A token range names the tokens from its first to its last one, without wrap-around.\<close>

definition range_set :: "TokenRange \<Rightarrow> u32 set" where
  "range_set r = {rng_from r .. rng_end r}"

definition ranges_set :: "TokenRange list \<Rightarrow> u32 set" where
  "ranges_set rs = (\<Union>r \<in> set rs. range_set r)"

lemma ranges_set_simps [simp]:
  "ranges_set [] = {}" "ranges_set (r # rs) = range_set r \<union> ranges_set rs"
  "ranges_set (rs @ rs') = ranges_set rs \<union> ranges_set rs'"
  by (auto simp: ranges_set_def)

end
