(* ===== verification/BalancedRing.thy ===== *)
theory BalancedRing
  imports TopologyTypes "HOL-Library.Multiset"
begin

section \<open>The balanced ring\<close>

text \<open>
  Models src/datasystem/cluster/algorithm/balanced_ring.{h,cpp}: the ring of tokens with, per
  member, the set of arcs it owns and the total length of these arcs. A token owns the arc from
  its predecessor (exclusive) to itself. Lengths and shares are 64-bit words, tokens 32-bit words;
  member indexes are the small ordinals the caller assigns and are natural numbers. A
  std::set<ArcRecord, ArcOrder> is a strictly sorted list for the order that ArcOrder gives.
\<close>

subsection \<open>Arcs and their order\<close>

datatype ArcRecord = ArcRecord (ar_length: u64) (ar_start: u32)

text \<open>Largest arc first; ties break on the smaller start token.\<close>

definition ArcOrder :: "ArcRecord \<Rightarrow> ArcRecord \<Rightarrow> bool" where
  "ArcOrder left right =
     (if ar_length left \<noteq> ar_length right then ar_length left > ar_length right
      else ar_start left < ar_start right)"

instantiation ArcRecord :: linorder
begin

definition less_ArcRecord :: "ArcRecord \<Rightarrow> ArcRecord \<Rightarrow> bool" where
  "less_ArcRecord = ArcOrder"

definition less_eq_ArcRecord :: "ArcRecord \<Rightarrow> ArcRecord \<Rightarrow> bool" where
  "less_eq_ArcRecord a b \<longleftrightarrow> a = b \<or> ArcOrder a b"

instance
proof
  fix x y z :: ArcRecord
  show "x < y \<longleftrightarrow> x \<le> y \<and> \<not> y \<le> x"
    by (auto simp: less_ArcRecord_def less_eq_ArcRecord_def ArcOrder_def split: if_splits)
  show "x \<le> x" by (simp add: less_eq_ArcRecord_def)
  show "x \<le> z" if "x \<le> y" "y \<le> z"
    using that by (auto simp: less_eq_ArcRecord_def ArcOrder_def split: if_splits)
  show "x = y" if "x \<le> y" "y \<le> x"
    using that by (auto simp: less_eq_ArcRecord_def ArcOrder_def split: if_splits)
  show "x \<le> y \<or> y \<le> x"
    by (cases x; cases y) (auto simp: less_eq_ArcRecord_def ArcOrder_def)
qed

end

lemma arc_le_length: "a \<le> b \<Longrightarrow> ar_length b \<le> ar_length a"
  by (auto simp: less_eq_ArcRecord_def ArcOrder_def split: if_splits)

subsection \<open>State and operations\<close>

record PlacementOwner =
  po_token :: u32
  po_memberIndex :: nat

record BalancedRing =
  br_ring :: "(u32, nat) omap"
  br_memberArcs :: "ArcRecord list list"
  br_memberShares :: "u64 list"
  br_memberCount :: nat

definition RING_SPACE :: u64 where "RING_SPACE = 2 ^ 32"
definition BALANCED_PLACEMENT_MAX_RING_TOKENS :: nat where "BALANCED_PLACEMENT_MAX_RING_TOKENS = 2000"

text \<open>\<open>emplace\<close> keeps the value of a key that is present.\<close>

definition omap_emplace :: "'k::linorder \<Rightarrow> 'v \<Rightarrow> ('k, 'v) omap \<Rightarrow> ('k, 'v) omap" where
  "omap_emplace k v m = (if map_of m k = None then omap_set k v m else m)"

text \<open>The length of the arc from \<open>prev\<close> to \<open>cur\<close>, the whole ring when they are equal.\<close>

definition arc_length :: "u32 \<Rightarrow> u32 \<Rightarrow> u64" where
  "arc_length prev cur = (ucast cur + (if cur \<le> prev then RING_SPACE else 0)) - ucast prev"

text \<open>Each token of the ring with its cyclic predecessor, in ring order.\<close>

definition ring_pairs :: "(u32, nat) omap \<Rightarrow> ((u32 \<times> nat) \<times> (u32 \<times> nat)) list" where
  "ring_pairs ring = zip (last ring # butlast ring) ring"

definition AddArc :: "BalancedRing \<Rightarrow> nat \<Rightarrow> ArcRecord \<Rightarrow> BalancedRing" where
  "AddArc b member arc =
     b\<lparr>br_memberArcs := (br_memberArcs b)[member := insort_insert arc (br_memberArcs b ! member)],
       br_memberShares := (br_memberShares b)[member := br_memberShares b ! member + ar_length arc]\<rparr>"

definition BuildArcs :: "BalancedRing \<Rightarrow> BalancedRing" where
  "BuildArcs b =
     (if br_ring b = [] then b
      else foldl (\<lambda>b (prev, cur). AddArc b (snd cur) (ArcRecord (arc_length (fst prev) (fst cur)) (fst prev)))
             b (ring_pairs (br_ring b)))"

text \<open>The constructor also puts the owners' tokens into the caller's occupied set.\<close>

definition new_BalancedRing :: "PlacementOwner list \<Rightarrow> u32 set \<Rightarrow> BalancedRing \<times> u32 set" where
  "new_BalancedRing owners occupied =
     (let maxMember = foldl (\<lambda>m o'. max m (po_memberIndex o')) 0 owners;
          ring = foldl (\<lambda>r o'. omap_emplace (po_token o') (po_memberIndex o') r) [] owners;
          memberCount = (if owners = [] then 0 else maxMember + 1)
      in (BuildArcs \<lparr>br_ring = ring, br_memberArcs = replicate (memberCount + 1) [],
                     br_memberShares = replicate (memberCount + 1) 0, br_memberCount = memberCount\<rparr>,
          occupied \<union> po_token ` set owners))"

definition Ring_Empty :: "BalancedRing \<Rightarrow> bool" where
  "Ring_Empty b \<longleftrightarrow> br_ring b = []"

definition TotalMembers :: "BalancedRing \<Rightarrow> nat" where
  "TotalMembers b = br_memberCount b + 1"

text \<open>max_element returns the first of the largest elements.\<close>

fun max_element :: "'a::linorder list \<Rightarrow> nat" where
  "max_element [] = 0"
| "max_element [x] = 0"
| "max_element (x # y # xs) =
     (let i = max_element (y # xs) in if x < (y # xs) ! i then Suc i else 0)"

definition HeaviestMember :: "BalancedRing \<Rightarrow> nat" where
  "HeaviestMember b = max_element (br_memberShares b)"

definition TakeTarget :: "BalancedRing \<Rightarrow> nat \<Rightarrow> u64 \<Rightarrow> u32" where
  "TakeTarget b member idealShare =
     (case br_memberArcs b ! member of
        [] \<Rightarrow> 0
      | largest # _ \<Rightarrow>
          if ar_length largest \<ge> idealShare then ar_start largest + ucast idealShare
          else ucast (ucast (ar_start largest) + ar_length largest - 1))"

text \<open>The entries around \<open>upper_bound(token)\<close> on a non-empty ring, cyclically.\<close>

definition ring_prev :: "(u32, nat) omap \<Rightarrow> u32 \<Rightarrow> u32 \<times> nat" where
  "ring_prev ring token =
     (case takeWhile (\<lambda>p. fst p \<le> token) ring of [] \<Rightarrow> last ring | p # ps \<Rightarrow> last (p # ps))"

definition ring_next :: "(u32, nat) omap \<Rightarrow> u32 \<Rightarrow> u32 \<times> nat" where
  "ring_next ring token =
     (case dropWhile (\<lambda>p. fst p \<le> token) ring of [] \<Rightarrow> hd ring | p # ps \<Rightarrow> p)"

definition Ring_Insert :: "BalancedRing \<Rightarrow> u32 \<Rightarrow> nat \<Rightarrow> BalancedRing" where
  "Ring_Insert b token owner =
     (if br_ring b = [] then AddArc (b\<lparr>br_ring := [(token, owner)]\<rparr>) owner (ArcRecord RING_SPACE token)
      else
        let prevToken = fst (ring_prev (br_ring b) token);
            (nextToken, nextOwner) = ring_next (br_ring b) token;
            nextLin = ucast nextToken + (if nextToken \<le> prevToken then RING_SPACE else 0);
            tokenLin = ucast token + (if token \<le> prevToken then RING_SPACE else 0);
            taken = tokenLin - ucast prevToken;
            b1 = b\<lparr>br_memberArcs := (br_memberArcs b)[nextOwner :=
                    insort_insert (ArcRecord (nextLin - tokenLin) token)
                      (remove1 (ArcRecord (nextLin - ucast prevToken) prevToken)
                         (br_memberArcs b ! nextOwner))]\<rparr>;
            b2 = AddArc b1 owner (ArcRecord taken prevToken);
            b3 = b2\<lparr>br_memberShares := (br_memberShares b2)
                     [nextOwner := br_memberShares b2 ! nextOwner - taken]\<rparr>
        in b3\<lparr>br_ring := omap_emplace token owner (br_ring b3)\<rparr>)"

definition AdmitNewMember :: "BalancedRing \<Rightarrow> BalancedRing" where
  "AdmitNewMember b =
     b\<lparr>br_memberArcs := br_memberArcs b @ [[]], br_memberShares := br_memberShares b @ [0],
       br_memberCount := br_memberCount b + 1\<rparr>"

text \<open>VerifyShares recomputes the shares from the ring; \<open>False\<close> is the case it warns about.\<close>

definition VerifyShares :: "BalancedRing \<Rightarrow> bool" where
  "VerifyShares b \<longleftrightarrow>
     foldl (\<lambda>shares (prev, cur).
         shares[snd cur := shares ! snd cur + arc_length (fst prev) (fst cur)])
       (replicate (length (br_memberShares b)) 0) (if br_ring b = [] then [] else ring_pairs (br_ring b))
     = br_memberShares b"

subsection \<open>Cyclic neighbours\<close>

fun path :: "'a list \<Rightarrow> ('a \<times> 'a) list" where
  "path (x # y # xs) = (x, y) # path (y # xs)"
| "path xs = []"

lemma ring_pairs_path:
  assumes "ring \<noteq> []"
  shows "ring_pairs ring = (last ring, hd ring) # path ring"
proof -
  have "zip (butlast xs) (tl xs) = path xs" for xs :: "(u32 \<times> nat) list"
    by (induction xs rule: path.induct) auto
  from this [of ring] show ?thesis
    using assms unfolding ring_pairs_def by (metis list.collapse zip_Cons_Cons)
qed

lemma path_append:
  "xs \<noteq> [] \<Longrightarrow> ys \<noteq> [] \<Longrightarrow> path (xs @ ys) = path xs @ (last xs, hd ys) # path ys"
proof (induction xs)
  case (Cons x xs)
  then show ?case by (cases xs; cases ys) auto
qed simp

definition cyc_prev :: "'a list \<Rightarrow> 'a list \<Rightarrow> 'a" where
  "cyc_prev xs ys = (if xs = [] then last ys else last xs)"

definition cyc_next :: "'a list \<Rightarrow> 'a list \<Rightarrow> 'a" where
  "cyc_next xs ys = (if ys = [] then hd xs else hd ys)"

lemma ring_pairs_insert:
  assumes "xs @ ys \<noteq> []"
  shows "mset (ring_pairs (xs @ t # ys)) + {#(cyc_prev xs ys, cyc_next xs ys)#}
    = mset (ring_pairs (xs @ ys)) + {#(cyc_prev xs ys, t), (t, cyc_next xs ys)#}"
proof (cases "xs = []")
  case True
  then have "ys \<noteq> []" using assms by simp
  then show ?thesis
    using True path_append [of "[t]" ys] by (simp add: ring_pairs_path cyc_prev_def cyc_next_def)
next
  case False
  have "path (xs @ t # ys) = path xs @ (last xs, t) # path (t # ys)"
    using path_append [OF False, of "t # ys"] by simp
  then show ?thesis
    using False path_append [of "[t]" ys] path_append [OF False, of ys]
    by (cases "ys = []") (simp_all add: ring_pairs_path cyc_prev_def cyc_next_def)
qed

lemma set_ring_pairs_snd: "ring \<noteq> [] \<Longrightarrow> map snd (ring_pairs ring) = ring"
  by (cases ring) (simp_all add: ring_pairs_def)

lemma mset_ring_pairs_fst: "ring \<noteq> [] \<Longrightarrow> mset (map fst (ring_pairs ring)) = mset ring"
proof -
  assume ne: "ring \<noteq> []"
  then have "map fst (ring_pairs ring) = last ring # butlast ring"
    by (cases ring) (simp_all add: ring_pairs_def)
  moreover have "mset (butlast ring) + {#last ring#} = mset ring"
    using ne by (metis append_butlast_last_id mset_append mset_single_iff union_commute mset.simps add_mset_add_single)
  ultimately show ?thesis by simp
qed

text \<open>Going from \<open>p\<close> through \<open>t\<close> to \<open>n\<close> in ring order, the lengths add up.\<close>

lemma arc_length_split:
  assumes "p < t \<and> t < n \<or> n \<le> p \<and> p < t \<or> t < n \<and> n \<le> p"
  shows "arc_length p n = arc_length p t + arc_length t n"
proof -
  have split: "n' - p' = (t' - p') + (n' - t')" "(n' + R) - p' = (t' - p') + ((n' + R) - t')"
    "(n' + R) - p' = ((t' + R) - p') + (n' - t')" for n' p' t' R :: u64
    by (simp_all add: algebra_simps)
  from assms show ?thesis
  proof (elim disjE conjE)
    assume "p < t" "t < n"
    then have "\<not> n \<le> p" "\<not> t \<le> p" "\<not> n \<le> t" by (meson less_trans not_le)+
    then show ?thesis using split(1) by (simp only: arc_length_def if_False add_0_right)
  next
    assume "n \<le> p" "p < t"
    then have "n \<le> p" "\<not> t \<le> p" "n \<le> t" by (meson le_less_trans less_imp_le not_le)+
    then show ?thesis using split(2) by (simp only: arc_length_def if_False if_True add_0_right)
  next
    assume "t < n" "n \<le> p"
    then have "n \<le> p" "t \<le> p" "\<not> n \<le> t" by (meson less_le_trans less_imp_le not_le)+
    then show ?thesis using split(3) by (simp only: arc_length_def if_False if_True add_0_right)
  qed
qed

subsection \<open>Invariant\<close>

definition pairs_of :: "(u32, nat) omap \<Rightarrow> ((u32 \<times> nat) \<times> (u32 \<times> nat)) list" where
  "pairs_of ring = (if ring = [] then [] else ring_pairs ring)"

definition arc_of :: "(u32 \<times> nat) \<times> (u32 \<times> nat) \<Rightarrow> ArcRecord" where
  "arc_of pc = ArcRecord (arc_length (fst (fst pc)) (fst (snd pc))) (fst (fst pc))"

definition pair_share :: "nat \<Rightarrow> (u32 \<times> nat) \<times> (u32 \<times> nat) \<Rightarrow> u64" where
  "pair_share i pc = (if snd (snd pc) = i then ar_length (arc_of pc) else 0)"

definition share_of :: "nat \<Rightarrow> (u32, nat) omap \<Rightarrow> u64" where
  "share_of i ring = sum_list (map (pair_share i) (pairs_of ring))"

definition arcs_of :: "nat \<Rightarrow> (u32, nat) omap \<Rightarrow> ArcRecord set" where
  "arcs_of i ring = arc_of ` {pc \<in> set (pairs_of ring). snd (snd pc) = i}"

definition ring_ok :: "BalancedRing \<Rightarrow> bool" where
  "ring_ok b \<longleftrightarrow> omap_ok (br_ring b)
     \<and> length (br_memberShares b) = br_memberCount b + 1
     \<and> length (br_memberArcs b) = br_memberCount b + 1
     \<and> (\<forall>p \<in> set (br_ring b). snd p \<le> br_memberCount b)
     \<and> (\<forall>i \<le> br_memberCount b. br_memberShares b ! i = share_of i (br_ring b))
     \<and> (\<forall>i \<le> br_memberCount b. sorted_wrt (<) (br_memberArcs b ! i)
          \<and> set (br_memberArcs b ! i) = arcs_of i (br_ring b))"

lemma share_of_mset: "ring \<noteq> [] \<Longrightarrow> share_of i ring = (\<Sum>pc \<in># mset (ring_pairs ring). pair_share i pc)"
  by (simp add: share_of_def pairs_of_def flip: sum_mset_sum_list)

text \<open>Where a new token falls on the ring.\<close>

lemma omap_dropWhile_above:
  fixes ring :: "('k::linorder, 'v) omap"
  shows "omap_ok ring \<Longrightarrow> p \<in> set (dropWhile (\<lambda>p. fst p \<le> t) ring) \<Longrightarrow> t < fst p"
proof (induction ring)
  case (Cons q ring)
  obtain k v where q: "q = (k, v)" by (cases q)
  show ?case
  proof (cases "k \<le> t")
    case True
    then show ?thesis using Cons by (simp add: q)
  next
    case False
    then show ?thesis using Cons.prems by (auto simp: q)
  qed
qed simp

lemma omap_set_split:
  fixes ring :: "('k::linorder, 'v) omap"
  shows "omap_ok ring \<Longrightarrow> t \<notin> fst ` set ring \<Longrightarrow>
    omap_set t v ring = takeWhile (\<lambda>p. fst p \<le> t) ring @ (t, v) # dropWhile (\<lambda>p. fst p \<le> t) ring"
proof (induction ring)
  case (Cons q ring)
  obtain k w where q: "q = (k, w)" by (cases q)
  show ?case
  proof (cases "k \<le> t")
    case True
    then have "\<not> t < k" "t \<noteq> k" using Cons.prems(2) by (auto simp: q)
    then show ?thesis using Cons True by (simp add: q)
  next
    case False
    then have "t < k" by simp
    then show ?thesis using False by (simp add: q)
  qed
qed simp

lemma ring_split:
  assumes ok: "omap_ok ring" and ne: "ring \<noteq> []" and new: "map_of ring t = None"
  obtains xs ys where "ring = xs @ ys" "omap_emplace t o' ring = xs @ (t, o') # ys"
    "ring_prev ring t = cyc_prev xs ys" "ring_next ring t = cyc_next xs ys"
    "\<forall>p \<in> set xs. fst p < t" "\<forall>p \<in> set ys. t < fst p"
proof
  let ?xs = "takeWhile (\<lambda>p. fst p \<le> t) ring"
  let ?ys = "dropWhile (\<lambda>p. fst p \<le> t) ring"
  have notin: "t \<notin> fst ` set ring" using new by (simp add: map_of_eq_None_iff)
  show "ring = ?xs @ ?ys" by simp
  show "\<forall>p \<in> set ?xs. fst p < t"
    using notin by (metis image_eqI order_le_imp_less_or_eq set_takeWhileD)
  show "\<forall>p \<in> set ?ys. t < fst p" using omap_dropWhile_above [OF ok] by blast
  show "omap_emplace t o' ring = ?xs @ (t, o') # ?ys"
    using omap_set_split [OF ok notin] new by (simp add: omap_emplace_def)
  show "ring_prev ring t = cyc_prev ?xs ?ys"
  proof (cases "?xs = []")
    case True
    then have "?ys = ring" by (metis append_Nil takeWhile_dropWhile_id)
    then show ?thesis using True by (simp add: ring_prev_def cyc_prev_def)
  next
    case False
    then show ?thesis by (auto simp: ring_prev_def cyc_prev_def split: list.splits)
  qed
  show "ring_next ring t = cyc_next ?xs ?ys"
  proof (cases "?ys = []")
    case True
    then have t: "?xs = ring" by (metis append_Nil2 takeWhile_dropWhile_id)
    show ?thesis unfolding ring_next_def cyc_next_def by (simp only: True t list.case) simp
  next
    case False
    then show ?thesis by (auto simp: ring_next_def cyc_next_def split: list.splits)
  qed
qed

text \<open>The predecessor, the new token and the successor are in cyclic order.\<close>

lemma cyc_order:
  assumes ok: "omap_ok (xs @ ys)" and ne: "xs @ ys \<noteq> []"
    and low: "\<forall>p \<in> set xs. fst p < t" and high: "\<forall>p \<in> set ys. t < fst p"
  defines "p \<equiv> fst (cyc_prev xs ys)" and "n \<equiv> fst (cyc_next xs ys)"
  shows "p < t \<and> t < n \<or> n \<le> p \<and> p < t \<or> t < n \<and> n \<le> p"
proof -
  have order: "fst (hd zs) \<le> fst (last zs)" if z: "omap_ok zs" "zs \<noteq> []" for zs :: "('a, 'b) omap"
  proof -
    obtain k v rs where zs: "zs = (k, v) # rs" using z(2) by (metis list.exhaust prod.exhaust)
    then show ?thesis using z(1) by (cases "rs = []") (auto intro: less_imp_le)
  qed
  show ?thesis
  proof (cases "xs = []")
    case True
    then have "ys \<noteq> []" using ne by simp
    then show ?thesis
      using True high order [of ys] ok by (simp add: p_def n_def cyc_prev_def cyc_next_def)
  next
    case False
    then have p: "p < t" using low by (simp add: p_def cyc_prev_def)
    show ?thesis
    proof (cases "ys = []")
      case True
      then show ?thesis using False p order [of xs] ok by (simp add: p_def n_def cyc_prev_def cyc_next_def)
    next
      case False
      then show ?thesis using p high by (simp add: n_def cyc_next_def)
    qed
  qed
qed

text \<open>What an insertion does to the pairs, the shares and the arcs.\<close>

lemma distinct_pairs:
  assumes "omap_ok ring" "ring \<noteq> []"
  shows "distinct (map (fst \<circ> fst) (ring_pairs ring))"
proof -
  have "mset (map fst (map fst (ring_pairs ring))) = mset (map fst ring)"
    using mset_ring_pairs_fst [OF assms(2)] by (metis mset_map)
  moreover have "distinct (map fst ring)" by (rule omap_ok_distinct [OF assms(1)])
  ultimately show ?thesis by (metis map_map mset_eq_imp_distinct_iff)
qed

lemma set_mset_replace:
  assumes eq: "mset xs' + {#a#} = mset xs + {#b, c#}" and "distinct xs" and "a \<in> set xs"
  shows "set xs' = set xs - {a} \<union> {b, c}"
proof -
  obtain ys zs where xs: "xs = ys @ a # zs" using assms(3) by (meson split_list)
  then have "mset xs' = mset (b # c # ys @ zs)" using eq by simp
  then have "set xs' = set (b # c # ys @ zs)" by (rule mset_eq_setD)
  then show ?thesis using assms(2) by (auto simp: xs)
qed

lemma set_pairs_insert:
  assumes ok: "omap_ok (xs @ ys)" and ne: "xs @ ys \<noteq> []"
  shows "set (ring_pairs (xs @ t # ys))
    = set (ring_pairs (xs @ ys)) - {(cyc_prev xs ys, cyc_next xs ys)}
      \<union> {(cyc_prev xs ys, t), (t, cyc_next xs ys)}"
    and "(cyc_prev xs ys, cyc_next xs ys) \<in> set (ring_pairs (xs @ ys))"
proof -
  let ?a = "(cyc_prev xs ys, cyc_next xs ys)"
  let ?M = "mset (ring_pairs (xs @ ys))"
  have eq: "mset (ring_pairs (xs @ t # ys)) + {#?a#} = ?M + {#(cyc_prev xs ys, t), (t, cyc_next xs ys)#}"
    by (rule ring_pairs_insert [OF ne])
  have "?a \<in> set (ring_pairs (xs @ ys))"
    using ne path_append [of xs ys]
    by (cases "xs = []"; cases "ys = []") (auto simp: ring_pairs_path cyc_prev_def cyc_next_def)
  then show a: "?a \<in> set (ring_pairs (xs @ ys))" .
  have "distinct (ring_pairs (xs @ ys))" using distinct_pairs [OF ok ne] by (simp add: distinct_map)
  from set_mset_replace [OF eq this a]
  show "set (ring_pairs (xs @ t # ys)) = set (ring_pairs (xs @ ys)) - {?a}
      \<union> {(cyc_prev xs ys, t), (t, cyc_next xs ys)}" .
qed

lemma share_insert:
  assumes ok: "omap_ok (xs @ ys)" and ne: "xs @ ys \<noteq> []"
    and low: "\<forall>p \<in> set xs. fst p < t" and high: "\<forall>p \<in> set ys. t < fst p"
  defines "p \<equiv> fst (cyc_prev xs ys)" and "n \<equiv> cyc_next xs ys"
  shows "share_of i (xs @ (t, o') # ys)
    = share_of i (xs @ ys) + (if o' = i then arc_length p t else 0)
      - (if snd n = i then arc_length p t else 0)"
proof -
  have len: "arc_length p (fst n) = arc_length p t + arc_length t (fst n)"
    unfolding p_def n_def by (rule arc_length_split [OF cyc_order [OF ok ne low high]])
  have "(\<Sum>pc \<in># mset (ring_pairs (xs @ (t, o') # ys)) + {#(cyc_prev xs ys, n)#}. pair_share i pc)
      = (\<Sum>pc \<in># mset (ring_pairs (xs @ ys)) + {#(cyc_prev xs ys, (t, o')), ((t, o'), n)#}. pair_share i pc)"
    unfolding n_def by (simp only: ring_pairs_insert [OF ne])
  then have "share_of i (xs @ (t, o') # ys) + pair_share i (cyc_prev xs ys, n)
      = share_of i (xs @ ys) + (pair_share i (cyc_prev xs ys, (t, o')) + pair_share i ((t, o'), n))"
    using ne by (simp add: share_of_mset ac_simps)
  then have "share_of i (xs @ (t, o') # ys)
      = share_of i (xs @ ys) + (pair_share i (cyc_prev xs ys, (t, o')) + pair_share i ((t, o'), n))
        - pair_share i (cyc_prev xs ys, n)"
    by (metis add_diff_cancel_right')
  then show ?thesis using len by (simp add: pair_share_def arc_of_def p_def)
qed

lemma image_filter_two:
  "f ` {x \<in> A \<union> {b, c}. g x = i}
     = f ` {x \<in> A. g x = i} \<union> (if g b = i then {f b} else {}) \<union> (if g c = i then {f c} else {})"
  by auto

lemma arcs_insert:
  assumes ok: "omap_ok (xs @ ys)" and ne: "xs @ ys \<noteq> []"
  defines "p \<equiv> fst (cyc_prev xs ys)" and "n \<equiv> cyc_next xs ys"
  shows "arcs_of i (xs @ (t, o') # ys) =
    (if snd n = i then arcs_of i (xs @ ys) - {ArcRecord (arc_length p (fst n)) p}
       \<union> {ArcRecord (arc_length t (fst n)) t} else arcs_of i (xs @ ys))
    \<union> (if o' = i then {ArcRecord (arc_length p t) p} else {})"
proof -
  let ?P = "set (ring_pairs (xs @ ys))"
  let ?a = "(cyc_prev xs ys, n)"
  have P': "set (ring_pairs (xs @ (t, o') # ys)) = ?P - {?a} \<union> {(cyc_prev xs ys, (t, o')), ((t, o'), n)}"
    and a: "?a \<in> ?P"
    unfolding n_def by (rule set_pairs_insert [OF ok ne])+
  have "inj_on (fst \<circ> fst) ?P" using distinct_pairs [OF ok ne] by (simp add: distinct_map)
  then have inj: "pc = ?a" if "pc \<in> ?P" "arc_of pc = arc_of ?a" for pc
    by (rule inj_onD) (use that a in \<open>simp_all add: arc_of_def\<close>)
  have sub: "arc_of ` {pc \<in> ?P - {?a}. snd (snd pc) = i}
      = (if snd n = i then arcs_of i (xs @ ys) - {arc_of ?a} else arcs_of i (xs @ ys))"
    using inj a ne by (auto simp: arcs_of_def pairs_of_def)
  have "arcs_of i (xs @ (t, o') # ys)
      = arc_of ` {pc \<in> set (ring_pairs (xs @ (t, o') # ys)). snd (snd pc) = i}"
    by (simp add: arcs_of_def pairs_of_def)
  then have "arcs_of i (xs @ (t, o') # ys)
      = arc_of ` {pc \<in> ?P - {?a}. snd (snd pc) = i}
        \<union> (if o' = i then {arc_of (cyc_prev xs ys, (t, o'))} else {})
        \<union> (if snd n = i then {arc_of ((t, o'), n)} else {})"
    unfolding P' image_filter_two by simp
  then show ?thesis
    unfolding sub by (simp add: arc_of_def p_def Un_commute Un_left_commute)
qed

subsection \<open>Every operation keeps the books\<close>

lemma arc_set_insert:
  assumes "sorted_wrt (<) (xs :: 'a::linorder list)"
  shows "sorted_wrt (<) (insort_insert x xs)" "set (insort_insert x xs) = insert x (set xs)"
  using assms by (auto simp: strict_sorted_iff sorted_insort_insert distinct_insort_insert set_insort_insert)

lemma arc_set_remove:
  assumes "sorted_wrt (<) (xs :: 'a::linorder list)"
  shows "sorted_wrt (<) (remove1 x xs)" "set (remove1 x xs) = set xs - {x}"
  using assms by (auto simp: strict_sorted_iff sorted_remove1)

lemma ring_okD:
  assumes "ring_ok b"
  shows "omap_ok (br_ring b)" "length (br_memberShares b) = br_memberCount b + 1"
    "length (br_memberArcs b) = br_memberCount b + 1"
    "p \<in> set (br_ring b) \<Longrightarrow> snd p \<le> br_memberCount b"
    "i \<le> br_memberCount b \<Longrightarrow> br_memberShares b ! i = share_of i (br_ring b)"
    "i \<le> br_memberCount b \<Longrightarrow> sorted_wrt (<) (br_memberArcs b ! i)"
    "i \<le> br_memberCount b \<Longrightarrow> set (br_memberArcs b ! i) = arcs_of i (br_ring b)"
  using assms by (auto simp: ring_ok_def)

lemma Insert_empty_ok:
  assumes ok: "ring_ok b" and e: "br_ring b = []" and o: "owner \<le> br_memberCount b"
  shows "ring_ok (Ring_Insert b token owner)"
proof -
  note d = ring_okD [OF ok]
  have zero: "share_of i [] = 0" "arcs_of i [] = {}" for i
    by (simp_all add: share_of_def arcs_of_def pairs_of_def)
  have one: "share_of i [(token, owner)] = (if owner = i then RING_SPACE else 0)"
    "arcs_of i [(token, owner)] = (if owner = i then {ArcRecord RING_SPACE token} else {})" for i
    by (auto simp: share_of_def arcs_of_def pairs_of_def ring_pairs_def pair_share_def arc_of_def arc_length_def)
  have "br_memberShares (Ring_Insert b token owner) ! i = (if owner = i then RING_SPACE else 0)"
    if "i \<le> br_memberCount b" for i
    using that o d(2) d(5) [OF that] d(5) [OF o] e zero
    by (auto simp: Ring_Insert_def AddArc_def nth_list_update)
  moreover have "sorted_wrt (<) (br_memberArcs (Ring_Insert b token owner) ! i)
      \<and> set (br_memberArcs (Ring_Insert b token owner) ! i)
        = (if owner = i then {ArcRecord RING_SPACE token} else {})"
    if "i \<le> br_memberCount b" for i
    using that o d(3) d(6,7) [OF that] d(6,7) [OF o] e zero
      arc_set_insert [of "br_memberArcs b ! owner" "ArcRecord RING_SPACE token"]
    by (auto simp: Ring_Insert_def AddArc_def nth_list_update)
  ultimately show ?thesis
    using o d(2,3) e by (simp add: ring_ok_def one) (simp add: Ring_Insert_def AddArc_def one)
qed

lemma Insert_ok:
  assumes ok: "ring_ok b" and new: "map_of (br_ring b) token = None" and o: "owner \<le> br_memberCount b"
  shows "ring_ok (Ring_Insert b token owner)"
proof (cases "br_ring b = []")
  case True
  then show ?thesis using Insert_empty_ok [OF ok _ o] by simp
next
  case ne: False
  note d = ring_okD [OF ok]
  obtain xs ys where ring: "br_ring b = xs @ ys" and ring': "omap_emplace token owner (br_ring b) = xs @ (token, owner) # ys"
    and prev: "ring_prev (br_ring b) token = cyc_prev xs ys" and nxt: "ring_next (br_ring b) token = cyc_next xs ys"
    and low: "\<forall>p \<in> set xs. fst p < token" and high: "\<forall>p \<in> set ys. token < fst p"
    using ring_split [OF d(1) ne new, where o' = owner] .
  have okxs: "omap_ok (xs @ ys)" and nexs: "xs @ ys \<noteq> []" using d(1) ne ring by simp_all
  define p where "p = fst (cyc_prev xs ys)"
  define n where "n = cyc_next xs ys"
  define taken where "taken = arc_length p token"
  have n: "snd n \<le> br_memberCount b"
  proof (rule d(4))
    show "n \<in> set (br_ring b)" using nexs by (auto simp: n_def cyc_next_def ring)
  qed
  have len: "arc_length p (fst n) = taken + arc_length token (fst n)"
    unfolding p_def n_def taken_def by (rule arc_length_split [OF cyc_order [OF okxs nexs low high]])
  note share = share_insert [OF okxs nexs low high, folded p_def n_def taken_def, folded taken_def]
  note arc = arcs_insert [OF okxs nexs, folded p_def n_def, of _ token owner, folded taken_def]
  define arcs1 where "arcs1 = (br_memberArcs b)[snd n := insort_insert (ArcRecord (arc_length token (fst n)) token)
      (remove1 (ArcRecord (arc_length p (fst n)) p) (br_memberArcs b ! snd n))]"
  define arcs2 where "arcs2 = arcs1[owner := insort_insert (ArcRecord taken p) (arcs1 ! owner)]"
  define shares1 where "shares1 = (br_memberShares b)[owner := br_memberShares b ! owner + taken]"
  define shares2 where "shares2 = shares1[snd n := shares1 ! snd n - taken]"
  have b': "Ring_Insert b token owner
      = b\<lparr>br_memberArcs := arcs2, br_memberShares := shares2, br_ring := xs @ (token, owner) # ys\<rparr>"
    using ne ring' len
    by (simp add: Ring_Insert_def AddArc_def Let_def prev nxt split_def p_def [symmetric] n_def [symmetric]
        arcs1_def arcs2_def shares1_def shares2_def arc_length_def taken_def algebra_simps)
  have "shares2 ! i = share_of i (xs @ (token, owner) # ys)" if "i \<le> br_memberCount b" for i
    using that o n d(2) d(5) share [of i owner]
    by (simp add: nth_list_update ring shares1_def shares2_def taken_def)
  moreover have one: "sorted_wrt (<) (arcs1 ! j)" "set (arcs1 ! j) = (if snd n = j
      then arcs_of j (xs @ ys) - {ArcRecord (arc_length p (fst n)) p} \<union> {ArcRecord (arc_length token (fst n)) token}
      else arcs_of j (xs @ ys))" if "j \<le> br_memberCount b" for j
    using that n d(3) d(6,7) [OF that] ring
    by (auto simp: nth_list_update arc_set_insert arc_set_remove arcs1_def)
  have "sorted_wrt (<) (arcs2 ! i) \<and> set (arcs2 ! i) = arcs_of i (xs @ (token, owner) # ys)"
    if i: "i \<le> br_memberCount b" for i
  proof -
    have "arcs2 ! i = (if owner = i then insort_insert (ArcRecord taken p) (arcs1 ! i) else arcs1 ! i)"
      using i o d(3) by (simp add: arcs2_def arcs1_def nth_list_update)
    then show ?thesis using one [OF i] arc [of i] arc_set_insert [OF one(1) [OF i]] by simp
  qed
  moreover have "omap_ok (xs @ (token, owner) # ys)"
    using d(1) ring' new by (metis omap_emplace_def omap_ok_set)
  moreover have "\<forall>q \<in> set (xs @ (token, owner) # ys). snd q \<le> br_memberCount b"
    using d(4) ring o by auto
  moreover have "length arcs2 = br_memberCount b + 1" "length shares2 = br_memberCount b + 1"
    using d(2,3) by (simp_all add: arcs2_def arcs1_def shares2_def shares1_def)
  ultimately show ?thesis unfolding b' ring_ok_def by simp
qed

lemma pairs_of_snd: "pc \<in> set (pairs_of ring) \<Longrightarrow> snd pc \<in> set ring"
  by (auto simp: pairs_of_def split: if_splits) (metis image_eqI list.set_map set_ring_pairs_snd)

lemma Admit_ok:
  assumes ok: "ring_ok b"
  shows "ring_ok (AdmitNewMember b)"
proof -
  note d = ring_okD [OF ok]
  let ?m = "Suc (br_memberCount b)"
  have "snd (snd pc) \<noteq> ?m" if "pc \<in> set (pairs_of (br_ring b))" for pc
  proof -
    have "snd pc \<in> set (br_ring b)" using that by (rule pairs_of_snd)
    then show ?thesis using d(4) by fastforce
  qed
  then have "map (pair_share ?m) (pairs_of (br_ring b)) = map (\<lambda>_. 0) (pairs_of (br_ring b))"
    and arcs: "arcs_of ?m (br_ring b) = {}"
    by (simp_all add: arcs_of_def pair_share_def)
  then have new: "share_of ?m (br_ring b) = 0" "arcs_of ?m (br_ring b) = {}"
    by (simp_all only: share_of_def sum_list_0)
  have "i \<le> ?m \<longleftrightarrow> i \<le> br_memberCount b \<or> i = ?m" for i by auto
  then show ?thesis
    using d new by (auto simp: ring_ok_def AdmitNewMember_def nth_append intro: le_SucI)
qed

text \<open>BuildArcs books every arc of the ring.\<close>

lemma book_arcs:
  assumes len: "length (br_memberShares b) = m" "length (br_memberArcs b) = m"
    and own: "\<forall>pc \<in> set P. snd (snd pc) < m" and clean: "\<forall>i < m. br_memberShares b ! i = 0 \<and> br_memberArcs b ! i = []"
  defines "b' \<equiv> foldl (\<lambda>b (prev, cur). AddArc b (snd cur) (ArcRecord (arc_length (fst prev) (fst cur)) (fst prev))) b P"
  shows "length (br_memberShares b') = m \<and> length (br_memberArcs b') = m
    \<and> br_ring b' = br_ring b \<and> br_memberCount b' = br_memberCount b
    \<and> (\<forall>i < m. br_memberShares b' ! i = sum_list (map (pair_share i) P)
         \<and> sorted_wrt (<) (br_memberArcs b' ! i)
         \<and> set (br_memberArcs b' ! i) = arc_of ` {pc \<in> set P. snd (snd pc) = i})"
  using own unfolding b'_def
proof (induction P rule: rev_induct)
  case Nil
  then show ?case using len clean by simp
next
  case (snoc pc P)
  define c where "c = foldl (\<lambda>b (prev, cur). AddArc b (snd cur) (ArcRecord (arc_length (fst prev) (fst cur)) (fst prev))) b P"
  have IH: "length (br_memberShares c) = m" "length (br_memberArcs c) = m"
    "br_ring c = br_ring b" "br_memberCount c = br_memberCount b"
    "\<And>i. i < m \<Longrightarrow> br_memberShares c ! i = sum_list (map (pair_share i) P)"
    "\<And>i. i < m \<Longrightarrow> sorted_wrt (<) (br_memberArcs c ! i)"
    "\<And>i. i < m \<Longrightarrow> set (br_memberArcs c ! i) = arc_of ` {pc \<in> set P. snd (snd pc) = i}"
    using snoc unfolding c_def by auto
  let ?o = "snd (snd pc)"
  have o: "?o < m" using snoc.prems by simp
  have step: "foldl (\<lambda>b (prev, cur). AddArc b (snd cur) (ArcRecord (arc_length (fst prev) (fst cur)) (fst prev))) b (P @ [pc])
      = AddArc c ?o (arc_of pc)"
    by (simp add: c_def arc_of_def split_def)
  have "br_memberShares (AddArc c ?o (arc_of pc)) ! i = sum_list (map (pair_share i) (P @ [pc]))"
    if "i < m" for i
    using that IH(1) IH(5) o by (simp add: AddArc_def nth_list_update pair_share_def)
  moreover have "sorted_wrt (<) (br_memberArcs (AddArc c ?o (arc_of pc)) ! i)
      \<and> set (br_memberArcs (AddArc c ?o (arc_of pc)) ! i) = arc_of ` {x \<in> set (P @ [pc]). snd (snd x) = i}"
    if "i < m" for i
    using that IH(2) IH(6,7) [OF that] o arc_set_insert [OF IH(6) [OF that], of "arc_of pc"]
    by (auto simp: AddArc_def nth_list_update)
  ultimately show ?case unfolding step using IH(1-4) by (simp add: AddArc_def)
qed

lemma owners_ring:
  assumes "\<forall>q \<in> set owners. po_memberIndex q \<le> m" "omap_ok r0" "\<forall>p \<in> set r0. snd p \<le> m"
  defines "r \<equiv> foldl (\<lambda>r q. omap_emplace (po_token q) (po_memberIndex q) r) r0 owners"
  shows "omap_ok r \<and> (\<forall>p \<in> set r. snd p \<le> m)
    \<and> fst ` set r = fst ` set r0 \<union> po_token ` set owners"
  using assms(1-3) unfolding r_def
proof (induction owners arbitrary: r0)
  case (Cons q owners)
  let ?r = "omap_emplace (po_token q) (po_memberIndex q) r0"
  have ok: "omap_ok ?r" using Cons.prems(2) by (simp add: omap_emplace_def)
  have keys: "fst ` set ?r = insert (po_token q) (fst ` set r0)"
    by (auto simp: omap_emplace_def fst_set_omap_set map_of_eq_None_iff dest: map_of_SomeD)
  have vals: "\<forall>p \<in> set ?r. snd p \<le> m"
  proof
    fix p assume "p \<in> set ?r"
    then have "map_of ?r (fst p) = Some (snd p)" using map_of_eq_Some_iff_omap [OF ok] by simp
    then have "p \<in> set r0 \<or> snd p = po_memberIndex q"
      using Cons.prems(2) map_of_eq_Some_iff_omap [OF Cons.prems(2)]
      by (auto simp: omap_emplace_def split: if_splits)
    then show "snd p \<le> m" using Cons.prems(1,3) by auto
  qed
  show ?case using Cons.IH [OF _ ok vals] Cons.prems(1) keys by simp
qed simp

lemma foldl_max_ge:
  fixes f :: "'a \<Rightarrow> nat"
  shows "n \<le> foldl (\<lambda>m x. max m (f x)) n xs \<and> (\<forall>x \<in> set xs. f x \<le> foldl (\<lambda>m x. max m (f x)) n xs)"
proof (induction xs arbitrary: n)
  case (Cons x xs)
  from this [of "max n (f x)"] show ?case by auto
qed simp

lemma new_ring_ok: "ring_ok (fst (new_BalancedRing owners occ))"
proof -
  define ring where "ring = foldl (\<lambda>r q. omap_emplace (po_token q) (po_memberIndex q) r) [] owners"
  define mc where "mc = (if owners = [] then 0 else foldl (\<lambda>m q. max m (po_memberIndex q)) 0 owners + 1)"
  define b0 where "b0 = \<lparr>br_ring = ring, br_memberArcs = replicate (mc + 1) [],
    br_memberShares = replicate (mc + 1) 0, br_memberCount = mc\<rparr>"
  have new: "fst (new_BalancedRing owners occ) = BuildArcs b0"
    by (simp add: new_BalancedRing_def b0_def mc_def ring_def Let_def)
  have "\<forall>q \<in> set owners. po_memberIndex q \<le> mc"
    using foldl_max_ge [of 0 po_memberIndex owners] by (auto simp: mc_def intro: le_SucI)
  from owners_ring [OF this, of "[]"] have ring: "omap_ok ring" "\<forall>p \<in> set ring. snd p \<le> mc"
    by (simp_all add: ring_def)
  have sz: "length (br_memberShares b0) = mc + 1" "length (br_memberArcs b0) = mc + 1"
    "\<forall>i < mc + 1. br_memberShares b0 ! i = 0 \<and> br_memberArcs b0 ! i = []"
    by (simp_all add: b0_def del: replicate_Suc)
  have own: "\<forall>pc \<in> set (pairs_of ring). snd (snd pc) < mc + 1"
    using ring(2) pairs_of_snd by fastforce
  have build: "BuildArcs b0 = foldl (\<lambda>b (prev, cur). AddArc b (snd cur)
      (ArcRecord (arc_length (fst prev) (fst cur)) (fst prev))) b0 (pairs_of ring)"
    by (simp add: BuildArcs_def pairs_of_def b0_def)
  show ?thesis
    using book_arcs [OF sz(1,2) own sz(3)] ring
    unfolding new build ring_ok_def share_of_def arcs_of_def
    by (simp add: b0_def less_Suc_eq_le)
qed

subsection \<open>Recomputed shares\<close>

lemma recomputed_shares:
  assumes "\<forall>pc \<in> set P. snd (snd pc) < length init"
  shows "foldl (\<lambda>shares (prev, cur). shares[snd cur := shares ! snd cur + arc_length (fst prev) (fst cur)]) init P
    = map (\<lambda>i. init ! i + sum_list (map (pair_share i) P)) [0..<length init]"
  using assms
proof (induction P arbitrary: init)
  case Nil
  then show ?case by (simp add: map_nth)
next
  case (Cons pc P)
  obtain prev cur where pc: "pc = (prev, cur)" by (cases pc)
  show ?case
    using Cons.prems Cons.IH [of "init[snd cur := init ! snd cur + arc_length (fst prev) (fst cur)]"]
    by (auto simp: pc pair_share_def arc_of_def nth_list_update)
qed

lemma ring_ok_verify:
  assumes ok: "ring_ok b"
  shows "VerifyShares b"
proof -
  note d = ring_okD [OF ok]
  have own: "\<forall>pc \<in> set (pairs_of (br_ring b)). snd (snd pc) < length (replicate (length (br_memberShares b)) (0::u64))"
    using d(2,4) pairs_of_snd by fastforce
  have "map (\<lambda>i. replicate (length (br_memberShares b)) 0 ! i + sum_list (map (pair_share i) (pairs_of (br_ring b))))
      [0..<length (br_memberShares b)] = br_memberShares b"
    using d(2,5) by (intro nth_equalityI) (simp_all add: share_of_def del: replicate_Suc upt_Suc)
  with recomputed_shares [OF own] show ?thesis
    by (simp add: VerifyShares_def pairs_of_def [symmetric])
qed

text \<open>The lengths of the arcs add up to the ring.\<close>

lemma path_lengths:
  assumes "omap_ok ring" "ring \<noteq> []"
  shows "sum_list (map (ar_length \<circ> arc_of) (path ring)) = ucast (fst (last ring)) - ucast (fst (hd ring))"
  using assms
proof (induction ring rule: path.induct)
  case (1 p q ring)
  then have "fst p < fst q" by (cases p; cases q) simp
  then have "\<not> fst q \<le> fst p" by (simp only: not_le)
  moreover have "omap_ok (q # ring)" using 1 by (cases p; cases q) simp
  ultimately show ?case using 1 by (simp add: arc_of_def arc_length_def del: not_le)
qed auto

lemma arcs_cover_ring:
  assumes ok: "omap_ok ring" and ne: "ring \<noteq> []"
  shows "sum_list (map (ar_length \<circ> arc_of) (pairs_of ring)) = RING_SPACE"
proof -
  have "fst (hd ring) \<le> fst (last ring)"
  proof (cases ring)
    case (Cons p ring')
    then show ?thesis using ok by (cases p; cases "ring' = []") (auto intro: less_imp_le)
  qed (use ne in simp)
  then show ?thesis
    using path_lengths [OF ok ne] ne
    by (simp add: pairs_of_def ring_pairs_path arc_of_def arc_length_def)
qed

lemma shares_total:
  assumes "\<forall>pc \<in> set P. snd (snd pc) < n"
  shows "(\<Sum>i < n. sum_list (map (pair_share i) P)) = sum_list (map (ar_length \<circ> arc_of) P)"
  using assms
proof (induction P)
  case (Cons pc P)
  have "(\<Sum>i < n. pair_share i pc) = ar_length (arc_of pc)"
    using Cons.prems by (simp add: pair_share_def sum.delta)
  then show ?case using Cons by (simp add: sum.distrib)
qed simp

lemma ring_ok_total:
  assumes ok: "ring_ok b" and ne: "br_ring b \<noteq> []"
  shows "sum_list (br_memberShares b) = RING_SPACE"
proof -
  note d = ring_okD [OF ok]
  have own: "\<forall>pc \<in> set (pairs_of (br_ring b)). snd (snd pc) < Suc (br_memberCount b)"
    using d(4) pairs_of_snd by fastforce
  have "sum_list (br_memberShares b) = (\<Sum>i < Suc (br_memberCount b). share_of i (br_ring b))"
    using d(2,5) by (simp add: sum_list_sum_nth atLeast0LessThan)
  also have "\<dots> = RING_SPACE"
    using shares_total [OF own] arcs_cover_ring [OF d(1) ne] unfolding share_of_def by simp
  finally show ?thesis .
qed

lemma max_element_max:
  "xs \<noteq> [] \<Longrightarrow> max_element xs < length xs \<and> (\<forall>x \<in> set xs. x \<le> xs ! max_element xs)"
proof (induction xs rule: max_element.induct)
  case (3 x y xs)
  then show ?case by (auto simp: Let_def not_less intro: less_imp_le order_trans)
qed simp_all

subsection \<open>Where the take target lands\<close>

text \<open>The entry that serves a token: the first token at or after it, cyclically.\<close>

definition ring_lookup :: "(u32, 'v) omap \<Rightarrow> u32 \<Rightarrow> u32 \<times> 'v" where
  "ring_lookup ring t = (case dropWhile (\<lambda>p. fst p < t) ring of [] \<Rightarrow> hd ring | p # _ \<Rightarrow> p)"

lemma unat_ucast_up: "unat (ucast (x :: u32) :: u64) = unat x"
proof -
  have "unat x < 2 ^ 32" using unsigned_less [of x, where ?'a = nat] by simp
  then have "unat x < 2 ^ 64" by (rule less_le_trans) simp
  then show ?thesis by (simp add: unsigned_ucast_eq take_bit_eq_mod)
qed

lemma unat_ucast_down: "unat (ucast (x :: u64) :: u32) = unat x mod 2 ^ 32"
  by (simp add: unsigned_ucast_eq take_bit_eq_mod)

lemma unat_arc_length:
  "unat (arc_length p c) = unat c + (if c \<le> p then 2 ^ 32 else 0) - unat p"
proof -
  have b: "unat c < 2 ^ 32" "unat p < 2 ^ 32"
    using unsigned_less [of c, where ?'a = nat] unsigned_less [of p, where ?'a = nat] by simp_all
  have r: "unat RING_SPACE = 2 ^ 32" by (simp add: RING_SPACE_def)
  have s: "unat (ucast c + RING_SPACE :: u64) = unat c + 2 ^ 32"
    using b by (simp add: unat_plus_if' unat_ucast_up r)
  show ?thesis
  proof (cases "c \<le> p")
    case True
    then show ?thesis
      using b s by (simp add: arc_length_def unat_sub_if' unat_ucast_up)
  next
    case False
    then have "unat p \<le> unat c" by (simp add: not_le word_less_nat_alt)
    then show ?thesis
      using False by (simp add: arc_length_def unat_sub_if' unat_ucast_up)
  qed
qed

lemma path_split: "(p, c) \<in> set (path ring) \<Longrightarrow> \<exists>xs ys. ring = xs @ p # c # ys"
proof (induction ring rule: path.induct)
  case (1 x y ring)
  then consider "p = x" "c = y" | xs ys where "y # ring = xs @ p # c # ys" by auto
  then show ?case
  proof cases
    case 1
    then have "x # y # ring = [] @ p # c # ring" by simp
    then show ?thesis by blast
  next
    case 2
    then have "x # y # ring = (x # xs) @ p # c # ys" by simp
    then show ?thesis by blast
  qed
qed simp_all

lemma omap_ok_append:
  "omap_ok (xs @ ys) \<longleftrightarrow> omap_ok xs \<and> omap_ok ys \<and> (\<forall>p \<in> set xs. \<forall>q \<in> set ys. fst p < fst q)"
  by (auto simp: omap_ok_def sorted_wrt_append)

lemma lookup_in_arc:
  assumes ok: "omap_ok ring" and pc: "(p, c) \<in> set (pairs_of ring)"
    and d: "0 < d" "d \<le> unat (arc_length (fst p) (fst c))"
    and t: "unat t = (unat (fst p) + d) mod 2 ^ 32"
  shows "ring_lookup ring t = c"
proof -
  have ne: "ring \<noteq> []" using pc by (auto simp: pairs_of_def)
  have b: "unat (fst c) < 2 ^ 32" "unat (fst p) < 2 ^ 32"
    using unsigned_less [of "fst c", where ?'a = nat] unsigned_less [of "fst p", where ?'a = nat]
    by simp_all
  have "(p, c) = (last ring, hd ring) \<or> (p, c) \<in> set (path ring)"
    using pc ne by (simp only: pairs_of_def ring_pairs_path [OF ne] if_False list.set insert_iff)
  then consider (wrap) "p = last ring" "c = hd ring" | (mid) "(p, c) \<in> set (path ring)"
    unfolding prod.inject by (elim disjE conjE)
  then show ?thesis
  proof cases
    case mid
    from path_split [OF this] obtain xs ys where r: "ring = xs @ p # c # ys" by (elim exE)
    have lt: "fst p < fst c" using ok by (simp add: r omap_ok_def sorted_wrt_append)
    then have "unat (fst p) + d \<le> unat (fst c)"
      using d by (simp add: unat_arc_length word_less_nat_alt word_le_nat_alt)
    then have t': "fst p < t" "t \<le> fst c"
      using t d(1) b by (simp_all add: word_less_nat_alt word_le_nat_alt)
    have "\<forall>q \<in> set xs. fst q < t"
      using ok t'(1) by (auto simp: r omap_ok_append intro: less_trans)
    moreover have "\<not> fst c < t" using t'(2) by (simp only: not_less)
    ultimately show ?thesis using t'(1) by (simp add: ring_lookup_def r dropWhile_append2)
  next
    case wrap
    have le: "fst q \<le> fst p" if "q \<in> set ring" for q
    proof -
      have "ring = butlast ring @ [p]" using ne wrap by simp
      with ok have "\<forall>q \<in> set (butlast ring). fst q < fst p" by (metis omap_ok_append list.set_intros(1))
      then show ?thesis
        using that wrap ne by (metis append_butlast_last_id in_set_conv_decomp less_imp_le order_refl
          set_ConsD rotate1.simps(2) set_rotate1)
    qed
    have "c \<in> set ring" using wrap ne by simp
    from le [OF this] have hl: "unat (fst c) \<le> unat (fst p)" "fst c \<le> fst p" by (simp_all add: word_le_nat_alt)
    show ?thesis
    proof (cases "unat (fst p) + d < 2 ^ 32")
      case True
      then have "fst p < t" using t d(1) by (simp add: word_less_nat_alt)
      then have "\<forall>q \<in> set ring. fst q < t" using le by (meson le_less_trans)
      then have "dropWhile (\<lambda>q. fst q < t) ring = []" by simp
      then show ?thesis using wrap by (simp only: ring_lookup_def list.case)
    next
      case False
      have dd: "unat (fst p) + d \<le> unat (fst c) + 2 ^ 32" using d(2) hl b by (simp add: unat_arc_length)
      have "unat t = unat (fst p) + d - 2 ^ 32"
        using t False dd b by (simp add: mod_if)
      then have "t \<le> fst c" using dd by (simp add: word_le_nat_alt)
      then have "\<not> fst (hd ring) < t" using wrap by (simp only: not_less)
      then show ?thesis using wrap ne by (cases ring) (simp_all add: ring_lookup_def)
    qed
  qed
qed

lemma TakeTarget_in_arc:
  assumes arcs: "br_memberArcs b ! i = arc # arcs" and ideal: "0 < ideal" and len: "1 < ar_length arc"
    and bound: "unat (ar_length arc) \<le> 2 ^ 32"
  obtains d where "0 < d" "d \<le> unat (ar_length arc)"
    "unat (TakeTarget b i ideal) = (unat (ar_start arc) + d) mod 2 ^ 32"
proof (cases "ideal \<le> ar_length arc")
  case True
  then have "unat (TakeTarget b i ideal) = (unat (ar_start arc) + unat ideal) mod 2 ^ 32"
    using arcs by (simp add: TakeTarget_def unat_word_ariths(1) unat_ucast_down mod_add_right_eq)
  moreover have "0 < unat ideal" "unat ideal \<le> unat (ar_length arc)"
    using True ideal by (simp_all add: word_le_nat_alt word_less_nat_alt)
  ultimately show thesis by (rule that [rotated 2])
next
  case False
  have len': "1 < unat (ar_length arc)" using len by (simp add: word_less_nat_alt)
  have b: "unat (ar_start arc) < 2 ^ 32" using unsigned_less [of "ar_start arc", where ?'a = nat] by simp
  have s: "unat (ucast (ar_start arc) + ar_length arc) = unat (ar_start arc) + unat (ar_length arc)"
    using b bound by (simp add: unat_word_ariths(1) unat_ucast_up)
  have "unat (ucast (ar_start arc) + ar_length arc - 1) = unat (ar_start arc) + (unat (ar_length arc) - 1)"
    using s len' by (simp add: unat_sub_if')
  then have "unat (TakeTarget b i ideal) = (unat (ar_start arc) + (unat (ar_length arc) - 1)) mod 2 ^ 32"
    using arcs False by (simp add: TakeTarget_def unat_ucast_down)
  moreover have "0 < unat (ar_length arc) - 1" "unat (ar_length arc) - 1 \<le> unat (ar_length arc)"
    using len' by simp_all
  ultimately show thesis by (rule that [rotated 2])
qed

subsection \<open>Reachable rings\<close>

inductive ring_reach :: "BalancedRing \<Rightarrow> bool" where
  build: "ring_reach (fst (new_BalancedRing owners occ))"
| insert: "ring_reach b \<Longrightarrow> map_of (br_ring b) t = None \<Longrightarrow> m < TotalMembers b \<Longrightarrow> ring_reach (Ring_Insert b t m)"
| admit: "ring_reach b \<Longrightarrow> ring_reach (AdmitNewMember b)"

lemma ring_reach_ok: "ring_reach b \<Longrightarrow> ring_ok b"
proof (induction rule: ring_reach.induct)
  case (insert b t m)
  then show ?case by (intro Insert_ok) (simp_all add: TotalMembers_def)
qed (rule new_ring_ok Admit_ok; assumption?)+

lemma Ring_Insert_keys:
  "fst ` set (br_ring (Ring_Insert b t m)) \<subseteq> insert t (fst ` set (br_ring b))"
  by (auto simp: Ring_Insert_def AddArc_def Let_def split_def omap_emplace_def)
     (metis fst_conv fst_set_omap_set image_eqI insertE)+

lemma TotalMembers_ops [simp]:
  "TotalMembers (Ring_Insert b t m) = TotalMembers b"
  "TotalMembers (AdmitNewMember b) = Suc (TotalMembers b)"
  by (simp_all add: TotalMembers_def Ring_Insert_def AdmitNewMember_def AddArc_def Let_def split_def)

lemma arc_length_bound: "unat (arc_length p c) \<le> 2 ^ 32"
proof -
  have "unat c < 2 ^ 32" using unsigned_less [of c, where ?'a = nat] by simp
  then show ?thesis by (auto simp: unat_arc_length word_le_nat_alt)
qed

definition ring_demo :: BalancedRing where
  "ring_demo = Ring_Insert (fst (new_BalancedRing
     [\<lparr>po_token = 100, po_memberIndex = 0\<rparr>, \<lparr>po_token = 300, po_memberIndex = 1\<rparr>] {})) 200 2"

lemma ring_demo_eval: "ring_demo = \<lparr>br_ring = [(100, 0), (200, 2), (300, 1)],
   br_memberArcs = [[ArcRecord 4294967096 300], [ArcRecord 100 200], [ArcRecord 100 100]],
   br_memberShares = [4294967096, 100, 100], br_memberCount = 2\<rparr>"
  by code_simp

lemma ring_demo_reach: "ring_reach ring_demo"
proof -
  let ?b = "fst (new_BalancedRing [\<lparr>po_token = 100, po_memberIndex = 0\<rparr>, \<lparr>po_token = 300, po_memberIndex = 1\<rparr>] {})"
  have "map_of (br_ring ?b) 200 = None" "2 < TotalMembers ?b" by code_simp+
  then show ?thesis unfolding ring_demo_def by (intro ring_reach.insert ring_reach.build)
qed

text \<open>
  C22. The incremental bookkeeping is exact. On every ring that the constructor, Insert of a fresh
  token for a known member and AdmitNewMember can build, VerifyShares finds no difference: the
  share kept for each member is the sum of the lengths of the arcs it owns. The shares of a
  non-empty ring add up to the whole ring, and HeaviestMember has the largest share.
\<close>

theorem shares_are_exact:
  assumes "ring_reach b"
  shows "VerifyShares b
    \<and> (br_ring b = [] \<or> sum_list (br_memberShares b) = RING_SPACE)
    \<and> HeaviestMember b < TotalMembers b
    \<and> (\<forall>x \<in> set (br_memberShares b). x \<le> br_memberShares b ! HeaviestMember b)"
proof -
  from ring_reach_ok [OF assms] have ok: "ring_ok b" .
  note d = ring_okD [OF ok]
  have "br_memberShares b \<noteq> []" using d(2) by auto
  from max_element_max [OF this] d(2) ring_ok_verify [OF ok] ring_ok_total [OF ok]
  show ?thesis by (auto simp: HeaviestMember_def TotalMembers_def)
qed

theorem shares_are_exact_witness:
  "ring_reach ring_demo \<and> VerifyShares ring_demo \<and> HeaviestMember ring_demo = 0
   \<and> sum_list (br_memberShares ring_demo) = RING_SPACE"
  using shares_are_exact [OF ring_demo_reach] ring_demo_reach
  by (auto simp: ring_demo_eval HeaviestMember_def)

text \<open>
  The take target falls into the largest arc of the member it is computed for: the member
  owns the target when the target is looked up on the ring, and no arc of the member is longer.
  This holds for every reachable ring, every positive ideal share and every member whose largest
  arc has more than one token value, also when the arc wraps around the end of the token space.
\<close>

lemma take_target_hits_largest_arc:
  assumes reach: "ring_reach b" and m: "m < TotalMembers b"
    and arcs: "br_memberArcs b ! m = arc # rest" and len: "1 < ar_length arc" and ideal: "0 < ideal"
  shows "snd (ring_lookup (br_ring b) (TakeTarget b m ideal)) = m
    \<and> (\<forall>a \<in> set (br_memberArcs b ! m). ar_length a \<le> ar_length arc)"
proof -
  note d = ring_okD [OF ring_reach_ok [OF reach]]
  have m': "m \<le> br_memberCount b" using m by (simp add: TotalMembers_def)
  have "arc \<in> arcs_of m (br_ring b)" using d(7) [OF m'] arcs by auto
  then obtain p c where pc: "(p, c) \<in> set (pairs_of (br_ring b))" "snd c = m" "arc = arc_of (p, c)"
    by (auto simp: arcs_of_def)
  have a: "ar_length arc = arc_length (fst p) (fst c)" "ar_start arc = fst p" by (simp_all add: pc(3) arc_of_def)
  obtain x where x: "0 < x" "x \<le> unat (ar_length arc)"
    "unat (TakeTarget b m ideal) = (unat (ar_start arc) + x) mod 2 ^ 32"
    using TakeTarget_in_arc [OF arcs ideal len] arc_length_bound a(1) by metis
  have "ring_lookup (br_ring b) (TakeTarget b m ideal) = c"
    using lookup_in_arc [OF d(1) pc(1) x(1)] x(2,3) unfolding a by blast
  moreover have "ar_length y \<le> ar_length arc" if "y \<in> set (br_memberArcs b ! m)" for y
    using that d(6) [OF m'] arcs arc_le_length [of arc y] by (auto intro: less_imp_le)
  ultimately show ?thesis using pc(2) by blast
qed

lemma take_target_hits_largest_arc_witness:
  "ring_reach ring_demo \<and> TakeTarget ring_demo 0 1431655765 = 1431656065
   \<and> snd (ring_lookup (br_ring ring_demo) (TakeTarget ring_demo 0 1431655765)) = 0"
proof -
  have "TakeTarget ring_demo 0 1431655765 = 1431656065"
    by (simp add: TakeTarget_def ring_demo_eval)
  then show ?thesis
    using take_target_hits_largest_arc [OF ring_demo_reach, of 0 "ArcRecord 4294967096 300" "[]" 1431655765]
      ring_demo_reach by (simp add: ring_demo_eval TotalMembers_def)
qed

end
