(* ===== verification/TokenPlacement.thy ===== *)
theory TokenPlacement
  imports HashRingToken BalancedRing "HOL-Library.Product_Lexorder"
begin

section \<open>Token placement\<close>

text \<open>
  Models src/datasystem/cluster/algorithm/token_placement.{h,cpp}: the choice of the tokens of a new
  ring member. Without a balanced ring (or on an empty one) the seeds of each token index are
  probed in order; with one, the candidate nearest to the take target of the heaviest member wins.
  The occupied set, which the C++ class holds by reference, and the ring are the state. Seed
  candidates are addressed by their position, a natural number.
\<close>

subsection \<open>Probing\<close>

record TokenProbe =
  pr_token :: u32
  pr_seed :: u32

definition CyclicDistance :: "u32 \<Rightarrow> u32 \<Rightarrow> u32" where
  "CyclicDistance token target = min (token - target) (target - token)"

text \<open>The probe loop over the seeds that are left.\<close>

fun probe_seeds :: "string \<Rightarrow> u32 \<Rightarrow> u32 list \<Rightarrow> u32 set \<Rightarrow> TokenProbe result \<times> u32 set" where
  "probe_seeds address index [] occupied = (Inl K_INVALID, occupied)"
| "probe_seeds address index (seed # seeds) occupied =
     (let token = MakeHashRingToken address index seed
      in if token \<in> occupied then probe_seeds address index seeds occupied
         else (Inr \<lparr>pr_token = token, pr_seed = seed\<rparr>, insert token occupied))"

definition seeds_from :: "u32 \<Rightarrow> u32 list" where
  "seeds_from startSeed = map of_nat [unat startSeed..<unat MAX_HASH_RING_TOKEN_SEEDS]"

definition ProbeUniqueToken :: "MemberIdentity \<Rightarrow> u32 \<Rightarrow> u32 \<Rightarrow> u32 set \<Rightarrow> TokenProbe result \<times> u32 set" where
  "ProbeUniqueToken identity index startSeed occupied =
     probe_seeds (mi_address identity) index (seeds_from startSeed) occupied"

text \<open>
  The loop over the token indexes: it appends the chosen token, and a seed override when the seed
  is not zero. \<open>pick\<close> is the loop's choice of a token; it changes the state \<open>'s\<close>.
\<close>

fun select_loop :: "('s \<Rightarrow> u32 \<Rightarrow> TokenProbe result \<times> 's) \<Rightarrow> u32 list \<Rightarrow> 's
    \<Rightarrow> (u32 list \<times> TokenSeedOverride list) result \<times> 's" where
  "select_loop pick [] s = (Inr ([], []), s)"
| "select_loop pick (index # indexes) s =
     (case pick s index of
        (Inl e, s') \<Rightarrow> (Inl e, s')
      | (Inr probe, s') \<Rightarrow>
          (case select_loop pick indexes s' of
             (Inl e, s'') \<Rightarrow> (Inl e, s'')
           | (Inr (tokens, overrides), s'') \<Rightarrow>
               (Inr (pr_token probe # tokens,
                     (if pr_seed probe > 0 then [\<lparr>so_tokenIndex = index, so_tokenSeed = pr_seed probe\<rparr>] else [])
                     @ overrides), s'')))"

definition token_indexes :: "u32 \<Rightarrow> u32 list" where
  "token_indexes count' = map of_nat [0..<unat count']"

definition SelectSequentialTokens :: "MemberIdentity \<Rightarrow> u32 \<Rightarrow> u32 set
    \<Rightarrow> (u32 list \<times> TokenSeedOverride list) result \<times> u32 set" where
  "SelectSequentialTokens identity count' occupied =
     select_loop (\<lambda>occ index. ProbeUniqueToken identity index 0 occ) (token_indexes count') occupied"

subsection \<open>The nearest free candidate\<close>

definition nearestCandidateDepth :: nat where "nearestCandidateDepth = 4"

text \<open>
  Insertion into the array of the nearest candidates seen so far: when the array is full its last
  entry is dropped, and the entries farther away move up by one slot.
\<close>

definition nearest_insert :: "(u32 \<times> nat) \<Rightarrow> (u32 \<times> nat) list \<Rightarrow> (u32 \<times> nat) list" where
  "nearest_insert x nearest =
     (if length nearest < nearestCandidateDepth \<or> fst x < fst (last nearest) then
        let kept = (if length nearest < nearestCandidateDepth then nearest else butlast nearest);
            moved = takeWhile (\<lambda>n. fst n > fst x) (rev kept)
        in take (length kept - length moved) kept @ x # rev moved
      else nearest)"

definition nearest_candidates :: "u32 list \<Rightarrow> u32 \<Rightarrow> (u32 \<times> nat) list" where
  "nearest_candidates candidates target =
     foldl (\<lambda>nearest seed. nearest_insert (CyclicDistance (candidates ! seed) target, seed) nearest)
       [] [0..<length candidates]"

text \<open>The scan over all candidates; the state is the best distance and its seed, once found.\<close>

definition scan_candidate :: "u32 list \<Rightarrow> u32 \<Rightarrow> u32 set \<Rightarrow> (u32 \<times> nat) option \<Rightarrow> nat \<Rightarrow> (u32 \<times> nat) option" where
  "scan_candidate candidates target occupied best seed =
     (let token = candidates ! seed; distance = CyclicDistance token target
      in if token \<in> occupied then best
         else case best of
                None \<Rightarrow> Some (distance, seed)
              | Some (bestDistance, bestSeed) \<Rightarrow>
                  if distance < bestDistance then Some (distance, seed) else best)"

definition scan_all :: "u32 list \<Rightarrow> u32 \<Rightarrow> u32 set \<Rightarrow> (u32 \<times> nat) option" where
  "scan_all candidates target occupied =
     foldl (scan_candidate candidates target occupied) None [0..<length candidates]"

definition PickNearestToken :: "u32 list \<Rightarrow> u32 \<Rightarrow> u32 set \<Rightarrow> TokenProbe option" where
  "PickNearestToken candidates target occupied =
     (let probe_of = (\<lambda>(_, seed). \<lparr>pr_token = candidates ! seed, pr_seed = of_nat seed\<rparr>)
      in case find (\<lambda>(_, seed). candidates ! seed \<notin> occupied) (nearest_candidates candidates target) of
           Some n \<Rightarrow> Some (probe_of n)
         | None \<Rightarrow> map_option probe_of (scan_all candidates target occupied))"

subsection \<open>Placement\<close>

record TokenPlacement =
  pl_occupied :: "u32 set"
  pl_ring :: "BalancedRing option"

definition new_TokenPlacement :: "PlacementOwner list \<Rightarrow> u32 set \<Rightarrow> bool \<Rightarrow> TokenPlacement" where
  "new_TokenPlacement owners occupied balanced =
     (if balanced then
        case new_BalancedRing owners occupied of
          (ring, occupied') \<Rightarrow> \<lparr>pl_occupied = occupied', pl_ring = Some ring\<rparr>
      else \<lparr>pl_occupied = occupied, pl_ring = None\<rparr>)"

text \<open>The destructor checks the bookkeeping; \<open>False\<close> is the case it warns about.\<close>

definition delete_TokenPlacement :: "TokenPlacement \<Rightarrow> bool" where
  "delete_TokenPlacement tp = (case pl_ring tp of None \<Rightarrow> True | Some ring \<Rightarrow> VerifyShares ring)"

text \<open>One round of the loop of SelectBalancedTokens: the choice of the token for \<open>index\<close>.\<close>

definition choose_balanced :: "MemberIdentity \<Rightarrow> nat \<Rightarrow> u64 \<Rightarrow> u32 set \<times> BalancedRing \<Rightarrow> u32
    \<Rightarrow> TokenProbe result \<times> (u32 set \<times> BalancedRing)" where
  "choose_balanced identity newMember idealPerToken s index =
     (case s of (occupied, ring) \<Rightarrow>
        let target = TakeTarget ring (HeaviestMember ring) idealPerToken;
            candidates = MakeHashRingTokenCandidates (mi_address identity) index BALANCED_PLACEMENT_SEED_CANDIDATES
        in case PickNearestToken candidates target occupied of
             Some best \<Rightarrow>
               (Inr best, (insert (pr_token best) occupied, Ring_Insert ring (pr_token best) newMember))
           | None \<Rightarrow>
               (case ProbeUniqueToken identity index BALANCED_PLACEMENT_SEED_CANDIDATES occupied of
                  (Inl e, occupied') \<Rightarrow> (Inl e, (occupied', ring))
                | (Inr probe, occupied') \<Rightarrow>
                    (Inr probe, (occupied', Ring_Insert ring (pr_token probe) newMember))))"

definition SelectBalancedTokens :: "MemberIdentity \<Rightarrow> u32 \<Rightarrow> u32 set \<times> BalancedRing
    \<Rightarrow> (u32 list \<times> TokenSeedOverride list) result \<times> (u32 set \<times> BalancedRing)" where
  "SelectBalancedTokens identity count' s =
     (if count' = 0 then (Inr ([], []), s)
      else
        let newMember = TotalMembers (snd s) - 1;
            idealPerToken = RING_SPACE div of_nat (TotalMembers (snd s)) div ucast count'
        in case select_loop (choose_balanced identity newMember idealPerToken) (token_indexes count') s of
             (Inl e, s') \<Rightarrow> (Inl e, s')
           | (Inr out, (occupied', ring')) \<Rightarrow> (Inr out, (occupied', AdmitNewMember ring')))"

definition SelectTokens :: "TokenPlacement \<Rightarrow> MemberIdentity \<Rightarrow> u32
    \<Rightarrow> (u32 list \<times> TokenSeedOverride list) result \<times> TokenPlacement" where
  "SelectTokens tp identity count' =
     (if count' = 0 then (Inr ([], []), tp)
      else case pl_ring tp of
        None \<Rightarrow>
          (case SelectSequentialTokens identity count' (pl_occupied tp) of
             (r, occupied') \<Rightarrow> (r, tp\<lparr>pl_occupied := occupied'\<rparr>))
      | Some ring \<Rightarrow>
          if Ring_Empty ring then
            (case SelectSequentialTokens identity count' (pl_occupied tp) of
               (Inl e, occupied') \<Rightarrow> (Inl e, tp\<lparr>pl_occupied := occupied'\<rparr>)
             | (Inr (tokens, overrides), occupied') \<Rightarrow>
                 (Inr (tokens, overrides),
                  \<lparr>pl_occupied = occupied',
                   pl_ring = Some (AdmitNewMember (foldl (\<lambda>b token. Ring_Insert b token 0) ring tokens))\<rparr>))
          else
            (case SelectBalancedTokens identity count' (pl_occupied tp, ring) of
               (r, (occupied', ring')) \<Rightarrow> (r, \<lparr>pl_occupied = occupied', pl_ring = Some ring'\<rparr>)))"

subsection \<open>The shortcut agrees with the full scan\<close>

lemma nearest_shift:
  fixes kept :: "(u32 \<times> nat) list"
  assumes srt: "sorted_wrt (<) kept" and seeds: "\<forall>n \<in> set kept. snd n < snd x"
  defines "moved \<equiv> takeWhile (\<lambda>n. fst n > fst x) (rev kept)"
  shows "sorted_wrt (<) (take (length kept - length moved) kept @ x # rev moved)"
    "set (take (length kept - length moved) kept @ x # rev moved) = insert x (set kept)"
    "length (take (length kept - length moved) kept @ x # rev moved) = Suc (length kept)"
proof -
  define A where "A = rev (dropWhile (\<lambda>n. fst n > fst x) (rev kept))"
  have split: "kept = A @ rev moved"
    unfolding A_def moved_def by (metis rev_append rev_rev_ident takeWhile_dropWhile_id)
  have take: "take (length kept - length moved) kept = A" by (subst (2) split) (simp add: split)
  have A: "a < x" if a: "a \<in> set A" for a
  proof -
    have ne: "A \<noteq> []" using a by auto
    then have "\<not> fst x < fst (last A)"
      unfolding A_def by (metis hd_dropWhile last_rev rev_is_Nil_conv)
    moreover have "a \<le> last A"
      using a ne srt by (metis append_butlast_last_id in_set_conv_decomp less_imp_le order_refl set_ConsD
        set_append Un_iff empty_iff empty_set sorted_wrt_append split list.set_intros(1))
    ultimately have "fst a \<le> fst x" by (auto simp: less_eq_prod_def)
    moreover have "snd a < snd x" using seeds a split by auto
    ultimately show ?thesis by (cases a; cases x) (auto simp: less_prod_def)
  qed
  have B: "x < b" if "b \<in> set moved" for b
    using set_takeWhileD [of b] that unfolding moved_def by (auto simp: less_prod_def)
  have "sorted_wrt (<) A" "sorted_wrt (<) (rev moved)" "\<forall>a \<in> set A. \<forall>b \<in> set moved. a < b"
    using srt by (subst (asm) split, simp add: sorted_wrt_append)+
  then show "sorted_wrt (<) (take (length kept - length moved) kept @ x # rev moved)"
    unfolding take using A B by (simp add: sorted_wrt_append)
  show "set (take (length kept - length moved) kept @ x # rev moved) = insert x (set kept)"
    unfolding take by (subst split) auto
  show "length (take (length kept - length moved) kept @ x # rev moved) = Suc (length kept)"
    unfolding take by (subst split) simp
qed

lemma nearest_insert_shift:
  assumes "length nearest < nearestCandidateDepth \<and> kept = nearest
    \<or> \<not> length nearest < nearestCandidateDepth \<and> fst x < fst (last nearest) \<and> kept = butlast nearest"
    and "sorted_wrt (<) kept" and "\<forall>n \<in> set kept. snd n < snd x"
  shows "sorted_wrt (<) (nearest_insert x nearest)" "set (nearest_insert x nearest) = insert x (set kept)"
    "length (nearest_insert x nearest) = Suc (length kept)"
proof -
  have "nearest_insert x nearest = take (length kept - length (takeWhile (\<lambda>n. fst n > fst x) (rev kept))) kept
      @ x # rev (takeWhile (\<lambda>n. fst n > fst x) (rev kept))"
    using assms(1) by (auto simp: nearest_insert_def Let_def)
  then show "sorted_wrt (<) (nearest_insert x nearest)" "set (nearest_insert x nearest) = insert x (set kept)"
    "length (nearest_insert x nearest) = Suc (length kept)"
    by (simp_all only: nearest_shift [OF assms(2,3)])
qed

definition near_inv :: "(nat \<Rightarrow> u32 \<times> nat) \<Rightarrow> nat \<Rightarrow> (u32 \<times> nat) list \<Rightarrow> bool" where
  "near_inv item k nearest \<longleftrightarrow> sorted_wrt (<) nearest \<and> set nearest \<subseteq> item ` {..<k}
     \<and> length nearest = min nearestCandidateDepth k
     \<and> (\<forall>i < k. item i \<notin> set nearest \<longrightarrow> (\<forall>n \<in> set nearest. n < item i))"

lemma near_inv_insert:
  assumes inv: "near_inv item k nearest" and item: "\<And>i. snd (item i) = i"
  shows "near_inv item (Suc k) (nearest_insert (item k) nearest)"
proof -
  have srt: "sorted_wrt (<) nearest" and sub: "set nearest \<subseteq> item ` {..<k}"
    and len: "length nearest = min nearestCandidateDepth k"
    and rest: "\<And>i n. i < k \<Longrightarrow> item i \<notin> set nearest \<Longrightarrow> n \<in> set nearest \<Longrightarrow> n < item i"
    using inv by (auto simp: near_inv_def)
  have seeds: "\<forall>n \<in> set nearest. snd n < snd (item k)" using sub item by auto
  consider (room) "length nearest < nearestCandidateDepth"
    | (full) "length nearest = nearestCandidateDepth" "fst (item k) < fst (last nearest)"
    | (far) "length nearest = nearestCandidateDepth" "\<not> fst (item k) < fst (last nearest)"
    using len by linarith
  then show ?thesis
  proof cases
    case room
    then have "length nearest = k" using len by simp
    moreover have "distinct nearest" using srt strict_sorted_iff by blast
    ultimately have "card (set nearest) = k" by (simp add: distinct_card)
    moreover have "card (item ` {..<k}) \<le> k" by (metis card_image_le card_lessThan finite_lessThan)
    ultimately have all: "set nearest = item ` {..<k}"
      by (metis card_seteq finite_imageI finite_lessThan sub)
    have "set (nearest_insert (item k) nearest) = insert (item k) (item ` {..<k})"
      "sorted_wrt (<) (nearest_insert (item k) nearest)"
      "length (nearest_insert (item k) nearest) = Suc (length nearest)"
      using nearest_insert_shift [OF _ srt seeds] room all by simp_all
    then show ?thesis using len room by (auto simp: near_inv_def lessThan_Suc less_Suc_eq)
  next
    case full
    have ne: "nearest \<noteq> []" using full(1) by (auto simp: nearestCandidateDepth_def)
    then have nl: "nearest = butlast nearest @ [last nearest]" by simp
    have kept: "sorted_wrt (<) (butlast nearest)" "\<forall>n \<in> set (butlast nearest). n < last nearest"
      using srt by (subst (asm) nl, simp add: sorted_wrt_append)+
    have seeds': "\<forall>n \<in> set (butlast nearest). snd n < snd (item k)" using seeds by (auto dest: in_set_butlastD)
    have new: "set (nearest_insert (item k) nearest) = insert (item k) (set (butlast nearest))"
      "sorted_wrt (<) (nearest_insert (item k) nearest)"
      "length (nearest_insert (item k) nearest) = length nearest"
      using nearest_insert_shift [OF _ kept(1) seeds', of nearest] full ne by (simp_all add: nearestCandidateDepth_def)
    have lt: "item k < last nearest" using full(2) by (simp add: less_prod_def)
    have "n < item i" if i: "i < Suc k" "item i \<notin> set (nearest_insert (item k) nearest)"
      "n \<in> set (nearest_insert (item k) nearest)" for i n
    proof -
      have "i < k" using i new(1) by (auto simp: less_Suc_eq)
      have up: "n < last nearest" using i(3) new(1) kept(2) lt by auto
      show ?thesis
      proof (cases "item i \<in> set nearest")
        case True
        then have "item i = last nearest" using i(2) new(1) by (subst (asm) nl) auto
        then show ?thesis using up by simp
      next
        case False
        then show ?thesis using rest [OF \<open>i < k\<close> False, of "last nearest"] up ne by (auto intro: less_trans)
      qed
    qed
    moreover have "set (nearest_insert (item k) nearest) \<subseteq> item ` {..<Suc k}"
      using new(1) sub by (auto simp: lessThan_Suc dest: in_set_butlastD)
    ultimately show ?thesis using new len full by (simp add: near_inv_def)
  next
    case far
    have ne: "nearest \<noteq> []" using far(1) by (auto simp: nearestCandidateDepth_def)
    then have nl: "nearest = butlast nearest @ [last nearest]" by simp
    have "\<forall>n \<in> set (butlast nearest). n < last nearest"
      using srt by (subst (asm) nl, simp add: sorted_wrt_append)
    moreover have "last nearest < item k"
      using far(2) seeds ne by (cases "last nearest"; cases "item k") (auto simp: less_prod_def dest!: last_in_set)
    ultimately have "n < item k" if "n \<in> set nearest" for n
      using that by (subst (asm) nl) (auto intro: less_trans)
    then have "near_inv item (Suc k) nearest"
      using srt sub len far(1) rest by (auto simp: near_inv_def less_Suc_eq lessThan_Suc)
    then show ?thesis using far by (simp add: nearest_insert_def)
  qed
qed

text \<open>The candidate with the least distance and, among these, the least seed.\<close>

definition best_free :: "(nat \<Rightarrow> u32 \<times> nat) \<Rightarrow> (nat \<Rightarrow> bool) \<Rightarrow> nat \<Rightarrow> (u32 \<times> nat) option \<Rightarrow> bool" where
  "best_free item free k best \<longleftrightarrow>
     (case best of None \<Rightarrow> \<forall>i < k. \<not> free i
      | Some b \<Rightarrow> (\<exists>i < k. free i \<and> b = item i) \<and> (\<forall>i < k. free i \<longrightarrow> b \<le> item i))"

lemma best_free_unique: "best_free item free k b \<Longrightarrow> best_free item free k b' \<Longrightarrow> b = b'"
proof (cases b)
  case None
  then show "best_free item free k b \<Longrightarrow> best_free item free k b' \<Longrightarrow> b = b'"
    unfolding best_free_def by (cases b') auto
next
  case (Some x)
  assume b: "best_free item free k b" and b': "best_free item free k b'"
  then obtain y where y: "b' = Some y" using Some unfolding best_free_def by (cases b') auto
  obtain i j where "i < k" "free i" "x = item i" "j < k" "free j" "y = item j"
    using b b' unfolding best_free_def Some y option.case by blast
  moreover have "\<And>i. i < k \<Longrightarrow> free i \<Longrightarrow> x \<le> item i" "\<And>i. i < k \<Longrightarrow> free i \<Longrightarrow> y \<le> item i"
    using b b' unfolding best_free_def Some y option.case by blast+
  ultimately have "x = y" by (metis order_antisym)
  then show "b = b'" using Some y by simp
qed

definition candidate :: "u32 list \<Rightarrow> u32 \<Rightarrow> nat \<Rightarrow> u32 \<times> nat" where
  "candidate candidates target i = (CyclicDistance (candidates ! i) target, i)"

lemma scan_step_best:
  assumes inv: "best_free (candidate cs target) (\<lambda>i. cs ! i \<notin> occ) k best"
  shows "best_free (candidate cs target) (\<lambda>i. cs ! i \<notin> occ) (Suc k) (scan_candidate cs target occ best k)"
proof (cases "cs ! k \<in> occ")
  case True
  then have "scan_candidate cs target occ best k = best" by (simp add: scan_candidate_def)
  then show ?thesis using inv True by (auto simp: best_free_def less_Suc_eq split: option.splits)
next
  case False
  show ?thesis
  proof (cases best)
    case None
    then show ?thesis
      using inv False by (auto simp: best_free_def less_Suc_eq scan_candidate_def candidate_def)
  next
    case (Some b)
    then have b: "\<exists>i < k. cs ! i \<notin> occ \<and> b = candidate cs target i"
      and least: "\<And>i. i < k \<Longrightarrow> cs ! i \<notin> occ \<Longrightarrow> b \<le> candidate cs target i"
      using inv by (auto simp: best_free_def)
    have seed: "snd b < k" using b by (auto simp: candidate_def)
    show ?thesis
    proof (cases "CyclicDistance (cs ! k) target < fst b")
      case True
      then have new: "scan_candidate cs target occ best k = Some (candidate cs target k)"
        using False Some by (simp add: scan_candidate_def candidate_def split_def)
      have le: "candidate cs target k \<le> b" using True by (simp add: candidate_def less_eq_prod_def)
      have "candidate cs target k \<le> candidate cs target i" if "i < Suc k" "cs ! i \<notin> occ" for i
        using that le least by (metis less_Suc_eq order_refl order_trans)
      then show ?thesis using False unfolding best_free_def new by auto
    next
      case le: False
      then have old: "scan_candidate cs target occ best k = Some b"
        using False Some by (simp add: scan_candidate_def split_def)
      have "b \<le> candidate cs target k"
        using le seed by (cases b) (auto simp: candidate_def less_eq_prod_def not_less)
      then have "b \<le> candidate cs target i" if "i < Suc k" "cs ! i \<notin> occ" for i
        using that least [of i] by (auto simp: less_Suc_eq)
      then show ?thesis using b unfolding best_free_def old by (auto intro: less_SucI)
    qed
  qed
qed

lemma scan_all_best:
  "best_free (candidate cs target) (\<lambda>i. cs ! i \<notin> occ) (length cs) (scan_all cs target occ)"
proof -
  have "best_free (candidate cs target) (\<lambda>i. cs ! i \<notin> occ) k (foldl (scan_candidate cs target occ) None [0..<k])" for k
  proof (induction k)
    case (Suc k)
    then show ?case using scan_step_best by simp
  qed (simp add: best_free_def)
  then show ?thesis by (simp add: scan_all_def)
qed

lemma nearest_candidates_inv:
  "near_inv (candidate cs target) (length cs) (nearest_candidates cs target)"
proof -
  have "near_inv (candidate cs target) k
     (foldl (\<lambda>nearest seed. nearest_insert (CyclicDistance (cs ! seed) target, seed) nearest) [] [0..<k])" for k
  proof (induction k)
    case (Suc k)
    from near_inv_insert [OF Suc] show ?case by (simp add: candidate_def)
  qed (simp add: near_inv_def)
  then show ?thesis by (simp add: nearest_candidates_def)
qed

lemma find_sorted_least:
  fixes xs :: "'a::linorder list"
  shows "sorted_wrt (<) xs \<Longrightarrow> find P xs = Some x \<Longrightarrow> x \<in> set xs \<and> P x \<and> (\<forall>y \<in> set xs. P y \<longrightarrow> x \<le> y)"
  by (induction xs) (auto split: if_splits)

lemma shortcut_best:
  assumes "find (\<lambda>(_, seed). cs ! seed \<notin> occ) (nearest_candidates cs target) = Some b"
  shows "best_free (candidate cs target) (\<lambda>i. cs ! i \<notin> occ) (length cs) (Some b)"
proof -
  note inv = nearest_candidates_inv [of cs target, unfolded near_inv_def]
  have b: "b \<in> set (nearest_candidates cs target)" "cs ! snd b \<notin> occ"
    "\<And>y. y \<in> set (nearest_candidates cs target) \<Longrightarrow> cs ! snd y \<notin> occ \<Longrightarrow> b \<le> y"
    using find_sorted_least [OF conjunct1 [OF inv] assms] by (auto simp: split_def)
  obtain i where i: "i < length cs" "b = candidate cs target i" using b(1) inv by blast
  have "b \<le> candidate cs target j" if "j < length cs" "cs ! j \<notin> occ" for j
  proof (cases "candidate cs target j \<in> set (nearest_candidates cs target)")
    case True
    then show ?thesis using b(3) that by (simp add: candidate_def)
  next
    case False
    then show ?thesis using inv b(1) that by (blast intro: less_imp_le)
  qed
  then show ?thesis using i b(2) by (auto simp: best_free_def candidate_def)
qed

lemma PickNearestToken_scan:
  "PickNearestToken cs target occ
     = map_option (\<lambda>(_, seed). \<lparr>pr_token = cs ! seed, pr_seed = of_nat seed\<rparr>) (scan_all cs target occ)"
proof (cases "find (\<lambda>(_, seed). cs ! seed \<notin> occ) (nearest_candidates cs target)")
  case (Some b)
  from best_free_unique [OF scan_all_best shortcut_best [OF Some]] show ?thesis
    by (simp add: PickNearestToken_def Some)
next
  case None
  then show ?thesis by (simp only: PickNearestToken_def Let_def None option.case)
qed

lemma PickNearestToken_cases:
  obtains (none) "PickNearestToken cs target occ = None" "\<And>i. i < length cs \<Longrightarrow> cs ! i \<in> occ"
  | (some) i where "i < length cs" "cs ! i \<notin> occ"
      "PickNearestToken cs target occ = Some \<lparr>pr_token = cs ! i, pr_seed = of_nat i\<rparr>"
      "\<And>j. j < length cs \<Longrightarrow> cs ! j \<notin> occ \<Longrightarrow> candidate cs target i \<le> candidate cs target j"
proof (cases "scan_all cs target occ")
  case None
  then show thesis
    using none scan_all_best [of cs target occ] by (auto simp: PickNearestToken_scan best_free_def)
next
  case (Some b)
  then obtain i where "i < length cs" "cs ! i \<notin> occ" "b = candidate cs target i"
    and "\<forall>j < length cs. cs ! j \<notin> occ \<longrightarrow> b \<le> candidate cs target j"
    using scan_all_best [of cs target occ] by (auto simp: best_free_def)
  then show thesis using some [of i] Some by (auto simp: PickNearestToken_scan candidate_def)
qed

text \<open>
  C23. The four-entry shortcut of PickNearestToken changes nothing: for every list of candidates,
  every target and every occupied set the result is the one that scanning all candidates gives.
  When it is a token, the token is free and no free candidate is nearer to the target on the ring,
  nor as near with a smaller seed; when there is none, every candidate is occupied.
\<close>

theorem pick_nearest_is_full_scan:
  "PickNearestToken cs target occ
     = map_option (\<lambda>(_, seed). \<lparr>pr_token = cs ! seed, pr_seed = of_nat seed\<rparr>) (scan_all cs target occ)
   \<and> (case scan_all cs target occ of
        None \<Rightarrow> set cs \<subseteq> occ
      | Some (distance, seed) \<Rightarrow> seed < length cs \<and> cs ! seed \<notin> occ
          \<and> distance = CyclicDistance (cs ! seed) target
          \<and> (\<forall>i < length cs. cs ! i \<in> occ \<or> distance < CyclicDistance (cs ! i) target
               \<or> distance = CyclicDistance (cs ! i) target \<and> seed \<le> i))"
proof (cases "scan_all cs target occ")
  case None
  then have "\<forall>i < length cs. cs ! i \<in> occ" using scan_all_best [of cs target occ] by (simp add: best_free_def)
  then have "set cs \<subseteq> occ" by (metis in_set_conv_nth subsetI)
  then show ?thesis using None PickNearestToken_scan [of cs target occ] by simp
next
  case (Some b)
  then obtain i where i: "i < length cs" "cs ! i \<notin> occ" "b = candidate cs target i"
    and least: "\<forall>j < length cs. cs ! j \<notin> occ \<longrightarrow> b \<le> candidate cs target j"
    using scan_all_best [of cs target occ] by (auto simp: best_free_def)
  have "\<forall>j < length cs. cs ! j \<in> occ \<or> CyclicDistance (cs ! i) target < CyclicDistance (cs ! j) target
      \<or> CyclicDistance (cs ! i) target = CyclicDistance (cs ! j) target \<and> i \<le> j"
    using least unfolding i(3) candidate_def less_eq_prod_def fst_conv snd_conv by (metis order_le_less)
  then show ?thesis
    using Some i PickNearestToken_scan [of cs target occ] by (simp add: candidate_def)
qed

theorem pick_nearest_is_full_scan_witness:
  "scan_all [10, 20, 31, 29, 40] 30 {31, 29} = Some (10, 1)
   \<and> PickNearestToken [10, 20, 31, 29, 40] 30 {31, 29} = Some \<lparr>pr_token = 20, pr_seed = 1\<rparr>"
proof -
  have "scan_all [10, 20, 31, 29, 40] 30 {31, 29} = Some (10, 1)" by code_simp
  then show ?thesis using pick_nearest_is_full_scan [of "[10, 20, 31, 29, 40]" 30 "{31, 29}"] by simp
qed

subsection \<open>Selected tokens\<close>

text \<open>The seed vector that a member's overrides stand for.\<close>

definition apply_overrides :: "nat \<Rightarrow> TokenSeedOverride list \<Rightarrow> u32 list" where
  "apply_overrides n overrides =
     foldl (\<lambda>seeds o'. seeds[unat (so_tokenIndex o') := so_tokenSeed o']) (replicate n 0) overrides"

definition override_for :: "u32 \<Rightarrow> u32 \<Rightarrow> TokenSeedOverride list" where
  "override_for index seed = (if seed > 0 then [\<lparr>so_tokenIndex = index, so_tokenSeed = seed\<rparr>] else [])"

definition overrides_of :: "u32 list \<Rightarrow> u32 list \<Rightarrow> TokenSeedOverride list" where
  "overrides_of indexes seeds = concat (map2 override_for indexes seeds)"

lemma apply_overrides_prefix:
  assumes "length seeds \<le> n" "n \<le> 2 ^ 32"
  shows "apply_overrides n (overrides_of (map of_nat [0..<length seeds]) seeds) = seeds @ replicate (n - length seeds) 0"
  using assms(1)
proof (induction seeds rule: rev_induct)
  case (snoc x seeds)
  have idx: "unat (of_nat (length seeds) :: u32) = length seeds"
    using snoc.prems assms(2) by (simp add: unat_of_nat)
  have rep: "replicate (n - length seeds) (0 :: u32) = 0 # replicate (n - length (seeds @ [x])) 0"
    using snoc.prems by (metis Suc_diff_Suc Suc_le_eq length_append_singleton replicate_Suc)
  have "overrides_of (map of_nat [0..<length (seeds @ [x])]) (seeds @ [x])
      = overrides_of (map of_nat [0..<length seeds]) seeds @ override_for (of_nat (length seeds)) x"
    by (simp add: overrides_of_def)
  then show ?case
    using snoc idx rep by (simp add: apply_overrides_def override_for_def word_greater_zero_iff)
qed (simp add: apply_overrides_def overrides_of_def)

lemma seeds_round_trip:
  assumes "length seeds \<le> 2 ^ 32"
  shows "apply_overrides (length seeds) (overrides_of (map of_nat [0..<length seeds]) seeds) = seeds"
  using apply_overrides_prefix [OF order_refl assms] by simp

definition selected :: "string \<Rightarrow> u32 list \<Rightarrow> u32 set \<Rightarrow> u32 list \<Rightarrow> TokenSeedOverride list \<Rightarrow> u32 set \<Rightarrow> bool" where
  "selected address indexes occ tokens overrides occ' \<longleftrightarrow>
     (\<exists>seeds. length seeds = length indexes \<and> (\<forall>seed \<in> set seeds. seed < MAX_HASH_RING_TOKEN_SEEDS)
        \<and> tokens = map2 (token_of address) indexes seeds \<and> overrides = overrides_of indexes seeds)
     \<and> distinct tokens \<and> set tokens \<inter> occ = {} \<and> occ' = occ \<union> set tokens"

definition exhausted :: "string \<Rightarrow> u32 list \<Rightarrow> u32 set \<Rightarrow> bool" where
  "exhausted address indexes occ \<longleftrightarrow>
     (\<exists>index \<in> set indexes. \<forall>seed < MAX_HASH_RING_TOKEN_SEEDS. token_of address index seed \<in> occ)"

text \<open>What the loop over the token indexes relies on of a choice of one token.\<close>

locale token_chooser =
  fixes pick :: "'s \<Rightarrow> u32 \<Rightarrow> TokenProbe result \<times> 's" and occ :: "'s \<Rightarrow> u32 set"
    and ok :: "'s \<Rightarrow> bool" and address :: string
  assumes pick_ok: "ok s \<Longrightarrow> pick s i = (Inr pr, s') \<Longrightarrow>
      pr_token pr = token_of address i (pr_seed pr) \<and> pr_seed pr < MAX_HASH_RING_TOKEN_SEEDS
      \<and> pr_token pr \<notin> occ s \<and> occ s' = insert (pr_token pr) (occ s) \<and> ok s'"
    and pick_error: "ok s \<Longrightarrow> pick s i = (Inl e, s') \<Longrightarrow>
      e = K_INVALID \<and> (\<forall>seed < MAX_HASH_RING_TOKEN_SEEDS. token_of address i seed \<in> occ s)
      \<and> occ s' = occ s \<and> ok s'"
begin

lemma select_loop_ok:
  "ok s \<Longrightarrow> select_loop pick indexes s = (Inr (tokens, overrides), s') \<Longrightarrow>
     selected address indexes (occ s) tokens overrides (occ s') \<and> ok s'"
proof (induction indexes arbitrary: s tokens overrides)
  case Nil
  then show ?case by (simp add: selected_def overrides_of_def)
next
  case (Cons i indexes)
  obtain pr s1 ts os where step: "pick s i = (Inr pr, s1)"
    and rest: "select_loop pick indexes s1 = (Inr (ts, os), s')"
    and out: "tokens = pr_token pr # ts" "overrides = override_for i (pr_seed pr) @ os"
    using Cons.prems(2) by (auto simp: override_for_def split: prod.splits sum.splits)
  note p = pick_ok [OF Cons.prems(1) step]
  have r: "selected address indexes (occ s1) ts os (occ s')" "ok s'"
    using Cons.IH [OF _ rest] p by simp_all
  obtain seeds where seeds: "length seeds = length indexes" "\<forall>seed \<in> set seeds. seed < MAX_HASH_RING_TOKEN_SEEDS"
    "ts = map2 (token_of address) indexes seeds" "os = overrides_of indexes seeds"
    using r(1) unfolding selected_def by blast
  have "length (pr_seed pr # seeds) = length (i # indexes)"
    "\<forall>seed \<in> set (pr_seed pr # seeds). seed < MAX_HASH_RING_TOKEN_SEEDS"
    "tokens = map2 (token_of address) (i # indexes) (pr_seed pr # seeds)"
    "overrides = overrides_of (i # indexes) (pr_seed pr # seeds)"
    using seeds p out by (simp_all add: overrides_of_def)
  moreover have "distinct tokens" "set tokens \<inter> occ s = {}" "occ s' = occ s \<union> set tokens"
    using r(1) p out by (auto simp: selected_def)
  ultimately show ?case using r(2) unfolding selected_def by blast
qed

lemma select_loop_error:
  "ok s \<Longrightarrow> select_loop pick indexes s = (Inl e, s') \<Longrightarrow>
     e = K_INVALID \<and> exhausted address indexes (occ s') \<and> ok s'"
proof (induction indexes arbitrary: s)
  case (Cons i indexes)
  then consider (now) "pick s i = (Inl e, s')"
    | (later) pr s1 where "pick s i = (Inr pr, s1)" "select_loop pick indexes s1 = (Inl e, s')"
    by (auto split: prod.splits sum.splits)
  then show ?case
  proof cases
    case now
    from pick_error [OF Cons.prems(1) now] show ?thesis by (auto simp: exhausted_def)
  next
    case later
    from pick_ok [OF Cons.prems(1) later(1)] Cons.IH [OF _ later(2)] show ?thesis
      by (auto simp: exhausted_def)
  qed
qed simp

end

lemma probe_seeds_ok:
  "probe_seeds address i seeds occ = (Inr pr, occ') \<Longrightarrow> pr_seed pr \<in> set seeds
     \<and> pr_token pr = token_of address i (pr_seed pr) \<and> pr_token pr \<notin> occ \<and> occ' = insert (pr_token pr) occ"
  by (induction seeds) (auto simp: Let_def MakeHashRingToken_eq split: if_splits)

lemma probe_seeds_error:
  "probe_seeds address i seeds occ = (Inl e, occ') \<Longrightarrow> e = K_INVALID \<and> occ' = occ
     \<and> (\<forall>seed \<in> set seeds. token_of address i seed \<in> occ)"
  by (induction seeds) (auto simp: Let_def MakeHashRingToken_eq split: if_splits)

lemma set_seeds_from:
  "seed \<in> set (seeds_from start) \<longleftrightarrow> start \<le> seed \<and> seed < MAX_HASH_RING_TOKEN_SEEDS"
proof -
  have "seed = of_nat n \<longleftrightarrow> n = unat seed" if "n < unat MAX_HASH_RING_TOKEN_SEEDS" for n
    using that by (auto simp: MAX_HASH_RING_TOKEN_SEEDS_def unat_of_nat)
  then have "seed \<in> set (seeds_from start) \<longleftrightarrow> unat seed \<in> {unat start..<unat MAX_HASH_RING_TOKEN_SEEDS}"
    unfolding seeds_from_def by (auto simp: image_iff)
  then show ?thesis by (simp add: word_le_nat_alt word_less_nat_alt)
qed

interpretation seq: token_chooser "\<lambda>occ index. ProbeUniqueToken identity index 0 occ" "\<lambda>occ. occ" "\<lambda>_. True"
    "mi_address identity" for identity
proof
  fix s i pr s'
  assume "ProbeUniqueToken identity i 0 s = (Inr pr, s')"
  from probe_seeds_ok [OF this [unfolded ProbeUniqueToken_def]]
  show "pr_token pr = token_of (mi_address identity) i (pr_seed pr) \<and> pr_seed pr < MAX_HASH_RING_TOKEN_SEEDS
      \<and> pr_token pr \<notin> s \<and> s' = insert (pr_token pr) s \<and> True"
    unfolding set_seeds_from by blast
next
  fix s i e s'
  assume "ProbeUniqueToken identity i 0 s = (Inl e, s')"
  from probe_seeds_error [OF this [unfolded ProbeUniqueToken_def]]
  show "e = K_INVALID \<and> (\<forall>seed < MAX_HASH_RING_TOKEN_SEEDS. token_of (mi_address identity) i seed \<in> s)
      \<and> s' = s \<and> True"
    by (simp add: set_seeds_from)
qed

definition bal_ok :: "nat \<Rightarrow> u32 set \<times> BalancedRing \<Rightarrow> bool" where
  "bal_ok m s \<longleftrightarrow> ring_reach (snd s) \<and> fst ` set (br_ring (snd s)) \<subseteq> fst s \<and> m < TotalMembers (snd s)"

lemma bal_ok_insert:
  assumes "bal_ok m (occ, ring)" "t \<notin> occ"
  shows "bal_ok m (insert t occ, Ring_Insert ring t m)"
proof -
  have "map_of (br_ring ring) t = None" using assms by (auto simp: bal_ok_def map_of_eq_None_iff)
  then show ?thesis
    using assms(1) Ring_Insert_keys [of ring t m] by (auto simp: bal_ok_def intro: ring_reach.insert)
qed

lemma candidate_count: "max 1 (unat BALANCED_PLACEMENT_SEED_CANDIDATES) = 1000"
  by (simp add: BALANCED_PLACEMENT_SEED_CANDIDATES_def)

lemma candidate_seed: "i < 1000 \<Longrightarrow> (of_nat i :: u32) < BALANCED_PLACEMENT_SEED_CANDIDATES"
  by (simp add: BALANCED_PLACEMENT_SEED_CANDIDATES_def word_less_nat_alt unat_of_nat)

lemma choose_balanced_cases:
  assumes "choose_balanced identity m ideal (occ, ring) i = (r, s')"
  obtains (pick) j where "j < 1000" "token_of (mi_address identity) i (of_nat j) \<notin> occ"
      "r = Inr \<lparr>pr_token = token_of (mi_address identity) i (of_nat j), pr_seed = of_nat j\<rparr>"
      "s' = (insert (token_of (mi_address identity) i (of_nat j)) occ,
             Ring_Insert ring (token_of (mi_address identity) i (of_nat j)) m)"
  | (probe) pr occ' where "ProbeUniqueToken identity i BALANCED_PLACEMENT_SEED_CANDIDATES occ = (Inr pr, occ')"
      "r = Inr pr" "s' = (occ', Ring_Insert ring (pr_token pr) m)"
  | (fail) e occ' where "ProbeUniqueToken identity i BALANCED_PLACEMENT_SEED_CANDIDATES occ = (Inl e, occ')"
      "\<And>j. j < 1000 \<Longrightarrow> token_of (mi_address identity) i (of_nat j) \<in> occ"
      "r = Inl e" "s' = (occ', ring)"
proof -
  let ?cs = "MakeHashRingTokenCandidates (mi_address identity) i BALANCED_PLACEMENT_SEED_CANDIDATES"
  let ?t = "TakeTarget ring (HeaviestMember ring) ideal"
  have cs: "length ?cs = 1000" "\<And>j. j < 1000 \<Longrightarrow> ?cs ! j = token_of (mi_address identity) i (of_nat j)"
    unfolding MakeHashRingTokenCandidates_eq candidate_count by simp_all
  show thesis
  proof (cases rule: PickNearestToken_cases [of ?cs ?t occ])
    case none
    then show thesis
      using assms probe fail cs
      by (auto simp: choose_balanced_def Let_def split: prod.splits sum.splits)
  next
    case (some j)
    then show thesis
      using assms pick [of j] cs by (simp add: choose_balanced_def Let_def)
  qed
qed

interpretation bal: token_chooser "choose_balanced identity m ideal" fst "bal_ok m" "mi_address identity"
    for identity m ideal
proof
  fix s i pr s'
  assume ok: "bal_ok m s" and "choose_balanced identity m ideal s i = (Inr pr, s')"
  then have c: "choose_balanced identity m ideal (fst s, snd s) i = (Inr pr, s')" by simp
  have ok: "bal_ok m (fst s, snd s)" using ok by simp
  from c show "pr_token pr = token_of (mi_address identity) i (pr_seed pr) \<and> pr_seed pr < MAX_HASH_RING_TOKEN_SEEDS
      \<and> pr_token pr \<notin> fst s \<and> fst s' = insert (pr_token pr) (fst s) \<and> bal_ok m s'"
  proof (cases rule: choose_balanced_cases)
    case (pick j)
    have "(of_nat j :: u32) < MAX_HASH_RING_TOKEN_SEEDS"
      using candidate_seed [OF pick(1)]
      by (rule less_trans) (simp add: BALANCED_PLACEMENT_SEED_CANDIDATES_def MAX_HASH_RING_TOKEN_SEEDS_def)
    then show ?thesis using pick bal_ok_insert [OF ok] by simp
  next
    case (probe pr' occ')
    from probe_seeds_ok [OF probe(1) [unfolded ProbeUniqueToken_def]] show ?thesis
      using probe bal_ok_insert [OF ok] by (auto simp: set_seeds_from)
  qed simp
next
  fix s i e s'
  assume ok: "bal_ok m s" and "choose_balanced identity m ideal s i = (Inl e, s')"
  then have c: "choose_balanced identity m ideal (fst s, snd s) i = (Inl e, s')" by simp
  from c show "e = K_INVALID \<and> (\<forall>seed < MAX_HASH_RING_TOKEN_SEEDS. token_of (mi_address identity) i seed \<in> fst s)
      \<and> fst s' = fst s \<and> bal_ok m s'"
  proof (cases rule: choose_balanced_cases)
    case (fail e' occ')
    note pr = probe_seeds_error [OF fail(1) [unfolded ProbeUniqueToken_def]]
    have "token_of (mi_address identity) i seed \<in> fst s" if "seed < MAX_HASH_RING_TOKEN_SEEDS" for seed
    proof (cases "seed < BALANCED_PLACEMENT_SEED_CANDIDATES")
      case True
      then have "unat seed < 1000" by (simp add: BALANCED_PLACEMENT_SEED_CANDIDATES_def word_less_nat_alt)
      from fail(2) [OF this] show ?thesis by simp
    next
      case False
      then have "seed \<in> set (seeds_from BALANCED_PLACEMENT_SEED_CANDIDATES)"
        using that by (simp add: set_seeds_from not_less)
      then show ?thesis using pr by blast
    qed
    then show ?thesis using pr fail ok by simp
  qed simp_all
qed

subsection \<open>Placements\<close>

definition placement_ok :: "TokenPlacement \<Rightarrow> bool" where
  "placement_ok tp \<longleftrightarrow>
     (case pl_ring tp of None \<Rightarrow> True
      | Some ring \<Rightarrow> ring_reach ring \<and> fst ` set (br_ring ring) \<subseteq> pl_occupied tp)"

lemma br_ring_foldl_AddArc: "br_ring (foldl (\<lambda>b (p, c). AddArc b (f p c) (g p c)) b P) = br_ring b"
  by (induction P arbitrary: b) (auto simp: AddArc_def)

lemma new_placement_ok: "placement_ok (new_TokenPlacement owners occ balanced)"
proof -
  have "br_ring (fst (new_BalancedRing owners occ)) = foldl (\<lambda>r q. omap_emplace (po_token q) (po_memberIndex q) r) [] owners"
    by (simp add: new_BalancedRing_def BuildArcs_def Let_def br_ring_foldl_AddArc)
  moreover obtain m where "\<forall>q \<in> set owners. po_memberIndex q \<le> m"
    using foldl_max_ge [of 0 po_memberIndex owners] by blast
  ultimately have "fst ` set (br_ring (fst (new_BalancedRing owners occ))) \<subseteq> snd (new_BalancedRing owners occ)"
    using owners_ring [of owners m "[]"] by (simp add: new_BalancedRing_def Let_def)
  then show ?thesis
    using ring_reach.build [of owners occ]
    by (cases "new_BalancedRing owners occ") (simp add: placement_ok_def new_TokenPlacement_def)
qed

lemma insert_moves: "A \<subseteq> insert t B \<Longrightarrow> A \<union> C \<subseteq> B \<union> insert t C"
  by blast

lemma insert_all_reach:
  assumes "ring_reach b" "m < TotalMembers b" "distinct ts" "set ts \<inter> fst ` set (br_ring b) = {}"
  shows "ring_reach (foldl (\<lambda>b t. Ring_Insert b t m) b ts)
    \<and> fst ` set (br_ring (foldl (\<lambda>b t. Ring_Insert b t m) b ts)) \<subseteq> fst ` set (br_ring b) \<union> set ts"
  using assms
proof (induction ts arbitrary: b)
  case (Cons t ts)
  have "map_of (br_ring b) t = None" using Cons.prems(4) by (auto simp: map_of_eq_None_iff)
  then have "ring_reach (Ring_Insert b t m)" using Cons.prems by (intro ring_reach.insert)
  moreover have "set ts \<inter> fst ` set (br_ring (Ring_Insert b t m)) = {}"
    using Ring_Insert_keys [of b t m] Cons.prems(3,4) by auto
  ultimately have "ring_reach (foldl (\<lambda>b t. Ring_Insert b t m) (Ring_Insert b t m) ts)"
    "fst ` set (br_ring (foldl (\<lambda>b t. Ring_Insert b t m) (Ring_Insert b t m) ts))
       \<subseteq> fst ` set (br_ring (Ring_Insert b t m)) \<union> set ts"
    using Cons.IH [of "Ring_Insert b t m"] Cons.prems(2,3) by simp_all
  moreover have "fst ` set (br_ring (Ring_Insert b t m)) \<union> set ts \<subseteq> fst ` set (br_ring b) \<union> set (t # ts)"
    unfolding list.set by (rule insert_moves [OF Ring_Insert_keys])
  ultimately show ?case unfolding foldl.simps by (intro conjI) (assumption, rule order_trans)
qed simp

lemma SelectSequentialTokens_ok:
  assumes "SelectSequentialTokens identity count' occ = (r, occ')"
  shows "case r of Inl e \<Rightarrow> e = K_INVALID \<and> exhausted (mi_address identity) (token_indexes count') occ'
      | Inr (ts, ovs) \<Rightarrow> selected (mi_address identity) (token_indexes count') occ ts ovs occ'"
  using assms seq.select_loop_ok [of identity _ occ] seq.select_loop_error [of identity _ occ]
  unfolding SelectSequentialTokens_def by (auto split: sum.splits)

lemma SelectBalancedTokens_ok:
  assumes run: "SelectBalancedTokens identity count' (occ, ring) = (r, (occ', ring'))"
    and reach: "ring_reach ring" and keys: "fst ` set (br_ring ring) \<subseteq> occ" and pos: "count' \<noteq> 0"
  shows "ring_reach ring' \<and> fst ` set (br_ring ring') \<subseteq> occ'
    \<and> (case r of Inl e \<Rightarrow> e = K_INVALID \<and> exhausted (mi_address identity) (token_indexes count') occ'
      | Inr (ts, ovs) \<Rightarrow> selected (mi_address identity) (token_indexes count') occ ts ovs occ')"
proof -
  let ?m = "TotalMembers ring - 1"
  let ?ideal = "RING_SPACE div of_nat (TotalMembers ring) div ucast count'"
  obtain q occ1 ring1 where loop:
      "select_loop (choose_balanced identity ?m ?ideal) (token_indexes count') (occ, ring) = (q, (occ1, ring1))"
    by (metis prod.exhaust)
  have ok: "bal_ok ?m (occ, ring)" using reach keys by (simp add: bal_ok_def TotalMembers_def)
  show ?thesis
  proof (cases q)
    case (Inl e)
    from bal.select_loop_error [OF ok loop [unfolded Inl]] show ?thesis
      using run pos loop Inl by (auto simp: SelectBalancedTokens_def Let_def bal_ok_def)
  next
    case (Inr out)
    obtain ts ovs where out: "out = (ts, ovs)" by (cases out)
    have "br_ring (AdmitNewMember ring1) = br_ring ring1" by (simp add: AdmitNewMember_def)
    with bal.select_loop_ok [OF ok loop [unfolded Inr out]] show ?thesis
      using run pos loop Inr out
      by (auto simp: SelectBalancedTokens_def Let_def bal_ok_def intro: ring_reach.admit)
  qed
qed

lemma SelectTokens_ok:
  assumes ok: "placement_ok tp" and run: "SelectTokens tp identity count' = (r, tp')"
  shows "placement_ok tp'
    \<and> (case r of Inl e \<Rightarrow> e = K_INVALID \<and> exhausted (mi_address identity) (token_indexes count') (pl_occupied tp')
      | Inr (ts, ovs) \<Rightarrow>
          selected (mi_address identity) (token_indexes count') (pl_occupied tp) ts ovs (pl_occupied tp'))"
proof (cases "count' = 0")
  case True
  then show ?thesis using ok run by (auto simp: SelectTokens_def selected_def token_indexes_def overrides_of_def)
next
  case pos: False
  obtain q occ1 where sq: "SelectSequentialTokens identity count' (pl_occupied tp) = (q, occ1)"
    by (metis prod.exhaust)
  note sq_ok = SelectSequentialTokens_ok [OF sq]
  show ?thesis
  proof (cases "pl_ring tp")
    case None
    then have q: "r = q" "tp' = tp\<lparr>pl_occupied := occ1\<rparr>"
      using pos run sq by (simp_all add: SelectTokens_def)
    show ?thesis unfolding q using None sq_ok by (cases q) (auto simp: placement_ok_def)
  next
    case (Some ring)
    then have reach: "ring_reach ring" "fst ` set (br_ring ring) \<subseteq> pl_occupied tp"
      using ok by (simp_all add: placement_ok_def)
    show ?thesis
    proof (cases "Ring_Empty ring")
      case False
      obtain q2 occ2 ring2 where b: "SelectBalancedTokens identity count' (pl_occupied tp, ring) = (q2, (occ2, ring2))"
        by (metis prod.exhaust)
      have "r = q2" "tp' = \<lparr>pl_occupied = occ2, pl_ring = Some ring2\<rparr>"
        using False Some pos run b by (simp_all add: SelectTokens_def)
      then show ?thesis
        using SelectBalancedTokens_ok [OF b reach pos] by (cases q2) (auto simp: placement_ok_def)
    next
      case True
      then have e: "br_ring ring = []" by (simp add: Ring_Empty_def)
      show ?thesis
      proof (cases q)
        case (Inl err)
        then have q: "r = Inl err" "tp' = tp\<lparr>pl_occupied := occ1\<rparr>"
          using True Some pos run sq by (simp_all add: SelectTokens_def)
        show ?thesis unfolding q using Inl e Some sq_ok reach(1) by (simp add: placement_ok_def)
      next
        case (Inr out)
        obtain ts ovs where out: "out = (ts, ovs)" by (cases out)
        have sel: "selected (mi_address identity) (token_indexes count') (pl_occupied tp) ts ovs occ1"
          using sq_ok Inr out by simp
        let ?b = "foldl (\<lambda>b t. Ring_Insert b t 0) ring ts"
        have b: "ring_reach ?b" "fst ` set (br_ring ?b) \<subseteq> set ts"
          using insert_all_reach [OF reach(1), of 0 ts] sel e by (simp_all add: TotalMembers_def selected_def)
        have "br_ring (AdmitNewMember ?b) = br_ring ?b" by (simp add: AdmitNewMember_def)
        moreover have "set ts \<subseteq> occ1" using sel by (simp add: selected_def)
        ultimately have "ring_reach (AdmitNewMember ?b)" "fst ` set (br_ring (AdmitNewMember ?b)) \<subseteq> occ1"
          using ring_reach.admit [OF b(1)] b(2) by simp_all
        moreover have "r = Inr (ts, ovs)" "tp' = \<lparr>pl_occupied = occ1, pl_ring = Some (AdmitNewMember ?b)\<rparr>"
          using True Some pos run sq Inr out by (simp_all add: SelectTokens_def)
        ultimately show ?thesis using sel by (simp add: placement_ok_def)
      qed
    qed
  qed
qed

lemma override_indexes:
  assumes "length seeds \<le> 2 ^ 32"
  shows "sorted_wrt (<) (map so_tokenIndex (overrides_of (map of_nat [0..<length seeds]) seeds))
    \<and> (\<forall>o' \<in> set (overrides_of (map of_nat [0..<length seeds]) seeds).
         unat (so_tokenIndex o') < length seeds \<and> so_tokenSeed o' > 0 \<and> so_tokenSeed o' \<in> set seeds)"
  using assms
proof (induction seeds rule: rev_induct)
  case (snoc x seeds)
  have idx: "unat (of_nat (length seeds) :: u32) = length seeds" using snoc.prems by (simp add: unat_of_nat)
  have "overrides_of (map of_nat [0..<length (seeds @ [x])]) (seeds @ [x])
      = overrides_of (map of_nat [0..<length seeds]) seeds @ override_for (of_nat (length seeds)) x"
    by (simp add: overrides_of_def)
  then show ?case
    using snoc idx by (auto simp: override_for_def sorted_wrt_append word_less_nat_alt intro: less_SucI)
qed (simp add: overrides_of_def)

lemma selected_rebuild:
  assumes sel: "selected address (token_indexes count') occ tokens overrides occ'"
  shows "length tokens = unat count'
    \<and> MakeHashRingTokens address (apply_overrides (unat count') overrides) = tokens
    \<and> sorted_wrt (<) (map so_tokenIndex overrides)
    \<and> (\<forall>o' \<in> set overrides. so_tokenIndex o' < count' \<and> 0 < so_tokenSeed o'
         \<and> so_tokenSeed o' < MAX_HASH_RING_TOKEN_SEEDS)"
proof -
  obtain seeds where s: "length seeds = unat count'" "\<forall>seed \<in> set seeds. seed < MAX_HASH_RING_TOKEN_SEEDS"
    "tokens = map2 (token_of address) (token_indexes count') seeds" "overrides = overrides_of (token_indexes count') seeds"
    using sel by (auto simp: selected_def token_indexes_def)
  have "unat count' < 2 ^ 32" using unsigned_less [of count', where ?'a = nat] by simp
  then have le: "length seeds \<le> 2 ^ 32" using s(1) by simp
  have o: "overrides = overrides_of (map of_nat [0..<length seeds]) seeds" using s by (simp add: token_indexes_def)
  have "apply_overrides (unat count') overrides = seeds" using seeds_round_trip [OF le] o s(1) by simp
  moreover have "MakeHashRingTokens address seeds = tokens"
    using s(1,3) by (auto simp: MakeHashRingTokens_eq token_indexes_def intro!: nth_equalityI)
  ultimately show ?thesis
    using override_indexes [OF le] s(1,2,3) o by (auto simp: token_indexes_def word_less_nat_alt)
qed

inductive placement_reach :: "TokenPlacement \<Rightarrow> bool" where
  start: "placement_reach (new_TokenPlacement owners occ balanced)"
| select: "placement_reach tp \<Longrightarrow> placement_reach (snd (SelectTokens tp identity count'))"

lemma placement_reach_ok: "placement_reach tp \<Longrightarrow> placement_ok tp"
proof (induction rule: placement_reach.induct)
  case (select tp identity count')
  obtain r tp' where "SelectTokens tp identity count' = (r, tp')" by (cases "SelectTokens tp identity count'")
  then show ?case using SelectTokens_ok [OF select.IH] by simp
qed (rule new_placement_ok)

lemma SelectTokens_contract:
  assumes "placement_ok tp" and run: "SelectTokens tp identity count' = (Inr (tokens, overrides), tp')"
  shows "length tokens = unat count' \<and> distinct tokens \<and> set tokens \<inter> pl_occupied tp = {}
    \<and> pl_occupied tp' = pl_occupied tp \<union> set tokens
    \<and> MakeHashRingTokens (mi_address identity) (apply_overrides (unat count') overrides) = tokens
    \<and> sorted_wrt (<) (map so_tokenIndex overrides)
    \<and> (\<forall>o' \<in> set overrides. so_tokenIndex o' < count' \<and> 0 < so_tokenSeed o'
         \<and> so_tokenSeed o' < MAX_HASH_RING_TOKEN_SEEDS)"
proof -
  have sel: "selected (mi_address identity) (token_indexes count') (pl_occupied tp) tokens overrides (pl_occupied tp')"
    using SelectTokens_ok [OF assms] by simp
  from selected_rebuild [OF sel] sel show ?thesis by (simp add: selected_def)
qed

text \<open>
  C24. On every placement that a plan can reach, SelectTokens gives a new member the requested
  number of different tokens, none of which was occupied, and marks exactly these as occupied.
  The overrides it returns are what the token derivation needs to rebuild the tokens: they are in
  increasing index order with seeds inside the probe budget, and MakeHashRingTokens on the seed
  vector they describe yields the selected tokens. The only failure is K_INVALID, and then some
  token index has all its seeds occupied. The ring's bookkeeping stays exact throughout.
\<close>

theorem selected_tokens_are_fresh_and_rebuildable:
  assumes reach: "placement_reach tp" and run: "SelectTokens tp identity count' = (r, tp')"
  shows "delete_TokenPlacement tp' \<and>
    (case r of
       Inl e \<Rightarrow> e = K_INVALID \<and> (\<exists>i < unat count'. \<forall>seed < MAX_HASH_RING_TOKEN_SEEDS.
         MakeHashRingToken (mi_address identity) (of_nat i) seed \<in> pl_occupied tp')
     | Inr (tokens, overrides) \<Rightarrow>
         length tokens = unat count' \<and> distinct tokens \<and> set tokens \<inter> pl_occupied tp = {}
         \<and> pl_occupied tp' = pl_occupied tp \<union> set tokens
         \<and> MakeHashRingTokens (mi_address identity) (apply_overrides (unat count') overrides) = tokens
         \<and> sorted_wrt (<) (map so_tokenIndex overrides)
         \<and> (\<forall>o' \<in> set overrides. so_tokenIndex o' < count' \<and> 0 < so_tokenSeed o'
              \<and> so_tokenSeed o' < MAX_HASH_RING_TOKEN_SEEDS))"
proof -
  note ok = placement_reach_ok [OF reach]
  have "delete_TokenPlacement tp'"
    using SelectTokens_ok [OF ok run]
    by (auto simp: delete_TokenPlacement_def placement_ok_def ring_ok_verify ring_reach_ok split: option.splits)
  moreover have "e = K_INVALID \<and> (\<exists>i < unat count'. \<forall>seed < MAX_HASH_RING_TOKEN_SEEDS.
      MakeHashRingToken (mi_address identity) (of_nat i) seed \<in> pl_occupied tp')" if "r = Inl e" for e
    using SelectTokens_ok [OF ok run] that
    by (auto simp: exhausted_def token_indexes_def MakeHashRingToken_eq)
  ultimately show ?thesis
  proof (cases r)
    case (Inr out)
    obtain tokens overrides where out: "out = (tokens, overrides)" by (cases out)
    show ?thesis
      unfolding Inr out sum.case prod.case
      by (rule conjI [OF \<open>delete_TokenPlacement tp'\<close> SelectTokens_contract [OF ok run [unfolded Inr out]]])
  qed simp
qed

theorem selected_tokens_are_fresh_and_rebuildable_witness:
  "case SelectTokens (new_TokenPlacement [] {} True) \<lparr>mi_id = ''m'', mi_address = ''a:1''\<rparr> 1 of
     (Inl e, tp) \<Rightarrow> False
   | (Inr (tokens, overrides), tp) \<Rightarrow> length tokens = 1 \<and> delete_TokenPlacement tp
       \<and> MakeHashRingTokens ''a:1'' (apply_overrides 1 overrides) = tokens"
proof -
  let ?tp = "new_TokenPlacement [] {} True"
  let ?id = "\<lparr>mi_id = ''m'', mi_address = ''a:1''\<rparr>"
  have "0 < unat MAX_HASH_RING_TOKEN_SEEDS" by (simp add: MAX_HASH_RING_TOKEN_SEEDS_def)
  from upt_conv_Cons [OF this] have "seeds_from 0 = 0 # map of_nat [Suc 0..<unat MAX_HASH_RING_TOKEN_SEEDS]"
    by (simp only: seeds_from_def unsigned_0 list.map semiring_1_class.of_nat_0)
  then have isr: "isl (fst (SelectTokens ?tp ?id 1)) = False"
    by (simp add: SelectTokens_def new_TokenPlacement_def new_BalancedRing_def BuildArcs_def Ring_Empty_def
        SelectSequentialTokens_def token_indexes_def ProbeUniqueToken_def Let_def)
  obtain r tp where run: "SelectTokens ?tp ?id 1 = (r, tp)" by (cases "SelectTokens ?tp ?id 1")
  then obtain tokens overrides where r: "r = Inr (tokens, overrides)" using isr by (cases r) auto
  show ?thesis
    using selected_tokens_are_fresh_and_rebuildable [OF placement_reach.start run] unfolding run r by simp
qed

end
