(* ===== verification/OwnerDiff.thy ===== *)
theory OwnerDiff
  imports TokenPlacement
begin

section \<open>Token owners and their difference\<close>

text \<open>
  Models the owner part of src/datasystem/cluster/algorithm/hash_algorithm.cpp: the sorted vector of
  token owners, the lookup on it, and DiffOwners, which turns two such vectors into the ranges of
  tokens that change their owner, grouped by source and target. A TokenOwner is a pair of a token
  and the identity of its member. std::sort is not stable; owners of a validated topology have
  different tokens, for which every sort gives the same vector.
\<close>

subsection \<open>Lookup\<close>

type_synonym TokenOwner = "u32 \<times> MemberIdentity"

definition FindOwner :: "TokenOwner list \<Rightarrow> u32 \<Rightarrow> TokenOwner" where
  "FindOwner owners token =
     (case dropWhile (\<lambda>owner. fst owner < token) owners of [] \<Rightarrow> hd owners | owner # _ \<Rightarrow> owner)"

subsection \<open>The difference of two owner vectors\<close>

definition AppendRange :: "TokenRange list \<Rightarrow> u32 \<Rightarrow> u32 \<Rightarrow> TokenRange list" where
  "AppendRange ranges from' end' =
     (if ranges \<noteq> [] \<and> rng_end (last ranges) \<noteq> - 1 \<and> rng_end (last ranges) + 1 = from'
      then butlast ranges @ [(last ranges)\<lparr>rng_end := end'\<rparr>]
      else ranges @ [\<lparr>rng_from = from', rng_end = end'\<rparr>])"

text \<open>The start of the token space and the successor of every token: where the owner can change.\<close>

definition boundaries :: "TokenOwner list \<Rightarrow> TokenOwner list \<Rightarrow> u32 list" where
  "boundaries fromOwners toOwners =
     remdups_adj (sort (0 # [fst owner + 1. owner \<leftarrow> fromOwners, fst owner \<noteq> - 1]
                          @ [fst owner + 1. owner \<leftarrow> toOwners, fst owner \<noteq> - 1]))"

text \<open>Each boundary with the last token before the next one.\<close>

fun segments :: "u32 list \<Rightarrow> (u32 \<times> u32) list" where
  "segments [] = []"
| "segments [from'] = [(from', - 1)]"
| "segments (from' # b # bs) = (from', b - 1) # segments (b # bs)"

type_synonym grouped_changes = "(string \<times> string, TopologyOwnerChange) omap"

definition empty_change :: TopologyOwnerChange where
  "empty_change = \<lparr>oc_source = None, oc_target = \<lparr>mi_id = [], mi_address = []\<rparr>, oc_ranges = []\<rparr>"

definition diff_segment :: "TokenOwner list \<Rightarrow> TokenOwner list \<Rightarrow> grouped_changes \<Rightarrow> u32 \<times> u32
    \<Rightarrow> grouped_changes" where
  "diff_segment fromOwners toOwners grouped seg =
     (case seg of (from', end') \<Rightarrow>
        let source = snd (FindOwner fromOwners from'); target = snd (FindOwner toOwners from')
        in if source = target then grouped
           else
             let key = (mi_address source, mi_address target);
                 change = (case map_of grouped key of None \<Rightarrow> empty_change | Some c \<Rightarrow> c)
             in omap_set key (change\<lparr>oc_source := Some source, oc_target := target,
                                     oc_ranges := AppendRange (oc_ranges change) from' end'\<rparr>) grouped)"

definition DiffOwners :: "TokenOwner list \<Rightarrow> TokenOwner list \<Rightarrow> TopologyOwnerChange list" where
  "DiffOwners fromOwners toOwners =
     map snd (foldl (diff_segment fromOwners toOwners) [] (segments (boundaries fromOwners toOwners)))"

subsection \<open>Lookup is constant between boundaries\<close>

lemma FindOwner_cong:
  assumes "\<forall>owner \<in> set owners. fst owner < f \<longleftrightarrow> fst owner < t"
  shows "FindOwner owners f = FindOwner owners t"
proof -
  have "dropWhile (\<lambda>owner. fst owner < f) owners = dropWhile (\<lambda>owner. fst owner < t) owners"
    using assms by (intro dropWhile_cong) auto
  then show ?thesis by (simp only: FindOwner_def)
qed

lemma succ_le: "x < t \<Longrightarrow> x + 1 \<le> t \<and> x < x + 1" for x t :: u32
proof -
  assume lt: "x < t"
  then have "unat x + 1 < 2 ^ 32"
    using unsigned_less [of t, where ?'a = nat] by (simp add: word_less_nat_alt)
  then have "unat (x + 1) = unat x + 1" by (simp add: unat_word_ariths(1))
  then show ?thesis using lt by (simp add: word_less_nat_alt word_le_nat_alt)
qed

lemma set_boundaries:
  "set (boundaries fromOwners toOwners)
     = insert 0 ((\<lambda>owner. fst owner + 1) ` {owner \<in> set fromOwners \<union> set toOwners. fst owner \<noteq> - 1})"
  unfolding boundaries_def remdups_adj_set set_sort by auto

lemma strict_remdups_adj: "sorted xs \<Longrightarrow> sorted_wrt (<) (remdups_adj xs)"
proof (induction xs rule: remdups_adj.induct)
  case (3 x y xs)
  show ?case
  proof (cases "x = y")
    case False
    then have "x < y" using 3(3) by (simp add: order_less_le)
    moreover have "\<forall>z \<in> set (y # xs). y \<le> z" using 3(3) by auto
    ultimately have "\<forall>z \<in> set (remdups_adj (y # xs)). x < z" by (metis remdups_adj_set less_le_trans)
    then show ?thesis using False 3 by simp
  qed (use 3 in simp)
qed simp_all

lemma boundaries_sorted: "sorted_wrt (<) (boundaries fromOwners toOwners)"
  unfolding boundaries_def by (rule strict_remdups_adj [OF sorted_sort])

lemma boundary_of_owner:
  assumes "owner \<in> set fromOwners \<union> set toOwners" "fst owner < t"
  shows "fst owner + 1 \<in> set (boundaries fromOwners toOwners)"
proof -
  have "fst owner \<noteq> - 1" using assms(2) by (metis not_less word_order.extremum)
  then show ?thesis using assms(1) unfolding set_boundaries by blast
qed

lemma segment_no_boundary:
  assumes "sorted_wrt (<) bs" "(f, e) \<in> set (segments bs)"
  shows "f \<in> set bs \<and> f \<le> e \<and> (\<forall>b \<in> set bs. b \<le> f \<or> e < b)"
  using assms
proof (induction bs rule: segments.induct)
  case (3 f' b bs)
  have b: "f' < b" "\<forall>x \<in> set bs. b < x" "f' < x" if "x \<in> set bs" for x
    using 3(2) that by auto
  have pred: "f' \<le> b - 1 \<and> b - 1 < b" if "f' < b"
  proof -
    have "b \<noteq> 0" using that by auto
    then have "unat (b - 1) = unat b - 1" "0 < unat b" by (simp_all add: unat_minus_one unat_gt_0)
    then show ?thesis using that by (simp add: word_less_nat_alt word_le_nat_alt)
  qed
  have f'b: "f' < b" using 3(2) by simp
  show ?case
  proof (cases "(f, e) = (f', b - 1)")
    case True
    have "b - 1 < x" if "x \<in> set (b # bs)" for x
      using that pred [OF f'b] 3(2) by (auto intro: less_trans)
    then show ?thesis using True pred [OF f'b] by auto
  next
    case False
    then have "(f, e) \<in> set (segments (b # bs))" using 3(3) by auto
    from 3(1) [OF _ this] 3(2) have "f \<in> set (b # bs) \<and> f \<le> e \<and> (\<forall>x \<in> set (b # bs). x \<le> f \<or> e < x)" by simp
    moreover from this have "f' \<le> f" using 3(2) by (auto intro: less_imp_le)
    ultimately show ?thesis by auto
  qed
qed auto

lemma lookup_in_segment:
  assumes seg: "(f, e) \<in> set (segments (boundaries fromOwners toOwners))" and t: "f \<le> t" "t \<le> e"
  shows "FindOwner fromOwners f = FindOwner fromOwners t \<and> FindOwner toOwners f = FindOwner toOwners t"
proof -
  note gap = segment_no_boundary [OF boundaries_sorted seg]
  have "fst owner < f \<longleftrightarrow> fst owner < t" if o: "owner \<in> set fromOwners \<union> set toOwners" for owner
  proof
    show "fst owner < t" if "fst owner < f" using that t(1) by (rule less_le_trans)
  next
    assume lt: "fst owner < t"
    from gap boundary_of_owner [OF o lt] have "fst owner + 1 \<le> f \<or> e < fst owner + 1" by blast
    moreover have "\<not> e < fst owner + 1" using succ_le [OF lt] t(2) by (meson not_less order_trans)
    ultimately show "fst owner < f" using succ_le [OF lt] by (meson less_le_trans)
  qed
  then show ?thesis by (intro conjI FindOwner_cong) blast+
qed

text \<open>The segments cover the token space.\<close>

lemma segments_cover:
  assumes "bs \<noteq> []" "hd bs \<le> t"
  shows "\<exists>(f, e) \<in> set (segments bs). f \<le> t \<and> t \<le> e"
  using assms
proof (induction bs rule: segments.induct)
  case (3 f b bs)
  show ?case
  proof (cases "t < b")
    case True
    then have "b \<noteq> 0" by auto
    then have "unat (b - 1) = unat b - 1" by (rule unat_minus_one)
    then have "t \<le> b - 1" using True by (simp add: word_less_nat_alt word_le_nat_alt)
    then show ?thesis using 3 by auto
  qed (use 3 in auto)
qed auto

lemma boundaries_cover: "\<exists>(f, e) \<in> set (segments (boundaries fromOwners toOwners)). f \<le> t \<and> t \<le> e"
proof (rule segments_cover)
  have z: "0 \<in> set (boundaries fromOwners toOwners)" by (simp add: set_boundaries)
  then show "boundaries fromOwners toOwners \<noteq> []" by auto
  with z boundaries_sorted [of fromOwners toOwners] have "hd (boundaries fromOwners toOwners) = 0"
    by (cases "boundaries fromOwners toOwners") auto
  then show "hd (boundaries fromOwners toOwners) \<le> t" by simp
qed

lemma segments_ordered: "sorted_wrt (<) bs \<Longrightarrow> sorted_wrt (\<lambda>a b. snd a < fst b) (segments bs)"
proof (induction bs rule: segments.induct)
  case (3 f b bs)
  have "b \<noteq> 0" using 3(2) by auto
  then have "unat (b - 1) = unat b - 1" "0 < unat b" by (simp_all add: unat_minus_one unat_gt_0)
  then have "b - 1 < b" by (simp add: word_less_nat_alt)
  moreover have "b \<le> fst s" if "s \<in> set (segments (b # bs))" for s
  proof -
    have "fst s \<in> set (b # bs)" using segment_no_boundary [of "b # bs" "fst s" "snd s"] 3(2) that by simp
    then show ?thesis using 3(2) by auto
  qed
  ultimately show ?case using 3 by (auto intro: less_le_trans)
qed simp_all

subsection \<open>Ranges\<close>

text \<open>Ranges in increasing order with a gap between neighbours.\<close>

definition ranges_ok :: "TokenRange list \<Rightarrow> bool" where
  "ranges_ok rs \<longleftrightarrow> (\<forall>r \<in> set rs. rng_from r \<le> rng_end r)
     \<and> sorted_wrt (\<lambda>a b. unat (rng_end a) + 1 < unat (rng_from b)) rs"

lemma AppendRange_ok:
  assumes ok: "ranges_ok rs" and fe: "f \<le> e" and below: "\<forall>r \<in> set rs. rng_end r < f"
  shows "ranges_ok (AppendRange rs f e) \<and> ranges_set (AppendRange rs f e) = ranges_set rs \<union> {f..e}
    \<and> (\<forall>r \<in> set (AppendRange rs f e). rng_end r \<le> e) \<and> AppendRange rs f e \<noteq> []"
proof (cases "rs = []")
  case True
  then show ?thesis using fe by (simp add: AppendRange_def ranges_ok_def ranges_set_def range_set_def)
next
  case ne: False
  define rs0 where "rs0 = butlast rs"
  define l where "l = last rs"
  have rs: "rs = rs0 @ [l]" using ne by (simp add: rs0_def l_def)
  have ok': "ranges_ok rs0" "rng_from l \<le> rng_end l" "\<forall>r \<in> set rs0. unat (rng_end r) + 1 < unat (rng_from l)"
    using ok by (auto simp: rs ranges_ok_def sorted_wrt_append)
  have lf: "rng_end l < f" "\<forall>r \<in> set rs0. rng_end r < f" using below by (auto simp: rs)
  have ends: "rng_end r \<le> e" if "rng_end r < f" for r :: TokenRange using that fe by (meson less_le_trans less_imp_le)
  show ?thesis
  proof (cases "rng_end l \<noteq> - 1 \<and> rng_end l + 1 = f")
    case True
    then have a: "AppendRange rs f e = rs0 @ [l\<lparr>rng_end := e\<rparr>]" by (simp add: AppendRange_def rs)
    have lf': "rng_from l \<le> e" using ok'(2) lf(1) fe by (meson less_le_trans less_imp_le order_trans)
    have split: "x \<le> rng_end l \<or> f \<le> x" for x
      using True succ_le [of "rng_end l" x] by (metis not_less)
    have "rng_from l \<le> f" using ok'(2) lf(1) by (meson le_less_trans less_imp_le)
    then have "x \<in> {rng_from l..e} \<longleftrightarrow> x \<in> {rng_from l..rng_end l} \<union> {f..e}" for x
      using split [of x] ends [OF lf(1)] by (auto intro: order_trans)
    then have "{rng_from l..e} = {rng_from l..rng_end l} \<union> {f..e}" by (rule set_eqI)
    then have "ranges_set (AppendRange rs f e) = ranges_set rs \<union> {f..e}"
      unfolding a by (simp add: rs range_set_def Un_assoc)
    moreover have "ranges_ok (AppendRange rs f e)"
      using ok' lf' by (simp add: a ranges_ok_def sorted_wrt_append ball_Un)
    ultimately show ?thesis using ends lf(2) by (simp add: a ball_Un)
  next
    case False
    then have a: "AppendRange rs f e = rs @ [\<lparr>rng_from = f, rng_end = e\<rparr>]" by (auto simp: AppendRange_def rs)
    have "rng_end l \<noteq> - 1" using lf(1) by (metis not_less word_order.extremum)
    then have "rng_end l + 1 \<noteq> f" using False by simp
    moreover have "rng_end l + 1 \<le> f" using succ_le [OF lf(1)] by simp
    ultimately have "rng_end l + 1 < f" by simp
    moreover have "unat (rng_end l + 1) = unat (rng_end l) + 1"
      using lf(1) unsigned_less [of f, where ?'a = nat] by (simp add: unat_word_ariths(1) word_less_nat_alt)
    ultimately have gap: "unat (rng_end l) + 1 < unat f" by (simp add: word_less_nat_alt)
    moreover have "unat (rng_end r) + 1 < unat f" if "r \<in> set rs0" for r
      using ok'(2,3) that lf(1) by (force simp: word_less_nat_alt word_le_nat_alt)
    ultimately have "ranges_ok (AppendRange rs f e)"
      using ok fe unfolding a by (auto simp: ranges_ok_def sorted_wrt_append rs)
    then show ?thesis using below ends by (auto simp: a range_set_def)
  qed
qed

subsection \<open>The grouped changes\<close>

definition owner_of :: "TokenOwner list \<Rightarrow> u32 \<Rightarrow> MemberIdentity" where
  "owner_of owners t = snd (FindOwner owners t)"

definition moved :: "TokenOwner list \<Rightarrow> TokenOwner list \<Rightarrow> MemberIdentity \<Rightarrow> MemberIdentity
    \<Rightarrow> (u32 \<times> u32) list \<Rightarrow> u32 set" where
  "moved from' to' source target segs =
     {t. \<exists>(f, e) \<in> set segs. f \<le> t \<and> t \<le> e \<and> owner_of from' f = source \<and> owner_of to' f = target}"

lemma moved_snoc:
  "moved from' to' s d (segs @ [(f, e)]) =
     moved from' to' s d segs \<union> (if owner_of from' f = s \<and> owner_of to' f = d then {f..e} else {})"
  by (auto simp: moved_def)

lemma FindOwner_mem: "owners \<noteq> [] \<Longrightarrow> FindOwner owners t \<in> set owners"
  by (auto simp: FindOwner_def split: list.splits) (metis list.set_intros(1) set_dropWhileD)

definition change_ok :: "TokenOwner list \<Rightarrow> TokenOwner list \<Rightarrow> (u32 \<times> u32) list \<Rightarrow> string \<times> string
    \<Rightarrow> TopologyOwnerChange \<Rightarrow> bool" where
  "change_ok from' to' segs key c \<longleftrightarrow>
     (\<exists>s \<in> snd ` set from'. oc_source c = Some s \<and> oc_target c \<in> snd ` set to' \<and> s \<noteq> oc_target c
        \<and> key = (mi_address s, mi_address (oc_target c))
        \<and> ranges_set (oc_ranges c) = moved from' to' s (oc_target c) segs)
     \<and> ranges_ok (oc_ranges c) \<and> oc_ranges c \<noteq> []
     \<and> (\<forall>r \<in> set (oc_ranges c). \<exists>seg \<in> set segs. rng_end r \<le> snd seg)"

definition diff_inv :: "TokenOwner list \<Rightarrow> TokenOwner list \<Rightarrow> (u32 \<times> u32) list \<Rightarrow> grouped_changes \<Rightarrow> bool" where
  "diff_inv from' to' segs g \<longleftrightarrow> omap_ok g
     \<and> (\<forall>k c. map_of g k = Some c \<longrightarrow> change_ok from' to' segs k c)
     \<and> (\<forall>(f, e) \<in> set segs. owner_of from' f \<noteq> owner_of to' f
          \<longrightarrow> map_of g (mi_address (owner_of from' f), mi_address (owner_of to' f)) \<noteq> None)"

lemma change_ok_mono:
  assumes ok: "change_ok from' to' segs k c"
    and other: "k \<noteq> (mi_address (owner_of from' f), mi_address (owner_of to' f)) \<or> owner_of from' f = owner_of to' f"
  shows "change_ok from' to' (segs @ [(f, e)]) k c"
proof -
  obtain s where s: "s \<in> snd ` set from'" "oc_source c = Some s" "oc_target c \<in> snd ` set to'" "s \<noteq> oc_target c"
    "k = (mi_address s, mi_address (oc_target c))" "ranges_set (oc_ranges c) = moved from' to' s (oc_target c) segs"
    using ok unfolding change_ok_def by blast
  have "\<not> (owner_of from' f = s \<and> owner_of to' f = oc_target c)" using other s(4,5) by auto
  then have "moved from' to' s (oc_target c) (segs @ [(f, e)]) = moved from' to' s (oc_target c) segs"
    unfolding moved_snoc by (simp only: if_False Un_empty_right)
  then show ?thesis using ok s unfolding change_ok_def by auto
qed

lemma moved_empty:
  assumes "\<forall>(f, e) \<in> set segs. owner_of from' f \<noteq> owner_of to' f \<longrightarrow>
      map_of g (mi_address (owner_of from' f), mi_address (owner_of to' f)) \<noteq> None"
    and "s \<noteq> d" "map_of g (mi_address s, mi_address d) = None"
  shows "moved from' to' s d segs = {}"
  using assms by (force simp: moved_def)

lemma diff_inv_step:
  assumes inv: "diff_inv from' to' segs g" and ne: "from' \<noteq> []" "to' \<noteq> []"
    and inj: "inj_on mi_address (snd ` set from' \<union> snd ` set to')"
    and fe: "f \<le> e" and above: "\<forall>seg \<in> set segs. snd seg < f"
  shows "diff_inv from' to' (segs @ [(f, e)]) (diff_segment from' to' g (f, e))"
proof (cases "owner_of from' f = owner_of to' f")
  case True
  then have "diff_segment from' to' g (f, e) = g" by (simp add: diff_segment_def owner_of_def Let_def)
  then show ?thesis using inv True change_ok_mono by (auto simp: diff_inv_def)
next
  case False
  define s d where "s = owner_of from' f" and "d = owner_of to' f"
  define k where "k = (mi_address s, mi_address d)"
  define c0 where "c0 = (case map_of g k of None \<Rightarrow> empty_change | Some c \<Rightarrow> c)"
  define c where "c = c0\<lparr>oc_source := Some s, oc_target := d, oc_ranges := AppendRange (oc_ranges c0) f e\<rparr>"
  have g: "diff_segment from' to' g (f, e) = omap_set k c g"
    using False by (simp add: diff_segment_def Let_def owner_of_def s_def d_def k_def c_def c0_def)
  have mem: "s \<in> snd ` set from'" "d \<in> snd ` set to'"
    using FindOwner_mem [OF ne(1)] FindOwner_mem [OF ne(2)] by (simp_all add: s_def d_def owner_of_def)
  have old: "ranges_ok (oc_ranges c0) \<and> ranges_set (oc_ranges c0) = moved from' to' s d segs
      \<and> (\<forall>r \<in> set (oc_ranges c0). rng_end r < f)"
  proof (cases "map_of g k")
    case None
    then have "moved from' to' s d segs = {}"
      using inv False moved_empty [of segs from' to' g s d] by (simp add: diff_inv_def k_def s_def d_def)
    then show ?thesis using None by (simp add: c0_def empty_change_def ranges_ok_def)
  next
    case (Some c1)
    then have ok: "change_ok from' to' segs k c1" using inv unfolding diff_inv_def by blast
    then obtain s1 where s1: "s1 \<in> snd ` set from'" "oc_target c1 \<in> snd ` set to'" "k = (mi_address s1, mi_address (oc_target c1))"
      "ranges_set (oc_ranges c1) = moved from' to' s1 (oc_target c1) segs"
      unfolding change_ok_def by blast
    have "s1 = s" "oc_target c1 = d"
      using s1(1-3) mem inj by (auto simp: k_def intro: inj_onD)
    moreover have "rng_end r < f" if "r \<in> set (oc_ranges c1)" for r
      using ok that above unfolding change_ok_def by (meson le_less_trans)
    ultimately show ?thesis using ok s1(4) Some by (simp add: c0_def change_ok_def)
  qed
  note new = AppendRange_ok [OF conjunct1 [OF old] fe]
  have "moved from' to' s d (segs @ [(f, e)]) = moved from' to' s d segs \<union> {f..e}"
    by (simp add: moved_snoc s_def d_def)
  then have "change_ok from' to' (segs @ [(f, e)]) k c"
    using new old mem False unfolding change_ok_def
    by (auto simp: c_def k_def s_def [symmetric] d_def [symmetric])
  moreover have "change_ok from' to' (segs @ [(f, e)]) k' c'" if kc: "map_of g k' = Some c'" "k' \<noteq> k" for k' c'
  proof (rule change_ok_mono)
    show "change_ok from' to' segs k' c'" using inv kc(1) unfolding diff_inv_def by blast
    show "k' \<noteq> (mi_address (owner_of from' f), mi_address (owner_of to' f)) \<or> owner_of from' f = owner_of to' f"
      using kc(2) unfolding k_def s_def d_def by blast
  qed
  moreover have ok: "omap_ok g" using inv by (simp add: diff_inv_def)
  moreover have "\<forall>(f', e') \<in> set (segs @ [(f, e)]). owner_of from' f' \<noteq> owner_of to' f' \<longrightarrow>
      map_of (omap_set k c g) (mi_address (owner_of from' f'), mi_address (owner_of to' f')) \<noteq> None"
    using inv unfolding map_of_omap_set [OF ok] diff_inv_def by (auto simp: k_def s_def d_def)
  ultimately show ?thesis
    unfolding g diff_inv_def map_of_omap_set [OF ok] by (auto split: if_splits)
qed

lemma diff_inv_all:
  assumes "from' \<noteq> []" "to' \<noteq> []" "inj_on mi_address (snd ` set from' \<union> snd ` set to')"
    and "\<forall>seg \<in> set segs. fst seg \<le> snd seg" "sorted_wrt (\<lambda>a b. snd a < fst b) segs"
  shows "diff_inv from' to' segs (foldl (diff_segment from' to') [] segs)"
  using assms(4,5)
proof (induction segs rule: rev_induct)
  case Nil
  then show ?case by (simp add: diff_inv_def)
next
  case (snoc seg segs)
  then have "diff_inv from' to' (segs @ [(fst seg, snd seg)])
      (diff_segment from' to' (foldl (diff_segment from' to') [] segs) (fst seg, snd seg))"
    by (intro diff_inv_step assms(1-3)) (simp_all add: sorted_wrt_append)
  then show ?case by simp
qed

lemma moved_exact:
  "moved from' to' s d (segments (boundaries from' to')) = {t. owner_of from' t = s \<and> owner_of to' t = d}"
proof -
  have same: "owner_of from' f = owner_of from' t \<and> owner_of to' f = owner_of to' t"
    if "(f, e) \<in> set (segments (boundaries from' to'))" "f \<le> t" "t \<le> e" for f e t
    using lookup_in_segment [OF that] by (simp add: owner_of_def)
  have "t \<in> moved from' to' s d (segments (boundaries from' to')) \<longleftrightarrow> owner_of from' t = s \<and> owner_of to' t = d" for t
  proof
    assume "t \<in> moved from' to' s d (segments (boundaries from' to'))"
    then obtain f e where "(f, e) \<in> set (segments (boundaries from' to'))" "f \<le> t" "t \<le> e"
      "owner_of from' f = s" "owner_of to' f = d" unfolding moved_def by blast
    then show "owner_of from' t = s \<and> owner_of to' t = d" using same by metis
  next
    assume t: "owner_of from' t = s \<and> owner_of to' t = d"
    obtain f e where fe: "(f, e) \<in> set (segments (boundaries from' to'))" "f \<le> t" "t \<le> e"
      using boundaries_cover [of from' to' t] by blast
    then have "owner_of from' f = s" "owner_of to' f = d" using same [OF fe] t by simp_all
    then show "t \<in> moved from' to' s d (segments (boundaries from' to'))" using fe unfolding moved_def by blast
  qed
  then show ?thesis by blast
qed

text \<open>A change that holds exactly the tokens that go from its source to its target.\<close>

definition exact_change :: "TokenOwner list \<Rightarrow> TokenOwner list \<Rightarrow> TopologyOwnerChange \<Rightarrow> bool" where
  "exact_change from' to' c \<longleftrightarrow>
     (\<exists>s \<in> snd ` set from'. oc_source c = Some s \<and> oc_target c \<in> snd ` set to' \<and> s \<noteq> oc_target c
        \<and> ranges_set (oc_ranges c) = {t. owner_of from' t = s \<and> owner_of to' t = oc_target c})
     \<and> ranges_ok (oc_ranges c) \<and> oc_ranges c \<noteq> []"

definition change_key :: "TopologyOwnerChange \<Rightarrow> string \<times> string" where
  "change_key c = (mi_address (the (oc_source c)), mi_address (oc_target c))"

lemma DiffOwners_spec:
  assumes "from' \<noteq> []" "to' \<noteq> []" "inj_on mi_address (snd ` set from' \<union> snd ` set to')"
  shows "(\<forall>c \<in> set (DiffOwners from' to'). exact_change from' to' c)
    \<and> (\<forall>t. owner_of from' t \<noteq> owner_of to' t \<longrightarrow> (\<exists>c \<in> set (DiffOwners from' to').
         oc_source c = Some (owner_of from' t) \<and> oc_target c = owner_of to' t \<and> t \<in> ranges_set (oc_ranges c)))
    \<and> sorted_wrt (<) (map change_key (DiffOwners from' to'))"
proof -
  let ?segs = "segments (boundaries from' to')"
  define g where "g = foldl (diff_segment from' to') [] ?segs"
  have segs: "\<forall>seg \<in> set ?segs. fst seg \<le> snd seg"
    using segment_no_boundary [OF boundaries_sorted] by (metis prod.collapse)
  have inv: "diff_inv from' to' ?segs g"
    unfolding g_def by (rule diff_inv_all [OF assms segs segments_ordered [OF boundaries_sorted]])
  then have ok: "omap_ok g" by (simp add: diff_inv_def)
  have D: "DiffOwners from' to' = map snd g" by (simp add: DiffOwners_def g_def)
  have ch: "change_ok from' to' ?segs k c" if "(k, c) \<in> set g" for k c
    using inv that map_of_eq_Some_iff_omap [OF ok] unfolding diff_inv_def by blast
  have exact: "exact_change from' to' c \<and> k = change_key c" if "(k, c) \<in> set g" for k c
    using ch [OF that] unfolding change_ok_def exact_change_def moved_exact change_key_def by auto
  have keys: "map change_key (map snd g) = map fst g" using exact by (auto intro: map_cong)
  have srt: "sorted_wrt (<) (map change_key (DiffOwners from' to'))"
    using ok unfolding D keys omap_ok_def .
  have all: "\<exists>c \<in> set (DiffOwners from' to'). oc_source c = Some (owner_of from' t) \<and> oc_target c = owner_of to' t
      \<and> t \<in> ranges_set (oc_ranges c)" if t: "owner_of from' t \<noteq> owner_of to' t" for t
  proof -
    obtain f e where fe: "(f, e) \<in> set ?segs" "f \<le> t" "t \<le> e" using boundaries_cover [of from' to' t] by blast
    then have same: "owner_of from' f = owner_of from' t" "owner_of to' f = owner_of to' t"
      using lookup_in_segment [OF fe] by (simp_all add: owner_of_def)
    then obtain c where c: "((mi_address (owner_of from' t), mi_address (owner_of to' t)), c) \<in> set g"
      using inv fe(1) t map_of_eq_Some_iff_omap [OF ok] unfolding diff_inv_def by fastforce
    obtain s where s: "s \<in> snd ` set from'" "oc_source c = Some s" "oc_target c \<in> snd ` set to'"
      "ranges_set (oc_ranges c) = {t. owner_of from' t = s \<and> owner_of to' t = oc_target c}"
      using exact [OF c] unfolding exact_change_def by blast
    have k: "mi_address s = mi_address (owner_of from' t)" "mi_address (oc_target c) = mi_address (owner_of to' t)"
      using exact [OF c] s(2) by (simp_all add: change_key_def)
    have "owner_of from' t \<in> snd ` set from'" "owner_of to' t \<in> snd ` set to'"
      using FindOwner_mem assms(1,2) by (simp_all add: owner_of_def)
    then have "s = owner_of from' t" "oc_target c = owner_of to' t"
      using k s(1,3) inj_onD [OF assms(3)] by blast+
    then show ?thesis using s c unfolding D by force
  qed
  have "\<forall>c \<in> set (DiffOwners from' to'). exact_change from' to' c" unfolding D using exact by auto
  then show ?thesis using all srt by blast
qed

text \<open>
  C25. DiffOwners is exact. For two non-empty owner vectors in which an address has one identity,
  every change it returns holds, for one source and one different target, exactly the tokens that
  the first vector gives to the source and the second to the target; its ranges are in increasing
  order, do not touch, and none is empty. Every token whose owner differs is in the change of its
  old and new owner, and there is one change per pair of addresses, in increasing order.
\<close>

theorem diff_owners_exact:
  assumes "from' \<noteq> []" "to' \<noteq> []" "inj_on mi_address (snd ` set from' \<union> snd ` set to')"
  shows "(\<forall>c \<in> set (DiffOwners from' to'). exact_change from' to' c)
    \<and> (\<forall>t. owner_of from' t \<noteq> owner_of to' t \<longrightarrow> (\<exists>c \<in> set (DiffOwners from' to').
         oc_source c = Some (owner_of from' t) \<and> oc_target c = owner_of to' t \<and> t \<in> ranges_set (oc_ranges c)))
    \<and> sorted_wrt (<) (map change_key (DiffOwners from' to'))"
  using DiffOwners_spec [OF assms] .

theorem diff_owners_exact_witness:
  "DiffOwners [(100, \<lparr>mi_id = ''1'', mi_address = ''a''\<rparr>), (300, \<lparr>mi_id = ''2'', mi_address = ''b''\<rparr>)]
       [(100, \<lparr>mi_id = ''1'', mi_address = ''a''\<rparr>), (200, \<lparr>mi_id = ''3'', mi_address = ''c''\<rparr>), (300, \<lparr>mi_id = ''2'', mi_address = ''b''\<rparr>)]
     = [\<lparr>oc_source = Some \<lparr>mi_id = ''2'', mi_address = ''b''\<rparr>, oc_target = \<lparr>mi_id = ''3'', mi_address = ''c''\<rparr>,
         oc_ranges = [\<lparr>rng_from = 101, rng_end = 200\<rparr>]\<rparr>]
   \<and> exact_change [(100, \<lparr>mi_id = ''1'', mi_address = ''a''\<rparr>), (300, \<lparr>mi_id = ''2'', mi_address = ''b''\<rparr>)]
       [(100, \<lparr>mi_id = ''1'', mi_address = ''a''\<rparr>), (200, \<lparr>mi_id = ''3'', mi_address = ''c''\<rparr>), (300, \<lparr>mi_id = ''2'', mi_address = ''b''\<rparr>)]
       \<lparr>oc_source = Some \<lparr>mi_id = ''2'', mi_address = ''b''\<rparr>, oc_target = \<lparr>mi_id = ''3'', mi_address = ''c''\<rparr>,
         oc_ranges = [\<lparr>rng_from = 101, rng_end = 200\<rparr>]\<rparr>"
  (is "DiffOwners ?from ?to = [?c] \<and> _")
proof -
  have eval: "DiffOwners ?from ?to = [?c]" by code_simp
  have "inj_on mi_address (snd ` set ?from \<union> snd ` set ?to)" by (simp add: inj_on_def)
  from diff_owners_exact [OF _ _ this] have "\<forall>c \<in> set (DiffOwners ?from ?to). exact_change ?from ?to c" by blast
  then show ?thesis using eval unfolding eval by simp
qed

end
