(* ===== verification/HashAlgorithm.thy ===== *)
theory HashAlgorithm
  imports OwnerDiff
begin

section \<open>Hash placement planning\<close>

text \<open>
  Models the planning half of src/datasystem/cluster/algorithm/hash_algorithm.cpp and its inputs in
  topology_algorithm.h: validation of identities and of a topology, the initial placement, and the
  plans for scale-out, scale-in and failure. HostPort parsing is an external routine; the parameter
  \<open>hostPortOk\<close> says whether an address parses and prints back as itself. Sorting by address is
  applied to lists whose addresses were checked to be different.
\<close>

subsection \<open>Inputs\<close>

record ScaleOutPlanInput =
  soi_current :: TopologyState
  soi_joining :: "MemberIdentity list"
  soi_tokensPerMember :: u32

record ScaleInPlanInput =
  sii_current :: TopologyState
  sii_leaving :: "MemberIdentity list"

record FailurePlanInput =
  fi_current :: TopologyState
  fi_failed :: "MemberIdentity list"

definition UUID_SIZE :: nat where "UUID_SIZE = 16"

subsection \<open>Validation\<close>

fun validate_identities :: "(string \<Rightarrow> bool) \<Rightarrow> string set \<Rightarrow> string set \<Rightarrow> MemberIdentity list \<Rightarrow> unit result" where
  "validate_identities hostPortOk ids addresses [] = Inr ()"
| "validate_identities hostPortOk ids addresses (identity # identities) =
     bind_result (check_fail (length (mi_id identity) = UUID_SIZE \<and> mi_address identity \<noteq> []
         \<and> length (mi_address identity) \<le> MAX_MEMBER_ADDRESS_BYTES) K_INVALID) (\<lambda>_.
     bind_result (check_fail (hostPortOk (mi_address identity)) K_INVALID) (\<lambda>_.
     bind_result (check_fail (mi_id identity \<notin> ids \<and> mi_address identity \<notin> addresses) K_INVALID) (\<lambda>_.
       validate_identities hostPortOk (insert (mi_id identity) ids) (insert (mi_address identity) addresses) identities)))"

definition ValidateIdentities :: "(string \<Rightarrow> bool) \<Rightarrow> MemberIdentity list \<Rightarrow> unit result" where
  "ValidateIdentities hostPortOk identities = validate_identities hostPortOk {} {} identities"

definition find_address :: "Member list \<Rightarrow> string \<Rightarrow> Member option" where
  "find_address members address = find (\<lambda>member. mb_address member = address) members"

fun ValidateSelectedMembers :: "TopologyState \<Rightarrow> MemberIdentity list \<Rightarrow> unit result" where
  "ValidateSelectedMembers current [] = Inr ()"
| "ValidateSelectedMembers current (identity # chosen) =
     bind_result (check_fail (case find_address (ts_members current) (mi_address identity) of
           None \<Rightarrow> False
         | Some member \<Rightarrow> mb_identity member = identity \<and> IsCommittedMemberState (mb_state member)) K_INVALID)
       (\<lambda>_. ValidateSelectedMembers current chosen)"

fun insert_tokens :: "u32 list \<Rightarrow> u32 set \<Rightarrow> u32 set result" where
  "insert_tokens [] tokens = Inr tokens"
| "insert_tokens (ringPoint # ringPoints) tokens =
     bind_result (check_fail (ringPoint \<notin> tokens) K_INVALID) (\<lambda>_. insert_tokens ringPoints (insert ringPoint tokens))"

fun validate_members :: "Member list \<Rightarrow> string set \<Rightarrow> string set \<Rightarrow> u32 set \<Rightarrow> bool \<Rightarrow> bool result" where
  "validate_members [] ids addresses tokens hasCommitted = Inr hasCommitted"
| "validate_members (member # members) ids addresses tokens hasCommitted =
     bind_result (check_fail (length (mb_id member) = UUID_SIZE \<and> mb_address member \<noteq> []) K_INVALID) (\<lambda>_.
     bind_result (check_fail (mb_id member \<notin> ids \<and> mb_address member \<notin> addresses) K_INVALID) (\<lambda>_.
     bind_result (insert_tokens (mb_tokens member) tokens) (\<lambda>tokens'.
       validate_members members (insert (mb_id member) ids) (insert (mb_address member) addresses) tokens'
         (hasCommitted \<or> IsCommittedMemberState (mb_state member)))))"

definition Validate :: "TopologyState \<Rightarrow> unit result" where
  "Validate state =
     bind_result (validate_members (ts_members state) {} {} {} False) (\<lambda>hasCommitted.
       check_fail (ts_members state = [] \<or> hasCommitted) K_INVALID)"

subsection \<open>Owners\<close>

definition eligible_owner :: "bool \<Rightarrow> string set \<Rightarrow> bool \<Rightarrow> Member \<Rightarrow> bool" where
  "eligible_owner includeJoining excluded activeOnly member \<longleftrightarrow>
     (if activeOnly then mb_state member = ACTIVE
      else IsCommittedMemberState (mb_state member) \<or> includeJoining \<and> mb_state member = JOINING)
     \<and> mb_address member \<notin> excluded"

definition BuildOwners :: "Member list \<Rightarrow> bool \<Rightarrow> string set \<Rightarrow> bool \<Rightarrow> TokenOwner list result" where
  "BuildOwners members includeJoining excluded activeOnly =
     (let owners = [(ringPoint, mb_identity member).
                      member \<leftarrow> filter (eligible_owner includeJoining excluded activeOnly) members,
                      ringPoint \<leftarrow> mb_tokens member]
      in bind_result (check_fail (owners \<noteq> []) K_NOT_READY) (\<lambda>_. Inr (sort_key fst owners)))"

definition CountNewJoiners :: "MemberIdentity list \<Rightarrow> Member list \<Rightarrow> nat" where
  "CountNewJoiners ordered members =
     length (filter (\<lambda>identity. \<forall>member \<in> set members. mb_address member \<noteq> mi_address identity) ordered)"

definition CollectPlacementOwners :: "Member list \<Rightarrow> PlacementOwner list \<times> u32 set" where
  "CollectPlacementOwners members =
     ([\<lparr>po_token = ringPoint, po_memberIndex = memberIndex\<rparr>.
         (memberIndex, member) \<leftarrow> enumerate 0 members, ringPoint \<leftarrow> mb_tokens member],
      \<Union>member \<in> set members. set (mb_tokens member))"

subsection \<open>Initial placement\<close>

type_synonym TokenAllocation = "u32 list \<times> TokenSeedOverride list"

fun select_all :: "TokenPlacement \<Rightarrow> u32 \<Rightarrow> MemberIdentity list \<Rightarrow> (string \<times> TokenAllocation) list result" where
  "select_all placement tokensPerMember [] = Inr []"
| "select_all placement tokensPerMember (identity # identities) =
     (case SelectTokens placement identity tokensPerMember of
        (Inl e, placement') \<Rightarrow> Inl e
      | (Inr allocation, placement') \<Rightarrow>
          bind_result (select_all placement' tokensPerMember identities) (\<lambda>allocations.
            Inr ((mi_address identity, allocation) # allocations)))"

definition AllocateTokens :: "(string \<Rightarrow> bool) \<Rightarrow> MemberIdentity list \<Rightarrow> u32
    \<Rightarrow> (string \<times> TokenAllocation) list result" where
  "AllocateTokens hostPortOk members tokensPerMember =
     bind_result (check_fail (tokensPerMember > 0 \<and> tokensPerMember \<le> MAX_HASH_RING_TOKENS_PER_MEMBER) K_INVALID) (\<lambda>_.
     bind_result (ValidateIdentities hostPortOk members) (\<lambda>_.
       let ordered = sort_key mi_address members;
           balanced = length ordered * unat tokensPerMember \<le> BALANCED_PLACEMENT_MAX_RING_TOKENS
       in select_all (new_TokenPlacement [] {} balanced) tokensPerMember ordered))"

definition allocation_of :: "(string \<times> TokenAllocation) list \<Rightarrow> MemberIdentity \<Rightarrow> TokenAllocation" where
  "allocation_of allocations identity =
     (case map_of allocations (mi_address identity) of None \<Rightarrow> ([], []) | Some a \<Rightarrow> a)"

definition BuildInitialPlacement :: "(string \<Rightarrow> bool) \<Rightarrow> ScaleOutPlanInput \<Rightarrow> TopologyPlan result" where
  "BuildInitialPlacement hostPortOk input =
     bind_result (check_fail (ts_members (soi_current input) = [] \<and> soi_joining input \<noteq> []) K_INVALID) (\<lambda>_.
     bind_result (AllocateTokens hostPortOk (soi_joining input) (soi_tokensPerMember input)) (\<lambda>allocations.
       Inr \<lparr>tp_next = (soi_current input)\<lparr>
              ts_clusterHasInit := True,
              ts_tokensPerMember := soi_tokensPerMember input,
              ts_members := ts_members (soi_current input) @
                map (\<lambda>identity. \<lparr>mb_identity = identity, mb_state = ACTIVE,
                        mb_tokens = fst (allocation_of allocations identity),
                        mb_tokenSeedOverrides = snd (allocation_of allocations identity)\<rparr>)
                  (sort_key mi_address (soi_joining input))\<rparr>,
            tp_ownerChanges = []\<rparr>))"

subsection \<open>Plans\<close>

text \<open>The loop that places the joining members; it appends the new ones as JOINING.\<close>

fun place_joining :: "Member list \<Rightarrow> TokenPlacement \<Rightarrow> u32 \<Rightarrow> MemberIdentity list \<Rightarrow> Member list result" where
  "place_joining members placement tokensPerMember [] = Inr members"
| "place_joining members placement tokensPerMember (identity # ordered) =
     (case find_address members (mi_address identity) of
        Some member \<Rightarrow>
          bind_result (check_fail (mb_identity member = identity \<and> mb_state member = JOINING) K_INVALID) (\<lambda>_.
            place_joining members placement tokensPerMember ordered)
      | None \<Rightarrow>
          bind_result (check_fail (\<forall>member \<in> set members. mb_id member \<noteq> mi_id identity) K_INVALID) (\<lambda>_.
            case SelectTokens placement identity tokensPerMember of
              (Inl e, placement') \<Rightarrow> Inl e
            | (Inr (tokens, overrides), placement') \<Rightarrow>
                place_joining
                  (members @ [\<lparr>mb_identity = identity, mb_state = JOINING, mb_tokens = tokens,
                               mb_tokenSeedOverrides = overrides\<rparr>]) placement' tokensPerMember ordered))"

definition PlanScaleOut :: "(string \<Rightarrow> bool) \<Rightarrow> ScaleOutPlanInput \<Rightarrow> TopologyPlan result" where
  "PlanScaleOut hostPortOk input =
     bind_result (Validate (soi_current input)) (\<lambda>_.
     bind_result (ValidateIdentities hostPortOk (soi_joining input)) (\<lambda>_.
     bind_result (check_fail (soi_joining input \<noteq> [] \<and> soi_tokensPerMember input > 0
         \<and> soi_tokensPerMember input \<le> MAX_HASH_RING_TOKENS_PER_MEMBER) K_INVALID) (\<lambda>_.
       let members = ts_members (soi_current input);
           (owners, occupied) = CollectPlacementOwners members;
           ordered = sort_key mi_address (soi_joining input);
           balanced = length owners + CountNewJoiners ordered members * unat (soi_tokensPerMember input)
                        \<le> BALANCED_PLACEMENT_MAX_RING_TOKENS
       in bind_result (place_joining members (new_TokenPlacement owners occupied balanced)
              (soi_tokensPerMember input) ordered) (\<lambda>next_members.
          bind_result (BuildOwners members False {} False) (\<lambda>fromOwners.
          bind_result (BuildOwners next_members True {} False) (\<lambda>toOwners.
            Inr \<lparr>tp_next = (soi_current input)\<lparr>ts_tokensPerMember := soi_tokensPerMember input,
                                               ts_members := next_members\<rparr>,
                 tp_ownerChanges = DiffOwners fromOwners toOwners\<rparr>))))))"

definition mark_members :: "MemberState \<Rightarrow> string set \<Rightarrow> Member list \<Rightarrow> Member list" where
  "mark_members state excluded members =
     map (\<lambda>member. if mb_address member \<in> excluded then member\<lparr>mb_state := state\<rparr> else member) members"

definition PlanScaleIn :: "(string \<Rightarrow> bool) \<Rightarrow> ScaleInPlanInput \<Rightarrow> TopologyPlan result" where
  "PlanScaleIn hostPortOk input =
     bind_result (Validate (sii_current input)) (\<lambda>_.
     bind_result (ValidateIdentities hostPortOk (sii_leaving input)) (\<lambda>_.
     bind_result (ValidateSelectedMembers (sii_current input) (sii_leaving input)) (\<lambda>_.
     bind_result (check_fail (sii_leaving input \<noteq> []) K_INVALID) (\<lambda>_.
       let members = ts_members (sii_current input);
           excluded = mi_address ` set (sii_leaving input)
       in bind_result (BuildOwners members False {} False) (\<lambda>fromOwners.
          bind_result (BuildOwners members False excluded False) (\<lambda>toOwners.
            Inr \<lparr>tp_next = (sii_current input)\<lparr>ts_members := mark_members PRE_LEAVING excluded members\<rparr>,
                 tp_ownerChanges = DiffOwners fromOwners toOwners\<rparr>))))))"

definition PlanFailure :: "(string \<Rightarrow> bool) \<Rightarrow> FailurePlanInput \<Rightarrow> TopologyPlan result" where
  "PlanFailure hostPortOk input =
     bind_result (Validate (fi_current input)) (\<lambda>_.
     bind_result (ValidateIdentities hostPortOk (fi_failed input)) (\<lambda>_.
     bind_result (ValidateSelectedMembers (fi_current input) (fi_failed input)) (\<lambda>_.
     bind_result (check_fail (fi_failed input \<noteq> []) K_INVALID) (\<lambda>_.
       let members = ts_members (fi_current input);
           excluded = mi_address ` set (fi_failed input)
       in bind_result (BuildOwners members False {} False) (\<lambda>fromOwners.
          bind_result (BuildOwners members False excluded True) (\<lambda>toOwners.
            Inr \<lparr>tp_next = (fi_current input)\<lparr>ts_members := mark_members FAILED excluded members\<rparr>,
                 tp_ownerChanges = filter (\<lambda>change. case oc_source change of
                     None \<Rightarrow> False | Some source \<Rightarrow> mi_address source \<in> excluded)
                   (DiffOwners fromOwners toOwners)\<rparr>))))))"

subsection \<open>What validation accepts\<close>

definition members_ok :: "Member list \<Rightarrow> bool" where
  "members_ok members \<longleftrightarrow> (\<forall>m \<in> set members. length (mb_id m) = UUID_SIZE \<and> mb_address m \<noteq> [])
     \<and> distinct (map mb_id members) \<and> distinct (map mb_address members)
     \<and> distinct (concat (map mb_tokens members))"

lemma insert_tokens_iff:
  "insert_tokens ts T = Inr T' \<longleftrightarrow> distinct ts \<and> set ts \<inter> T = {} \<and> T' = T \<union> set ts"
  by (induction ts arbitrary: T) auto

lemma validate_members_iff:
  "validate_members ms ids ads T h = Inr h' \<longleftrightarrow> members_ok ms
     \<and> set (map mb_id ms) \<inter> ids = {} \<and> set (map mb_address ms) \<inter> ads = {}
     \<and> set (concat (map mb_tokens ms)) \<inter> T = {}
     \<and> h' = (h \<or> (\<exists>m \<in> set ms. IsCommittedMemberState (mb_state m)))"
proof (induction ms arbitrary: ids ads T h)
  case Nil
  then show ?case by (auto simp: members_ok_def)
next
  case (Cons m ms)
  have split: "validate_members (m # ms) ids ads T h = Inr h' \<longleftrightarrow>
      length (mb_id m) = UUID_SIZE \<and> mb_address m \<noteq> [] \<and> mb_id m \<notin> ids \<and> mb_address m \<notin> ads
      \<and> distinct (mb_tokens m) \<and> set (mb_tokens m) \<inter> T = {}
      \<and> validate_members ms (insert (mb_id m) ids) (insert (mb_address m) ads) (T \<union> set (mb_tokens m))
           (h \<or> IsCommittedMemberState (mb_state m)) = Inr h'"
    by (auto simp: bind_result_Inr insert_tokens_iff)
  show ?case unfolding split Cons.IH by (auto simp: members_ok_def)
qed

lemma Validate_iff:
  "Validate st = Inr u \<longleftrightarrow> members_ok (ts_members st)
     \<and> (ts_members st = [] \<or> (\<exists>m \<in> set (ts_members st). IsCommittedMemberState (mb_state m)))"
  by (auto simp: Validate_def bind_result_Inr validate_members_iff)

lemma validate_identities_iff:
  "validate_identities hp ids ads is = Inr u \<longleftrightarrow>
     (\<forall>i \<in> set is. length (mi_id i) = UUID_SIZE \<and> mi_address i \<noteq> []
        \<and> length (mi_address i) \<le> MAX_MEMBER_ADDRESS_BYTES \<and> hp (mi_address i))
     \<and> distinct (map mi_id is) \<and> distinct (map mi_address is)
     \<and> set (map mi_id is) \<inter> ids = {} \<and> set (map mi_address is) \<inter> ads = {}"
  by (induction "is" arbitrary: ids ads) auto

lemma find_address_None: "find_address ms a = None \<longleftrightarrow> a \<notin> mb_address ` set ms"
  by (auto simp: find_address_def find_None_iff)

lemma find_address_Some: "find_address ms a = Some m \<Longrightarrow> m \<in> set ms \<and> mb_address m = a"
  by (auto simp: find_address_def find_Some_iff)

lemma same_member:
  assumes "members_ok ms" "m \<in> set ms" "m' \<in> set ms" "mb_address m = mb_address m'"
  shows "m = m'"
  using assms unfolding members_ok_def by (metis (no_types, lifting) distinct_map inj_onD)

lemma ValidateSelectedMembers_ok:
  assumes "ValidateSelectedMembers st sel = Inr u" "i \<in> set sel"
  shows "\<exists>m \<in> set (ts_members st). mb_identity m = i \<and> IsCommittedMemberState (mb_state m)"
  using assms
proof (induction sel)
  case (Cons j sel)
  from Cons.prems(1) obtain m where "find_address (ts_members st) (mi_address j) = Some m"
    "mb_identity m = j" "IsCommittedMemberState (mb_state m)"
    by (auto split: option.splits if_splits)
  with Cons show ?case using find_address_Some by (auto split: if_splits)
qed simp

subsection \<open>Owner vectors\<close>

definition owner_pairs :: "Member list \<Rightarrow> (Member \<Rightarrow> bool) \<Rightarrow> TokenOwner set" where
  "owner_pairs members P = {(t, mb_identity m) | m t. m \<in> set members \<and> P m \<and> t \<in> set (mb_tokens m)}"

lemma distinct_filter_tokens:
  "distinct (concat (map mb_tokens ms)) \<Longrightarrow> distinct (concat (map mb_tokens (filter P ms)))"
  by (induction ms) auto

lemma BuildOwners_ok:
  assumes "BuildOwners ms j ex act = Inr owners"
  shows "set owners = owner_pairs ms (eligible_owner j ex act)" "owners \<noteq> []" "sorted (map fst owners)"
    "members_ok ms \<Longrightarrow> distinct (map fst owners)"
proof -
  define l where "l = [(t, mb_identity m). m \<leftarrow> filter (eligible_owner j ex act) ms, t \<leftarrow> mb_tokens m]"
  have o: "l \<noteq> []" "owners = sort_key fst l"
    using assms unfolding BuildOwners_def Let_def l_def [symmetric] by (auto split: if_splits)
  have "set l = owner_pairs ms (eligible_owner j ex act)" by (auto simp: l_def owner_pairs_def)
  then show "set owners = owner_pairs ms (eligible_owner j ex act)" by (simp add: o(2))
  have "set owners \<noteq> {}" using o by simp
  then show "owners \<noteq> []" by auto
  show "sorted (map fst owners)" by (simp add: o(2))
  show "distinct (map fst owners)" if ok: "members_ok ms"
  proof -
    have "map fst l = concat (map mb_tokens (filter (eligible_owner j ex act) ms))"
      by (simp add: l_def map_concat comp_def)
    then have "distinct (map fst l)"
      using ok distinct_filter_tokens [of ms] by (simp add: members_ok_def)
    moreover have "mset (map fst owners) = mset (map fst l)" by (simp add: o(2))
    ultimately show ?thesis by (metis mset_eq_imp_distinct_iff)
  qed
qed

text \<open>The lookup returns the owner at the least clockwise distance.\<close>

lemma clockwise_le:
  fixes t x y :: u32
  assumes "t \<le> x \<and> x \<le> y \<or> y < t \<and> t \<le> x \<or> x \<le> y \<and> y < t"
  shows "x - t \<le> y - t"
proof -
  have "unat x < 2 ^ 32" "unat y < 2 ^ 32" "unat t < 2 ^ 32"
    using unsigned_less [of x, where ?'a = nat] unsigned_less [of y, where ?'a = nat]
      unsigned_less [of t, where ?'a = nat] by simp_all
  moreover have "unat t \<le> unat x \<and> unat x \<le> unat y \<or> unat y < unat t \<and> unat t \<le> unat x \<or> unat x \<le> unat y \<and> unat y < unat t"
    using assms by (simp only: word_le_nat_alt word_less_nat_alt)
  ultimately have "unat (x - t) \<le> unat (y - t)" by (auto simp: unat_sub_if')
  then show ?thesis by (simp only: word_le_nat_alt)
qed

lemma FindOwner_least:
  assumes srt: "sorted (map fst owners)" and q: "q \<in> set owners"
  shows "fst (FindOwner owners t) - t \<le> fst q - t"
proof (cases "dropWhile (\<lambda>o'. fst o' < t) owners")
  case Nil
  then have lt: "\<forall>o' \<in> set owners. fst o' < t" by simp
  have "fst (hd owners) \<le> fst q" using srt q by (cases owners) auto
  then have "fst (hd owners) - t \<le> fst q - t" using lt q by (intro clockwise_le) blast
  then show ?thesis by (simp only: FindOwner_def Nil list.case)
next
  case (Cons p ps)
  have p: "FindOwner owners t = p" by (simp only: FindOwner_def Cons list.case)
  have tp: "t \<le> fst p" using Cons hd_dropWhile [of "\<lambda>o'. fst o' < t" owners] by (simp add: not_less)
  have own: "owners = takeWhile (\<lambda>o'. fst o' < t) owners @ p # ps" using Cons by (metis takeWhile_dropWhile_id)
  have "q \<in> set (takeWhile (\<lambda>o'. fst o' < t) owners) \<or> q = p \<or> q \<in> set ps"
    using q by (subst (asm) own) auto
  moreover have "fst q < t" if "q \<in> set (takeWhile (\<lambda>o'. fst o' < t) owners)" using that set_takeWhileD by fast
  moreover have "fst p \<le> fst q" if "q \<in> set ps"
    using srt that by (subst (asm) own) (simp add: sorted_append)
  ultimately have "t \<le> fst p \<and> fst p \<le> fst q \<or> fst q < t \<and> t \<le> fst p" using tp by blast
  then show ?thesis unfolding p by (intro clockwise_le) blast
qed

lemma FindOwner_subset:
  assumes A: "sorted (map fst A)" and B: "sorted (map fst B)" "distinct (map fst B)"
    and sub: "set A \<subseteq> set B" and mem: "FindOwner B t \<in> set A"
  shows "FindOwner A t = FindOwner B t"
proof -
  have ne: "A \<noteq> []" using mem by auto
  have a: "FindOwner A t \<in> set A" by (rule FindOwner_mem [OF ne])
  have "fst (FindOwner A t) - t = fst (FindOwner B t) - t"
    using FindOwner_least [OF A mem] FindOwner_least [OF B(1)] a sub by (meson order_antisym subsetD)
  then have "fst (FindOwner A t) = fst (FindOwner B t)" by simp
  then show ?thesis using B(2) a mem sub by (metis distinct_map inj_onD subsetD)
qed

lemma FindOwner_pair:
  assumes "set owners = owner_pairs ms P" "owners \<noteq> []"
  obtains m where "m \<in> set ms" "P m" "fst (FindOwner owners t) \<in> set (mb_tokens m)" "owner_of owners t = mb_identity m"
    "FindOwner owners t = (fst (FindOwner owners t), mb_identity m)"
  using FindOwner_mem [OF assms(2), of t] assms(1) by (auto simp: owner_pairs_def owner_of_def)

lemma pairs_inj: "members_ok ms \<Longrightarrow> inj_on mi_address (snd ` owner_pairs ms P \<union> snd ` owner_pairs ms Q)"
proof (rule inj_on_subset)
  show "inj_on mi_address (mb_identity ` set ms)" if "members_ok ms"
  proof (rule inj_onI)
    fix x y
    assume "x \<in> mb_identity ` set ms" "y \<in> mb_identity ` set ms" "mi_address x = mi_address y"
    then show "x = y" using same_member [OF that] by blast
  qed
  show "snd ` owner_pairs ms P \<union> snd ` owner_pairs ms Q \<subseteq> mb_identity ` set ms" by (auto simp: owner_pairs_def)
qed

text \<open>Between nested owner vectors a token moves when its owner in the larger one is left out.\<close>

lemma narrowed_owner:
  assumes ok: "members_ok ms" and A: "set A = owner_pairs ms P" "A \<noteq> []" "sorted (map fst A)"
    and B: "set B = owner_pairs ms Q" "B \<noteq> []" "sorted (map fst B)" "distinct (map fst B)"
    and sub: "\<And>m. P m \<Longrightarrow> Q m"
  shows "owner_of A t \<noteq> owner_of B t \<longleftrightarrow> (\<exists>m \<in> set ms. mb_identity m = owner_of B t \<and> \<not> P m)"
proof -
  obtain m where m: "m \<in> set ms" "fst (FindOwner B t) \<in> set (mb_tokens m)" "owner_of B t = mb_identity m"
    "FindOwner B t = (fst (FindOwner B t), mb_identity m)"
    by (rule FindOwner_pair [OF B(1,2)])
  have uniq: "m' = m" if "m' \<in> set ms" "mb_identity m' = owner_of B t" for m'
    using same_member [OF ok that(1) m(1)] that(2) m(3) by simp
  show ?thesis
  proof (cases "P m")
    case True
    then have "FindOwner B t \<in> set A" using m A(1) unfolding owner_pairs_def by (subst m(4)) blast
    moreover have "set A \<subseteq> set B" using A(1) B(1) sub unfolding owner_pairs_def by blast
    ultimately have "FindOwner A t = FindOwner B t" using FindOwner_subset [OF A(3) B(3,4)] by simp
    then show ?thesis using True uniq by (auto simp: owner_of_def)
  next
    case False
    obtain m' where "m' \<in> set ms" "P m'" "owner_of A t = mb_identity m'" by (rule FindOwner_pair [OF A(1,2)])
    then show ?thesis using False uniq m by metis
  qed
qed

lemma joining_moves:
  assumes ok: "members_ok ms" and A: "set from' = owner_pairs ms (eligible_owner False {} False)" "from' \<noteq> []"
      "sorted (map fst from')" and B: "BuildOwners ms True {} False = Inr to'"
  shows "owner_of from' t \<noteq> owner_of to' t \<longleftrightarrow> (\<exists>m \<in> set ms. mb_identity m = owner_of to' t \<and> mb_state m = JOINING)"
proof -
  note B' = BuildOwners_ok [OF B]
  have "owner_of from' t \<noteq> owner_of to' t \<longleftrightarrow> (\<exists>m \<in> set ms. mb_identity m = owner_of to' t \<and> \<not> eligible_owner False {} False m)"
    by (rule narrowed_owner [OF ok A B'(1-3) B'(4) [OF ok]]) (auto simp: eligible_owner_def)
  moreover obtain m where m: "m \<in> set ms" "eligible_owner True {} False m" "owner_of to' t = mb_identity m"
    by (rule FindOwner_pair [OF B'(1,2)])
  moreover have "m' = m" if "m' \<in> set ms" "mb_identity m' = owner_of to' t" for m'
    using same_member [OF ok that(1) m(1)] that(2) m(3) by simp
  moreover have "mb_state m = JOINING \<longleftrightarrow> \<not> eligible_owner False {} False m"
    using m(2) by (auto simp: eligible_owner_def IsCommittedMemberState_def)
  ultimately show ?thesis by metis
qed

lemma DiffOwners_covers:
  assumes "from' \<noteq> []" "to' \<noteq> []" "inj_on mi_address (snd ` set from' \<union> snd ` set to')"
  shows "c \<in> set (DiffOwners from' to') \<Longrightarrow> exact_change from' to' c"
    "(\<exists>c \<in> set (DiffOwners from' to'). t \<in> ranges_set (oc_ranges c)) \<longleftrightarrow> owner_of from' t \<noteq> owner_of to' t"
    "owner_of from' t \<noteq> owner_of to' t \<Longrightarrow> \<exists>c \<in> set (DiffOwners from' to').
       oc_source c = Some (owner_of from' t) \<and> oc_target c = owner_of to' t \<and> t \<in> ranges_set (oc_ranges c)"
proof -
  note spec = DiffOwners_spec [OF assms]
  show "c \<in> set (DiffOwners from' to') \<Longrightarrow> exact_change from' to' c" using spec by blast
  show ex: "owner_of from' t \<noteq> owner_of to' t \<Longrightarrow> \<exists>c \<in> set (DiffOwners from' to').
       oc_source c = Some (owner_of from' t) \<and> oc_target c = owner_of to' t \<and> t \<in> ranges_set (oc_ranges c)"
    using spec by blast
  show "(\<exists>c \<in> set (DiffOwners from' to'). t \<in> ranges_set (oc_ranges c)) \<longleftrightarrow> owner_of from' t \<noteq> owner_of to' t"
  proof
    assume "\<exists>c \<in> set (DiffOwners from' to'). t \<in> ranges_set (oc_ranges c)"
    then obtain c where "exact_change from' to' c" "t \<in> ranges_set (oc_ranges c)" using spec by blast
    then show "owner_of from' t \<noteq> owner_of to' t" unfolding exact_change_def by auto
  qed (use ex in blast)
qed

lemma exact_change_token:
  assumes "exact_change from' to' c"
  obtains t where "owner_of from' t \<noteq> owner_of to' t" "oc_source c = Some (owner_of from' t)"
    "oc_target c = owner_of to' t" "t \<in> ranges_set (oc_ranges c)"
proof -
  obtain r rs where r: "oc_ranges c = r # rs" using assms unfolding exact_change_def by (cases "oc_ranges c") auto
  have "rng_from r \<le> rng_end r" using assms r unfolding exact_change_def ranges_ok_def by simp
  then have "rng_from r \<in> ranges_set (oc_ranges c)" by (simp add: r range_set_def)
  then show thesis using that [of "rng_from r"] assms unfolding exact_change_def by auto
qed

subsection \<open>Placing the joining members\<close>

definition tokens_rebuildable :: "u32 \<Rightarrow> Member \<Rightarrow> bool" where
  "tokens_rebuildable n m \<longleftrightarrow> length (mb_tokens m) = unat n
     \<and> MakeHashRingTokens (mb_address m) (apply_overrides (unat n) (mb_tokenSeedOverrides m)) = mb_tokens m
     \<and> sorted_wrt (<) (map so_tokenIndex (mb_tokenSeedOverrides m))
     \<and> (\<forall>o' \<in> set (mb_tokenSeedOverrides m). so_tokenIndex o' < n \<and> 0 < so_tokenSeed o'
          \<and> so_tokenSeed o' < MAX_HASH_RING_TOKEN_SEEDS)"

lemma members_ok_snoc:
  "members_ok (ms @ [m]) \<longleftrightarrow> members_ok ms \<and> length (mb_id m) = UUID_SIZE \<and> mb_address m \<noteq> []
     \<and> mb_id m \<notin> mb_id ` set ms \<and> mb_address m \<notin> mb_address ` set ms
     \<and> distinct (mb_tokens m) \<and> set (mb_tokens m) \<inter> set (concat (map mb_tokens ms)) = {}"
  unfolding members_ok_def by auto

lemma place_joining_ok:
  assumes "place_joining ms pl n ordered = Inr nxt" "members_ok ms" "placement_ok pl"
    and "set (concat (map mb_tokens ms)) \<subseteq> pl_occupied pl"
    and "\<forall>i \<in> set ordered. length (mi_id i) = UUID_SIZE \<and> mi_address i \<noteq> []"
  shows "\<exists>new. nxt = ms @ new \<and> members_ok nxt
    \<and> (\<forall>m \<in> set new. mb_state m = JOINING \<and> mb_identity m \<in> set ordered \<and> tokens_rebuildable n m)
    \<and> (\<forall>i \<in> set ordered. \<exists>m \<in> set nxt. mb_identity m = i \<and> mb_state m = JOINING)"
  using assms
proof (induction ordered arbitrary: ms pl)
  case (Cons i ordered)
  show ?case
  proof (cases "find_address ms (mi_address i)")
    case (Some m)
    then have m: "m \<in> set ms" "mb_identity m = i" "mb_state m = JOINING"
      and rest: "place_joining ms pl n ordered = Inr nxt"
      using Cons.prems(1) find_address_Some [OF Some] by (auto split: if_splits)
    from Cons.IH [OF rest] Cons.prems(2-5) m show ?thesis by fastforce
  next
    case None
    obtain r pl' where sel: "SelectTokens pl i n = (r, pl')" by (cases "SelectTokens pl i n")
    obtain ts ovs where r: "r = Inr (ts, ovs)" and id: "\<forall>m \<in> set ms. mb_id m \<noteq> mi_id i"
      using Cons.prems(1) None sel by (cases r) (auto split: if_splits)
    let ?m = "\<lparr>mb_identity = i, mb_state = JOINING, mb_tokens = ts, mb_tokenSeedOverrides = ovs\<rparr>"
    have rest: "place_joining (ms @ [?m]) pl' n ordered = Inr nxt" using Cons.prems(1) None sel r id by simp
    note c = SelectTokens_contract [OF Cons.prems(3) sel [unfolded r]]
    have ok: "members_ok (ms @ [?m])"
      using Cons.prems(2,4,5) c id None unfolding members_ok_snoc by (auto simp: find_address_None)
    have pl: "placement_ok pl'" using SelectTokens_ok [OF Cons.prems(3) sel] by simp
    have occ: "set (concat (map mb_tokens (ms @ [?m]))) \<subseteq> pl_occupied pl'" using Cons.prems(4) c by auto
    have reb: "tokens_rebuildable n ?m" using c by (simp add: tokens_rebuildable_def)
    obtain new where new: "nxt = (ms @ [?m]) @ new" "members_ok nxt"
      "\<forall>m \<in> set new. mb_state m = JOINING \<and> mb_identity m \<in> set ordered \<and> tokens_rebuildable n m"
      "\<forall>i \<in> set ordered. \<exists>m \<in> set nxt. mb_identity m = i \<and> mb_state m = JOINING"
      using Cons.IH [OF rest ok pl occ] Cons.prems(5) by auto
    have app: "nxt = ms @ (?m # new)" using new(1) by simp
    have all: "\<forall>m \<in> set (?m # new). mb_state m = JOINING \<and> mb_identity m \<in> set (i # ordered) \<and> tokens_rebuildable n m"
      using new(3) reb by auto
    have "\<forall>j \<in> set (i # ordered). \<exists>m \<in> set nxt. mb_identity m = j \<and> mb_state m = JOINING"
      using new(4) by (auto simp: app)
    with app all new(2) show ?thesis by (intro exI [of _ "?m # new"] conjI)
  qed
qed auto

lemma new_placement_occupied: "occ \<subseteq> pl_occupied (new_TokenPlacement owners occ balanced)"
  by (simp add: new_TokenPlacement_def new_BalancedRing_def Let_def)

subsection \<open>Plans are exact\<close>

lemma CollectPlacementOwners_occupied:
  "snd (CollectPlacementOwners ms) = set (concat (map mb_tokens ms))"
  by (simp add: CollectPlacementOwners_def)

lemma PlanScaleOut_cases:
  assumes "PlanScaleOut hp input = Inr plan"
  obtains new from' to' where
    "ts_members (tp_next plan) = ts_members (soi_current input) @ new"
    "tp_next plan = (soi_current input)\<lparr>ts_tokensPerMember := soi_tokensPerMember input,
       ts_members := ts_members (soi_current input) @ new\<rparr>"
    "members_ok (ts_members (tp_next plan))"
    "Validate (soi_current input) = Inr ()" "ValidateIdentities hp (soi_joining input) = Inr ()"
    "soi_joining input \<noteq> []" "0 < soi_tokensPerMember input" "soi_tokensPerMember input \<le> MAX_HASH_RING_TOKENS_PER_MEMBER"
    "\<forall>m \<in> set new. mb_state m = JOINING \<and> mb_identity m \<in> set (soi_joining input) \<and> tokens_rebuildable (soi_tokensPerMember input) m"
    "\<forall>i \<in> set (soi_joining input). \<exists>m \<in> set (ts_members (tp_next plan)). mb_identity m = i \<and> mb_state m = JOINING"
    "BuildOwners (ts_members (soi_current input)) False {} False = Inr from'"
    "BuildOwners (ts_members (tp_next plan)) True {} False = Inr to'"
    "tp_ownerChanges plan = DiffOwners from' to'"
proof -
  let ?ms = "ts_members (soi_current input)"
  let ?ord = "sort_key mi_address (soi_joining input)"
  obtain owners occupied where coll: "CollectPlacementOwners ?ms = (owners, occupied)" by (cases "CollectPlacementOwners ?ms")
  obtain balanced nxt from' to' where run: "Validate (soi_current input) = Inr ()" "ValidateIdentities hp (soi_joining input) = Inr ()"
    "soi_joining input \<noteq> []" "0 < soi_tokensPerMember input" "soi_tokensPerMember input \<le> MAX_HASH_RING_TOKENS_PER_MEMBER"
    "place_joining ?ms (new_TokenPlacement owners occupied balanced) (soi_tokensPerMember input) ?ord = Inr nxt"
    "BuildOwners ?ms False {} False = Inr from'" "BuildOwners nxt True {} False = Inr to'"
    "plan = \<lparr>tp_next = (soi_current input)\<lparr>ts_tokensPerMember := soi_tokensPerMember input, ts_members := nxt\<rparr>,
       tp_ownerChanges = DiffOwners from' to'\<rparr>"
    using assms coll by (auto simp: PlanScaleOut_def Let_def bind_result_Inr split: if_splits)
  have ids: "\<forall>i \<in> set ?ord. length (mi_id i) = UUID_SIZE \<and> mi_address i \<noteq> []"
    using run(2) by (auto simp: ValidateIdentities_def validate_identities_iff)
  have ok: "members_ok ?ms" using run(1) by (simp add: Validate_iff)
  have occ: "set (concat (map mb_tokens ?ms)) \<subseteq> pl_occupied (new_TokenPlacement owners occupied balanced)"
    using CollectPlacementOwners_occupied [of ?ms] new_placement_occupied [of occupied owners balanced] coll by simp
  from place_joining_ok [OF run(6) ok new_placement_ok occ ids] obtain new where
    "nxt = ?ms @ new" "members_ok nxt"
    "\<forall>m \<in> set new. mb_state m = JOINING \<and> mb_identity m \<in> set (soi_joining input) \<and> tokens_rebuildable (soi_tokensPerMember input) m"
    "\<forall>i \<in> set (soi_joining input). \<exists>m \<in> set nxt. mb_identity m = i \<and> mb_state m = JOINING"
    by auto
  then show thesis using that [of new from' to'] run by simp
qed

text \<open>
  C26. A scale-out plan is exact and moves data only to the joining members. When PlanScaleOut
  succeeds, the next topology is the current one with new JOINING members appended, it passes
  Validate (in particular no token is used twice), every requested member is in it as JOINING, and
  each new member has the requested number of tokens, rebuildable from its address and overrides.
  Every owner change is exact for the committed and the prospective owners, its target is a JOINING
  member, and a token is in some change if and only if a JOINING member will own it.
\<close>

theorem scale_out_plan_exact:
  assumes plan: "PlanScaleOut hp input = Inr plan"
  shows "Validate (tp_next plan) = Inr ()
    \<and> (\<exists>new. ts_members (tp_next plan) = ts_members (soi_current input) @ new
         \<and> (\<forall>m \<in> set new. mb_state m = JOINING \<and> mb_identity m \<in> set (soi_joining input)
              \<and> tokens_rebuildable (soi_tokensPerMember input) m))
    \<and> (\<forall>i \<in> set (soi_joining input). \<exists>m \<in> set (ts_members (tp_next plan)). mb_identity m = i \<and> mb_state m = JOINING)
    \<and> (\<exists>from' to'. BuildOwners (ts_members (soi_current input)) False {} False = Inr from'
         \<and> BuildOwners (ts_members (tp_next plan)) True {} False = Inr to'
         \<and> (\<forall>c \<in> set (tp_ownerChanges plan). exact_change from' to' c
              \<and> (\<exists>m \<in> set (ts_members (tp_next plan)). mb_identity m = oc_target c \<and> mb_state m = JOINING))
         \<and> (\<forall>t. (\<exists>c \<in> set (tp_ownerChanges plan). t \<in> ranges_set (oc_ranges c))
              \<longleftrightarrow> (\<exists>m \<in> set (ts_members (tp_next plan)). mb_identity m = owner_of to' t \<and> mb_state m = JOINING)))"
proof -
  let ?cur = "ts_members (soi_current input)"
  let ?nxt = "ts_members (tp_next plan)"
  obtain new from' to' where p: "?nxt = ?cur @ new" "members_ok ?nxt" "Validate (soi_current input) = Inr ()"
    "\<forall>m \<in> set new. mb_state m = JOINING \<and> mb_identity m \<in> set (soi_joining input) \<and> tokens_rebuildable (soi_tokensPerMember input) m"
    "\<forall>i \<in> set (soi_joining input). \<exists>m \<in> set ?nxt. mb_identity m = i \<and> mb_state m = JOINING"
    "BuildOwners ?cur False {} False = Inr from'" "BuildOwners ?nxt True {} False = Inr to'"
    "tp_ownerChanges plan = DiffOwners from' to'"
    by (rule PlanScaleOut_cases [OF plan])
  have joining: "\<not> eligible_owner False {} False m" if "m \<in> set new" for m
    using p(4) that by (simp add: eligible_owner_def IsCommittedMemberState_def)
  have A: "set from' = owner_pairs ?nxt (eligible_owner False {} False)"
    using BuildOwners_ok(1) [OF p(6)] joining p(1) by (auto simp: owner_pairs_def)
  note B = BuildOwners_ok [OF p(7)]
  have inj: "inj_on mi_address (snd ` set from' \<union> snd ` set to')" unfolding A B(1) by (rule pairs_inj [OF p(2)])
  note diff = DiffOwners_covers [OF BuildOwners_ok(2) [OF p(6)] B(2) inj, folded p(8)]
  note moves = joining_moves [OF p(2) A BuildOwners_ok(2,3) [OF p(6)] p(7)]
  have target: "exact_change from' to' c \<and> (\<exists>m \<in> set ?nxt. mb_identity m = oc_target c \<and> mb_state m = JOINING)"
    if c: "c \<in> set (tp_ownerChanges plan)" for c
  proof -
    from diff(1) [OF c] obtain t where "owner_of from' t \<noteq> owner_of to' t" "oc_target c = owner_of to' t"
      by (rule exact_change_token)
    then show ?thesis using moves [of t] diff(1) [OF c] by simp
  qed
  have "\<exists>m \<in> set ?nxt. IsCommittedMemberState (mb_state m)"
    using BuildOwners_ok(2) [OF p(6)] FindOwner_pair [OF A]
    by (metis eligible_owner_def)
  then have "Validate (tp_next plan) = Inr ()" using p(2) by (simp add: Validate_iff)
  moreover have "\<exists>new. ?nxt = ?cur @ new \<and> (\<forall>m \<in> set new. mb_state m = JOINING
      \<and> mb_identity m \<in> set (soi_joining input) \<and> tokens_rebuildable (soi_tokensPerMember input) m)"
    using p(1,4) by blast
  moreover note p(5,6,7) target diff(2) [unfolded moves]
  ultimately show ?thesis by blast
qed

definition demo_out :: ScaleOutPlanInput where
  "demo_out = \<lparr>soi_current = \<lparr>ts_clusterHasInit = True, ts_version = 7, ts_members =
       [\<lparr>mb_identity = \<lparr>mi_id = ''aaaaaaaaaaaaaaaa'', mi_address = ''h:1''\<rparr>, mb_state = ACTIVE, mb_tokens = [100, 300], mb_tokenSeedOverrides = []\<rparr>,
        \<lparr>mb_identity = \<lparr>mi_id = ''bbbbbbbbbbbbbbbb'', mi_address = ''h:2''\<rparr>, mb_state = JOINING, mb_tokens = [200], mb_tokenSeedOverrides = []\<rparr>],
       ts_activeBatch = None, ts_tokensPerMember = 1\<rparr>,
     soi_joining = [\<lparr>mi_id = ''bbbbbbbbbbbbbbbb'', mi_address = ''h:2''\<rparr>], soi_tokensPerMember = 1\<rparr>"

theorem scale_out_plan_exact_witness:
  "\<exists>plan. PlanScaleOut (\<lambda>_. True) demo_out = Inr plan \<and> Validate (tp_next plan) = Inr ()
     \<and> map oc_ranges (tp_ownerChanges plan) = [[\<lparr>rng_from = 101, rng_end = 200\<rparr>]]"
proof -
  have "case PlanScaleOut (\<lambda>_. True) demo_out of Inl e \<Rightarrow> False
      | Inr plan \<Rightarrow> map oc_ranges (tp_ownerChanges plan) = [[\<lparr>rng_from = 101, rng_end = 200\<rparr>]]"
    by code_simp
  then obtain plan where plan: "PlanScaleOut (\<lambda>_. True) demo_out = Inr plan"
    "map oc_ranges (tp_ownerChanges plan) = [[\<lparr>rng_from = 101, rng_end = 200\<rparr>]]"
    by (cases "PlanScaleOut (\<lambda>_. True) demo_out") auto
  from scale_out_plan_exact [OF plan(1)] have "Validate (tp_next plan) = Inr ()" by (rule conjunct1)
  with plan show ?thesis by (intro exI [of _ plan] conjI)
qed

lemma members_ok_alt:
  "members_ok ms \<longleftrightarrow> (\<forall>i \<in> set (map mb_identity ms). length (mi_id i) = UUID_SIZE \<and> mi_address i \<noteq> [])
     \<and> distinct (map mi_id (map mb_identity ms)) \<and> distinct (map mi_address (map mb_identity ms))
     \<and> distinct (concat (map mb_tokens ms))"
  by (simp add: members_ok_def comp_def)

lemma members_ok_cong:
  "map mb_identity ms' = map mb_identity ms \<Longrightarrow> map mb_tokens ms' = map mb_tokens ms \<Longrightarrow> members_ok ms' = members_ok ms"
  unfolding members_ok_alt by (simp only:)

lemma mark_members_ok [simp]: "members_ok (mark_members st ex ms) = members_ok ms"
  by (rule members_ok_cong) (simp_all add: mark_members_def)

lemma mark_members_mem:
  "m \<in> set ms \<Longrightarrow> (if mb_address m \<in> ex then m\<lparr>mb_state := st\<rparr> else m) \<in> set (mark_members st ex ms)"
  by (simp only: mark_members_def set_map) (rule imageI)

lemma owner_address_selected:
  assumes ok: "members_ok ms" and sel: "\<forall>i \<in> set ids. \<exists>m \<in> set ms. mb_identity m = i"
    and A: "BuildOwners ms False {} False = Inr from'"
  shows "mi_address (owner_of from' t) \<in> mi_address ` set ids \<longleftrightarrow> owner_of from' t \<in> set ids"
proof -
  obtain m where m: "m \<in> set ms" "owner_of from' t = mb_identity m"
    by (rule FindOwner_pair [OF BuildOwners_ok(1,2) [OF A]])
  show ?thesis
  proof
    assume "mi_address (owner_of from' t) \<in> mi_address ` set ids"
    then obtain i where i: "i \<in> set ids" "mi_address i = mb_address m" using m(2) by auto
    then obtain k where k: "k \<in> set ms" "mb_identity k = i" using sel by blast
    then have "k = m" using same_member [OF ok k(1) m(1)] i(2) by simp
    then show "owner_of from' t \<in> set ids" using i(1) k(2) m(2) by simp
  qed simp
qed

text \<open>Leaving the excluded members out moves the tokens of the members that are left out.\<close>

lemma excluded_moves:
  assumes ok: "members_ok ms" and sel: "\<forall>i \<in> set ids. \<exists>m \<in> set ms. mb_identity m = i"
    and A: "BuildOwners ms False {} False = Inr from'" and B: "BuildOwners ms False (mi_address ` set ids) act = Inr to'"
  shows "owner_of from' t \<in> set ids \<Longrightarrow> owner_of from' t \<noteq> owner_of to' t"
    "\<not> act \<Longrightarrow> owner_of from' t \<noteq> owner_of to' t \<Longrightarrow> owner_of from' t \<in> set ids"
    "\<exists>m \<in> set ms. mb_identity m = owner_of to' t \<and> owner_of to' t \<notin> set ids
       \<and> IsCommittedMemberState (mb_state m) \<and> (act \<longrightarrow> mb_state m = ACTIVE)"
proof -
  note A' = BuildOwners_ok [OF A] and B' = BuildOwners_ok [OF B]
  obtain m where m: "m \<in> set ms" "eligible_owner False {} False m" "owner_of from' t = mb_identity m"
    by (rule FindOwner_pair [OF A'(1,2)])
  obtain n where n: "n \<in> set ms" "eligible_owner False (mi_address ` set ids) act n" "owner_of to' t = mb_identity n"
    by (rule FindOwner_pair [OF B'(1,2)])
  have comm: "IsCommittedMemberState (mb_state n)" using n(2) by (auto simp: eligible_owner_def IsCommittedMemberState_def split: if_splits)
  have n': "mb_identity n \<notin> set ids" using n(2) by (auto simp: eligible_owner_def)
  then show "\<exists>m \<in> set ms. mb_identity m = owner_of to' t \<and> owner_of to' t \<notin> set ids
       \<and> IsCommittedMemberState (mb_state m) \<and> (act \<longrightarrow> mb_state m = ACTIVE)"
    using n comm by (intro bexI [of _ n]) (simp_all add: eligible_owner_def)
  show "owner_of from' t \<in> set ids \<Longrightarrow> owner_of from' t \<noteq> owner_of to' t" using n' n(3) by auto
  assume act: "\<not> act" and "owner_of from' t \<noteq> owner_of to' t"
  then have "owner_of to' t \<noteq> owner_of from' t" by simp
  then have "\<exists>m \<in> set ms. mb_identity m = owner_of from' t \<and> \<not> eligible_owner False (mi_address ` set ids) act m"
    by (subst (asm) narrowed_owner [OF ok B'(1-3) A'(1-3) A'(4) [OF ok]])
       (use act in \<open>auto simp: eligible_owner_def\<close>)
  then obtain m' where m': "m' \<in> set ms" "mb_identity m' = owner_of from' t" "\<not> eligible_owner False (mi_address ` set ids) act m'"
    by blast
  have "m' = m" using same_member [OF ok m'(1) m(1)] m'(2) m(3) by simp
  then have "mb_address m \<in> mi_address ` set ids" using m' m(2) act by (auto simp: eligible_owner_def)
  then show "owner_of from' t \<in> set ids" using owner_address_selected [OF ok sel A, of t] m(3) by simp
qed

lemma failure_keeps_active:
  assumes "BuildOwners ms False ex True = Inr to'"
  shows "\<exists>m \<in> set (mark_members FAILED ex ms). IsCommittedMemberState (mb_state m)"
proof -
  obtain m where "m \<in> set ms" "eligible_owner False ex True m"
    by (rule FindOwner_pair [OF BuildOwners_ok(1,2) [OF assms]])
  then show ?thesis
    by (intro bexI [OF _ mark_members_mem]) (auto simp: eligible_owner_def IsCommittedMemberState_def)
qed

text \<open>
  C27. A scale-in plan drains the leaving members and nothing else. When PlanScaleIn succeeds, the
  next topology is the current one with the leaving members marked PRE_LEAVING, and it passes
  Validate. Every owner change is exact, its source is a leaving member and its target a committed
  member that stays, and a token is in some change if and only if a leaving member owns it.
\<close>

theorem scale_in_plan_exact:
  assumes plan: "PlanScaleIn hp input = Inr plan"
  shows "Validate (tp_next plan) = Inr ()
    \<and> tp_next plan = (sii_current input)\<lparr>ts_members :=
         mark_members PRE_LEAVING (mi_address ` set (sii_leaving input)) (ts_members (sii_current input))\<rparr>
    \<and> (\<exists>from' to'. BuildOwners (ts_members (sii_current input)) False {} False = Inr from'
         \<and> BuildOwners (ts_members (sii_current input)) False (mi_address ` set (sii_leaving input)) False = Inr to'
         \<and> (\<forall>c \<in> set (tp_ownerChanges plan). exact_change from' to' c
              \<and> (\<exists>i \<in> set (sii_leaving input). oc_source c = Some i)
              \<and> (\<exists>m \<in> set (ts_members (sii_current input)). mb_identity m = oc_target c
                   \<and> oc_target c \<notin> set (sii_leaving input) \<and> IsCommittedMemberState (mb_state m)))
         \<and> (\<forall>t. (\<exists>c \<in> set (tp_ownerChanges plan). t \<in> ranges_set (oc_ranges c))
              \<longleftrightarrow> owner_of from' t \<in> set (sii_leaving input)))"
proof -
  let ?ms = "ts_members (sii_current input)"
  let ?ex = "mi_address ` set (sii_leaving input)"
  obtain from' to' where p: "Validate (sii_current input) = Inr ()" "ValidateSelectedMembers (sii_current input) (sii_leaving input) = Inr ()"
    "BuildOwners ?ms False {} False = Inr from'" "BuildOwners ?ms False ?ex False = Inr to'"
    "plan = \<lparr>tp_next = (sii_current input)\<lparr>ts_members := mark_members PRE_LEAVING ?ex ?ms\<rparr>, tp_ownerChanges = DiffOwners from' to'\<rparr>"
    using plan by (auto simp: PlanScaleIn_def Let_def bind_result_Inr split: if_splits)
  have ok: "members_ok ?ms" using p(1) by (simp add: Validate_iff)
  have sel: "\<forall>i \<in> set (sii_leaving input). \<exists>m \<in> set ?ms. mb_identity m = i"
    using ValidateSelectedMembers_ok [OF p(2)] by blast
  note moves = excluded_moves [OF ok sel p(3,4)]
  have inj: "inj_on mi_address (snd ` set from' \<union> snd ` set to')"
    unfolding BuildOwners_ok(1) [OF p(3)] BuildOwners_ok(1) [OF p(4)] by (rule pairs_inj [OF ok])
  note diff = DiffOwners_covers [OF BuildOwners_ok(2) [OF p(3)] BuildOwners_ok(2) [OF p(4)] inj]
  have iff: "owner_of from' t \<noteq> owner_of to' t \<longleftrightarrow> owner_of from' t \<in> set (sii_leaving input)" for t
    using moves(1,2) by blast
  have change: "exact_change from' to' c \<and> (\<exists>i \<in> set (sii_leaving input). oc_source c = Some i)
      \<and> (\<exists>m \<in> set ?ms. mb_identity m = oc_target c \<and> oc_target c \<notin> set (sii_leaving input) \<and> IsCommittedMemberState (mb_state m))"
    if c: "c \<in> set (DiffOwners from' to')" for c
  proof -
    from diff(1) [OF c] obtain t where t: "owner_of from' t \<noteq> owner_of to' t" "oc_source c = Some (owner_of from' t)"
      "oc_target c = owner_of to' t" by (rule exact_change_token)
    then show ?thesis using diff(1) [OF c] iff [of t] moves(3) [of t] unfolding t(2,3) by blast
  qed
  obtain m where "m \<in> set ?ms" "eligible_owner False {} False m"
    by (rule FindOwner_pair [OF BuildOwners_ok(1,2) [OF p(3)]])
  then have "\<exists>m \<in> set (mark_members PRE_LEAVING ?ex ?ms). IsCommittedMemberState (mb_state m)"
    by (intro bexI [OF _ mark_members_mem]) (auto simp: eligible_owner_def IsCommittedMemberState_def)
  then have "Validate (tp_next plan) = Inr ()" using ok by (simp add: Validate_iff p(5))
  moreover have "\<forall>t. (\<exists>c \<in> set (DiffOwners from' to'). t \<in> ranges_set (oc_ranges c)) \<longleftrightarrow> owner_of from' t \<in> set (sii_leaving input)"
    using diff(2) iff by blast
  ultimately show ?thesis using p(3,4) change by (simp add: p(5))
qed

definition demo_members :: "Member list" where
  "demo_members =
     [\<lparr>mb_identity = \<lparr>mi_id = ''aaaaaaaaaaaaaaaa'', mi_address = ''h:1''\<rparr>, mb_state = ACTIVE, mb_tokens = [100, 300], mb_tokenSeedOverrides = []\<rparr>,
      \<lparr>mb_identity = \<lparr>mi_id = ''bbbbbbbbbbbbbbbb'', mi_address = ''h:2''\<rparr>, mb_state = ACTIVE, mb_tokens = [200], mb_tokenSeedOverrides = []\<rparr>,
      \<lparr>mb_identity = \<lparr>mi_id = ''cccccccccccccccc'', mi_address = ''h:3''\<rparr>, mb_state = PRE_LEAVING, mb_tokens = [400], mb_tokenSeedOverrides = []\<rparr>]"

definition demo_state :: TopologyState where
  "demo_state = \<lparr>ts_clusterHasInit = True, ts_version = 7, ts_members = demo_members,
     ts_activeBatch = None, ts_tokensPerMember = 1\<rparr>"

definition demo_id :: MemberIdentity where
  "demo_id = \<lparr>mi_id = ''bbbbbbbbbbbbbbbb'', mi_address = ''h:2''\<rparr>"

theorem scale_in_plan_exact_witness:
  "\<exists>plan. PlanScaleIn (\<lambda>_. True) \<lparr>sii_current = demo_state, sii_leaving = [demo_id]\<rparr> = Inr plan
     \<and> Validate (tp_next plan) = Inr ()
     \<and> map oc_ranges (tp_ownerChanges plan) = [[\<lparr>rng_from = 101, rng_end = 200\<rparr>]]"
proof -
  let ?in = "\<lparr>sii_current = demo_state, sii_leaving = [demo_id]\<rparr>"
  have "case PlanScaleIn (\<lambda>_. True) ?in of Inl e \<Rightarrow> False
      | Inr plan \<Rightarrow> map oc_ranges (tp_ownerChanges plan) = [[\<lparr>rng_from = 101, rng_end = 200\<rparr>]]"
    by code_simp
  then obtain plan where plan: "PlanScaleIn (\<lambda>_. True) ?in = Inr plan"
    "map oc_ranges (tp_ownerChanges plan) = [[\<lparr>rng_from = 101, rng_end = 200\<rparr>]]"
    by (cases "PlanScaleIn (\<lambda>_. True) ?in") auto
  from scale_in_plan_exact [OF plan(1)] have "Validate (tp_next plan) = Inr ()" by (rule conjunct1)
  with plan show ?thesis by (intro exI [of _ plan] conjI)
qed

text \<open>
  C28. A failure plan recovers exactly what the failed members owned. When PlanFailure succeeds, the
  next topology is the current one with the failed members marked FAILED, and it passes Validate.
  Every owner change is exact, its source is a failed member and its target an ACTIVE member that
  did not fail, and a token is in some change if and only if a failed member owns it; tokens of
  other leaving members stay where they are.
\<close>

theorem failure_plan_exact:
  assumes plan: "PlanFailure hp input = Inr plan"
  shows "Validate (tp_next plan) = Inr ()
    \<and> tp_next plan = (fi_current input)\<lparr>ts_members :=
         mark_members FAILED (mi_address ` set (fi_failed input)) (ts_members (fi_current input))\<rparr>
    \<and> (\<exists>from' to'. BuildOwners (ts_members (fi_current input)) False {} False = Inr from'
         \<and> BuildOwners (ts_members (fi_current input)) False (mi_address ` set (fi_failed input)) True = Inr to'
         \<and> (\<forall>c \<in> set (tp_ownerChanges plan). exact_change from' to' c
              \<and> (\<exists>i \<in> set (fi_failed input). oc_source c = Some i)
              \<and> (\<exists>m \<in> set (ts_members (fi_current input)). mb_identity m = oc_target c
                   \<and> oc_target c \<notin> set (fi_failed input) \<and> mb_state m = ACTIVE))
         \<and> (\<forall>t. (\<exists>c \<in> set (tp_ownerChanges plan). t \<in> ranges_set (oc_ranges c))
              \<longleftrightarrow> owner_of from' t \<in> set (fi_failed input)))"
proof -
  let ?ms = "ts_members (fi_current input)"
  let ?ex = "mi_address ` set (fi_failed input)"
  let ?keep = "\<lambda>change. case oc_source change of None \<Rightarrow> False | Some source \<Rightarrow> mi_address source \<in> ?ex"
  obtain from' to' where p: "Validate (fi_current input) = Inr ()" "ValidateSelectedMembers (fi_current input) (fi_failed input) = Inr ()"
    "BuildOwners ?ms False {} False = Inr from'" "BuildOwners ?ms False ?ex True = Inr to'"
    "plan = \<lparr>tp_next = (fi_current input)\<lparr>ts_members := mark_members FAILED ?ex ?ms\<rparr>,
             tp_ownerChanges = filter ?keep (DiffOwners from' to')\<rparr>"
    using plan by (auto simp: PlanFailure_def Let_def bind_result_Inr split: if_splits)
  have ok: "members_ok ?ms" using p(1) by (simp add: Validate_iff)
  have sel: "\<forall>i \<in> set (fi_failed input). \<exists>m \<in> set ?ms. mb_identity m = i"
    using ValidateSelectedMembers_ok [OF p(2)] by blast
  note moves = excluded_moves [OF ok sel p(3,4)]
  have inj: "inj_on mi_address (snd ` set from' \<union> snd ` set to')"
    unfolding BuildOwners_ok(1) [OF p(3)] BuildOwners_ok(1) [OF p(4)] by (rule pairs_inj [OF ok])
  note diff = DiffOwners_covers [OF BuildOwners_ok(2) [OF p(3)] BuildOwners_ok(2) [OF p(4)] inj]
  have failed: "mi_address (owner_of from' t) \<in> ?ex \<longleftrightarrow> owner_of from' t \<in> set (fi_failed input)" for t
    by (rule owner_address_selected [OF ok sel p(3)])
  have change: "exact_change from' to' c \<and> (\<exists>i \<in> set (fi_failed input). oc_source c = Some i)
      \<and> (\<exists>m \<in> set ?ms. mb_identity m = oc_target c \<and> oc_target c \<notin> set (fi_failed input) \<and> mb_state m = ACTIVE)"
    if c: "c \<in> set (tp_ownerChanges plan)" for c
  proof -
    have c': "c \<in> set (DiffOwners from' to')" "?keep c" using c by (simp_all add: p(5))
    from diff(1) [OF c'(1)] obtain t where t: "oc_source c = Some (owner_of from' t)" "oc_target c = owner_of to' t"
      by (rule exact_change_token)
    then have "owner_of from' t \<in> set (fi_failed input)" using c'(2) failed by simp
    then show ?thesis using diff(1) [OF c'(1)] moves(3) [of t] t by metis
  qed
  have cover: "(\<exists>c \<in> set (tp_ownerChanges plan). t \<in> ranges_set (oc_ranges c)) \<longleftrightarrow> owner_of from' t \<in> set (fi_failed input)" for t
  proof
    assume t: "owner_of from' t \<in> set (fi_failed input)"
    from diff(3) [OF moves(1) [OF t]] obtain c where "c \<in> set (DiffOwners from' to')"
      "oc_source c = Some (owner_of from' t)" "t \<in> ranges_set (oc_ranges c)" by blast
    then show "\<exists>c \<in> set (tp_ownerChanges plan). t \<in> ranges_set (oc_ranges c)" using t by (auto simp: p(5))
  next
    assume "\<exists>c \<in> set (tp_ownerChanges plan). t \<in> ranges_set (oc_ranges c)"
    then obtain c where c: "c \<in> set (tp_ownerChanges plan)" "t \<in> ranges_set (oc_ranges c)" by blast
    then show "owner_of from' t \<in> set (fi_failed input)" using change [OF c(1)] unfolding exact_change_def by auto
  qed
  have valid: "Validate (tp_next plan) = Inr ()"
    using ok failure_keeps_active [OF p(4)] by (simp add: Validate_iff p(5))
  have next': "tp_next plan = (fi_current input)\<lparr>ts_members := mark_members FAILED ?ex ?ms\<rparr>" by (simp add: p(5))
  show ?thesis by (rule conjI [OF valid conjI [OF next']]) (use p(3,4) change cover in blast)
qed

theorem failure_plan_exact_witness:
  "\<exists>plan. PlanFailure (\<lambda>_. True) \<lparr>fi_current = demo_state, fi_failed = [demo_id]\<rparr> = Inr plan
     \<and> Validate (tp_next plan) = Inr ()
     \<and> map oc_ranges (tp_ownerChanges plan) = [[\<lparr>rng_from = 101, rng_end = 200\<rparr>]]"
proof -
  let ?in = "\<lparr>fi_current = demo_state, fi_failed = [demo_id]\<rparr>"
  have "case PlanFailure (\<lambda>_. True) ?in of Inl e \<Rightarrow> False
      | Inr plan \<Rightarrow> map oc_ranges (tp_ownerChanges plan) = [[\<lparr>rng_from = 101, rng_end = 200\<rparr>]]"
    by code_simp
  then obtain plan where plan: "PlanFailure (\<lambda>_. True) ?in = Inr plan"
    "map oc_ranges (tp_ownerChanges plan) = [[\<lparr>rng_from = 101, rng_end = 200\<rparr>]]"
    by (cases "PlanFailure (\<lambda>_. True) ?in") auto
  from failure_plan_exact [OF plan(1)] have "Validate (tp_next plan) = Inr ()" by (rule conjunct1)
  with plan show ?thesis by (intro exI [of _ plan] conjI)
qed

end
