(* ===== verification/TopologySnapshot.thy ===== *)
theory TopologySnapshot
  imports HashAlgorithm
begin

section \<open>Topology snapshots\<close>

text \<open>
  Models src/datasystem/cluster/model/topology_snapshot.{h,cpp}: validation and canonical order of a
  topology, the immutable snapshot with its indexes, the lookups on it, the check of a migration
  fence, and the owner lookups of hash_algorithm.cpp that read a snapshot. The digest of the host
  id map is a parameter. An unordered map is an association list; where the code emplaces, the
  first entry of a key counts.
\<close>

subsection \<open>Validation\<close>

definition MEMBER_ID_SIZE :: nat where "MEMBER_ID_SIZE = 16"
definition SHA256_HEX_SIZE :: nat where "SHA256_HEX_SIZE = 64"

definition IsProspective :: "MemberState \<Rightarrow> ActiveBatch option \<Rightarrow> bool" where
  "IsProspective state batch =
     (case batch of None \<Rightarrow> False
      | Some b \<Rightarrow>
          (case ab_type b of
             SCALE_OUT \<Rightarrow> IsCommittedMemberState state \<or> state = JOINING
           | SCALE_IN \<Rightarrow> IsCommittedMemberState state \<and> state \<noteq> LEAVING
           | FAILURE \<Rightarrow> False))"

fun MatchesBatch :: "MemberState \<Rightarrow> TopologyChangeType \<Rightarrow> bool" where
  "MatchesBatch state SCALE_OUT = (state \<noteq> LEAVING \<and> state \<noteq> FAILED)"
| "MatchesBatch state SCALE_IN = (state \<noteq> JOINING \<and> state \<noteq> FAILED)"
| "MatchesBatch state FAILURE = True"

fun batch_participant :: "TopologyChangeType \<Rightarrow> MemberState" where
  "batch_participant SCALE_OUT = JOINING"
| "batch_participant SCALE_IN = LEAVING"
| "batch_participant FAILURE = FAILED"

fun check_batch :: "TopologyChangeType \<Rightarrow> Member list \<Rightarrow> bool \<Rightarrow> bool result" where
  "check_batch type [] hasParticipant = Inr hasParticipant"
| "check_batch type (member # members) hasParticipant =
     bind_result (check_fail (MatchesBatch (mb_state member) type) K_INVALID) (\<lambda>_.
       check_batch type members (hasParticipant \<or> mb_state member = batch_participant type))"

definition ValidateBatchStates :: "TopologyState \<Rightarrow> unit result" where
  "ValidateBatchStates state =
     (case ts_activeBatch state of
        None \<Rightarrow> check_fail (\<forall>member \<in> set (ts_members state).
                  \<not> (mb_state member = JOINING \<or> mb_state member = LEAVING \<or> mb_state member = FAILED)) K_INVALID
      | Some b \<Rightarrow> bind_result (check_batch (ab_type b) (ts_members state) False) (\<lambda>hasParticipant.
                  check_fail hasParticipant K_INVALID))"

definition ValidateAddress :: "(string \<Rightarrow> bool) \<Rightarrow> string \<Rightarrow> unit result" where
  "ValidateAddress hostPortOk address =
     check_fail (address \<noteq> [] \<and> length address \<le> MAX_MEMBER_ADDRESS_BYTES \<and> hostPortOk address) K_INVALID"

definition IsSha256Hex :: "string \<Rightarrow> bool" where
  "IsSha256Hex digest \<longleftrightarrow> length digest = SHA256_HEX_SIZE
     \<and> list_all (\<lambda>value. CHR ''0'' \<le> value \<and> value \<le> CHR ''9'' \<or> CHR ''a'' \<le> value \<and> value \<le> CHR ''f'') digest"

text \<open>The loop over the sorted members; \<open>prev\<close> is the address of the member before.\<close>

fun check_members :: "(string \<Rightarrow> bool) \<Rightarrow> string option \<Rightarrow> string set \<Rightarrow> u32 set \<Rightarrow> bool \<Rightarrow> bool \<Rightarrow> Member list
    \<Rightarrow> (bool \<times> bool) result" where
  "check_members hostPortOk prev ids tokens hasMember hasToken [] = Inr (hasMember, hasToken)"
| "check_members hostPortOk prev ids tokens hasMember hasToken (member # members) =
     bind_result (ValidateAddress hostPortOk (mb_address member)) (\<lambda>_.
     bind_result (check_fail (length (mb_id member) = MEMBER_ID_SIZE) K_INVALID) (\<lambda>_.
     bind_result (check_fail (prev \<noteq> Some (mb_address member)) K_INVALID) (\<lambda>_.
     bind_result (check_fail (mb_id member \<notin> ids) K_INVALID) (\<lambda>_.
     bind_result (insert_tokens (mb_tokens member) tokens) (\<lambda>tokens'.
       check_members hostPortOk (Some (mb_address member)) (insert (mb_id member) ids) tokens'
         (hasMember \<or> IsCommittedMemberState (mb_state member))
         (hasToken \<or> IsCommittedMemberState (mb_state member) \<and> mb_tokens member \<noteq> []) members)))))"

definition ValidateAndCanonicalizeTopologyState :: "(string \<Rightarrow> bool) \<Rightarrow> TopologyState \<Rightarrow> TopologyState result" where
  "ValidateAndCanonicalizeTopologyState hostPortOk state =
     bind_result (check_fail (ts_version state > 0 \<and> ts_version state \<le> 2 ^ 63 - 1) K_INVALID) (\<lambda>_.
     bind_result (check_fail (ts_tokensPerMember state > 0
         \<and> ts_tokensPerMember state \<le> MAX_HASH_RING_TOKENS_PER_MEMBER) K_INVALID) (\<lambda>_.
     bind_result (case ts_activeBatch state of None \<Rightarrow> Inr ()
        | Some b \<Rightarrow> check_fail (ab_epoch b > 0 \<and> ab_epoch b \<le> ts_version state) K_INVALID) (\<lambda>_.
     bind_result (ValidateBatchStates state) (\<lambda>_.
       let members = sort_key mb_address (ts_members state)
       in bind_result (check_members hostPortOk None {} {} False False members) (\<lambda>(hasMember, hasToken).
          bind_result (check_fail (\<not> hasMember \<or> hasToken) K_INVALID) (\<lambda>_.
            Inr (state\<lparr>ts_members := members\<rparr>)))))))"

subsection \<open>The snapshot\<close>

record TopologySnapshot =
  sn_state :: TopologyState
  sn_authorityRevision :: int
  sn_coordinatorId :: string
  sn_canonicalDigest :: string
  sn_hostIds :: "(string \<times> string) list"
  sn_hostIdsKnown :: bool
  sn_hostIdsDigest :: string
  sn_addressIndex :: "(string \<times> nat) list"
  sn_idIndex :: "(string \<times> nat) list"
  sn_committedMembers :: "Member list"
  sn_activeMembers :: "Member list"
  sn_failedMembers :: "Member list"
  sn_committedTokenOwners :: "(u32 \<times> Member) list"
  sn_prospectiveTokenOwners :: "(u32 \<times> Member) list"

definition token_owners :: "(Member \<Rightarrow> bool) \<Rightarrow> Member list \<Rightarrow> (u32 \<times> Member) list" where
  "token_owners P members = sort_key fst [(ringPoint, member). member \<leftarrow> filter P members, ringPoint \<leftarrow> mb_tokens member]"

definition BuildIndexes :: "TopologySnapshot \<Rightarrow> TopologySnapshot" where
  "BuildIndexes snapshot =
     (let members = ts_members (sn_state snapshot); batch = ts_activeBatch (sn_state snapshot)
      in snapshot\<lparr>
           sn_addressIndex := zip (map mb_address members) [0..<length members],
           sn_idIndex := zip (map mb_id members) [0..<length members],
           sn_committedMembers := filter (\<lambda>m. IsCommittedMemberState (mb_state m)) members,
           sn_activeMembers := filter (\<lambda>m. mb_state m = ACTIVE) members,
           sn_failedMembers := filter (\<lambda>m. mb_state m = FAILED) members,
           sn_committedTokenOwners := token_owners (\<lambda>m. IsCommittedMemberState (mb_state m)) members,
           sn_prospectiveTokenOwners := token_owners (\<lambda>m. IsProspective (mb_state m) batch) members\<rparr>)"

definition new_TopologySnapshot :: "TopologyState \<Rightarrow> int \<Rightarrow> string \<Rightarrow> (string \<times> string) list \<Rightarrow> TopologySnapshot" where
  "new_TopologySnapshot state authorityRevision canonicalDigest hostIds =
     \<lparr>sn_state = state, sn_authorityRevision = authorityRevision, sn_coordinatorId = [],
      sn_canonicalDigest = canonicalDigest, sn_hostIds = hostIds, sn_hostIdsKnown = False, sn_hostIdsDigest = [],
      sn_addressIndex = [], sn_idIndex = [], sn_committedMembers = [], sn_activeMembers = [], sn_failedMembers = [],
      sn_committedTokenOwners = [], sn_prospectiveTokenOwners = []\<rparr>"

text \<open>\<open>mapSha256\<close> stands for Hasher::GetStringMapSha256Hex, which the theory Hasher models.\<close>

definition Create :: "(string \<Rightarrow> bool) \<Rightarrow> ((string \<times> string) list \<Rightarrow> string result) \<Rightarrow> TopologyState \<Rightarrow> int \<Rightarrow> string
    \<Rightarrow> (string \<times> string) list \<Rightarrow> bool \<Rightarrow> string \<Rightarrow> TopologySnapshot result" where
  "Create hostPortOk mapSha256 state authorityRevision canonicalDigest hostIds hostIdsKnown coordinatorId =
     bind_result (check_fail (authorityRevision \<ge> 0 \<and> IsSha256Hex canonicalDigest) K_INVALID) (\<lambda>_.
     bind_result (ValidateAndCanonicalizeTopologyState hostPortOk state) (\<lambda>canonical.
     bind_result (mapSha256 hostIds) (\<lambda>digest.
       Inr (BuildIndexes ((new_TopologySnapshot canonical authorityRevision canonicalDigest hostIds)
              \<lparr>sn_hostIdsDigest := digest, sn_hostIdsKnown := hostIdsKnown, sn_coordinatorId := coordinatorId\<rparr>)))))"

subsection \<open>Lookups\<close>

definition FindMemberByAddress :: "TopologySnapshot \<Rightarrow> string \<Rightarrow> Member result" where
  "FindMemberByAddress snapshot address =
     (case map_of (sn_addressIndex snapshot) address of
        None \<Rightarrow> Inl K_NOT_FOUND
      | Some index \<Rightarrow> Inr (ts_members (sn_state snapshot) ! index))"

definition FindMemberById :: "TopologySnapshot \<Rightarrow> string \<Rightarrow> Member result" where
  "FindMemberById snapshot id' =
     bind_result (check_fail (length id' = MEMBER_ID_SIZE) K_INVALID) (\<lambda>_.
       case map_of (sn_idIndex snapshot) id' of
         None \<Rightarrow> Inl K_NOT_FOUND
       | Some index \<Rightarrow> Inr (ts_members (sn_state snapshot) ! index))"

text \<open>The first member whose address comes after \<open>address\<close>, cyclically, on a non-empty vector.\<close>

definition upper_member :: "Member list \<Rightarrow> string \<Rightarrow> Member" where
  "upper_member members address =
     (case dropWhile (\<lambda>candidate. \<not> address < mb_address candidate) members of [] \<Rightarrow> hd members | c # _ \<Rightarrow> c)"

definition FindNextCommittedMember :: "TopologySnapshot \<Rightarrow> string \<Rightarrow> Member result" where
  "FindNextCommittedMember snapshot address =
     bind_result (check_fail (case FindMemberByAddress snapshot address of
          Inl e \<Rightarrow> False | Inr current \<Rightarrow> IsCommittedMemberState (mb_state current)) K_NOT_FOUND) (\<lambda>_.
     bind_result (check_fail (length (sn_committedMembers snapshot) > 1) K_NOT_FOUND) (\<lambda>_.
       let candidate = upper_member (sn_committedMembers snapshot) address
       in bind_result (check_fail (mb_address candidate \<noteq> address) K_NOT_FOUND) (\<lambda>_. Inr candidate)))"

definition FindNextActiveMember :: "TopologySnapshot \<Rightarrow> string \<Rightarrow> Member result" where
  "FindNextActiveMember snapshot address =
     bind_result (check_fail (sn_activeMembers snapshot \<noteq> []) K_NOT_FOUND) (\<lambda>_.
       let candidate = upper_member (sn_activeMembers snapshot) address
       in bind_result (check_fail (mb_address candidate \<noteq> address) K_NOT_FOUND) (\<lambda>_. Inr candidate))"

definition FindExactMember :: "TopologySnapshot \<Rightarrow> MemberIdentity \<Rightarrow> Member result" where
  "FindExactMember snapshot identity =
     bind_result (check_fail (mi_id identity \<noteq> [] \<and> mi_address identity \<noteq> []) K_INVALID) (\<lambda>_.
       case FindMemberByAddress snapshot (mi_address identity) of
         Inl e \<Rightarrow> Inl K_INVALID
       | Inr found \<Rightarrow> bind_result (check_fail (mb_identity found = identity) K_INVALID) (\<lambda>_. Inr found))"

definition ValidateMigrationFence :: "TopologySnapshot \<Rightarrow> TopologyMigrationFence \<Rightarrow> unit result" where
  "ValidateMigrationFence snapshot fence =
     (if mf_topologyVersion fence > ts_version (sn_state snapshot) then Inl K_TRY_AGAIN
      else
        bind_result (check_fail (mf_topologyVersion fence \<noteq> 0) K_INVALID) (\<lambda>_.
        case ts_activeBatch (sn_state snapshot) of
          None \<Rightarrow> Inl K_INVALID
        | Some b \<Rightarrow>
            bind_result (check_fail (mf_batchEpoch fence \<noteq> 0 \<and> ab_epoch b = mf_batchEpoch fence) K_INVALID) (\<lambda>_.
            bind_result (FindExactMember snapshot (mf_source fence)) (\<lambda>source.
            bind_result (FindExactMember snapshot (mf_target fence)) (\<lambda>target.
              check_fail
                (ab_type b = SCALE_OUT \<and> IsCommittedMemberState (mb_state source) \<and> mb_state target = JOINING
                 \<or> ab_type b = SCALE_IN \<and> mb_state source = LEAVING
                    \<and> IsAdmittedScaleInMigrationTargetState (mb_state target)
                    \<and> mb_identity source \<noteq> mb_identity target) K_INVALID)))))"

definition LocateIndexedOwner :: "(u32 \<times> Member) list \<Rightarrow> u32 \<Rightarrow> Member result" where
  "LocateIndexedOwner owners token =
     bind_result (check_fail (owners \<noteq> []) K_NOT_READY) (\<lambda>_.
       Inr (case dropWhile (\<lambda>entry. fst entry < token) owners of [] \<Rightarrow> snd (hd owners) | entry # _ \<Rightarrow> snd entry))"

definition LocateOwner :: "TopologySnapshot \<Rightarrow> u32 \<Rightarrow> Member result" where
  "LocateOwner snapshot token = LocateIndexedOwner (sn_committedTokenOwners snapshot) token"

definition LocateProspectiveOwner :: "TopologySnapshot \<Rightarrow> u32 \<Rightarrow> Member result" where
  "LocateProspectiveOwner snapshot token =
     LocateIndexedOwner (if sn_prospectiveTokenOwners snapshot = [] then sn_committedTokenOwners snapshot
                         else sn_prospectiveTokenOwners snapshot) token"

definition Hash :: "string \<Rightarrow> u32" where
  "Hash placementKey = MurmurHash3_32 (map byte_of placementKey) 0"

subsection \<open>What canonicalization accepts\<close>

definition batch_states_ok :: "TopologyState \<Rightarrow> bool" where
  "batch_states_ok st \<longleftrightarrow>
     (case ts_activeBatch st of
        None \<Rightarrow> \<forall>m \<in> set (ts_members st). mb_state m \<in> {INITIAL, ACTIVE, PRE_LEAVING}
      | Some b \<Rightarrow> (\<forall>m \<in> set (ts_members st). MatchesBatch (mb_state m) (ab_type b))
          \<and> (\<exists>m \<in> set (ts_members st). mb_state m = batch_participant (ab_type b)))"

definition topology_wf :: "(string \<Rightarrow> bool) \<Rightarrow> TopologyState \<Rightarrow> bool" where
  "topology_wf hp st \<longleftrightarrow> ts_version st > 0 \<and> ts_version st \<le> 2 ^ 63 - 1
     \<and> ts_tokensPerMember st > 0 \<and> ts_tokensPerMember st \<le> MAX_HASH_RING_TOKENS_PER_MEMBER
     \<and> (\<forall>b. ts_activeBatch st = Some b \<longrightarrow> ab_epoch b > 0 \<and> ab_epoch b \<le> ts_version st)
     \<and> batch_states_ok st \<and> members_ok (ts_members st)
     \<and> (\<forall>m \<in> set (ts_members st). length (mb_address m) \<le> MAX_MEMBER_ADDRESS_BYTES \<and> hp (mb_address m))
     \<and> ((\<exists>m \<in> set (ts_members st). IsCommittedMemberState (mb_state m))
          \<longrightarrow> (\<exists>m \<in> set (ts_members st). IsCommittedMemberState (mb_state m) \<and> mb_tokens m \<noteq> []))"

lemma check_batch_iff:
  "check_batch type ms h = Inr h' \<longleftrightarrow> (\<forall>m \<in> set ms. MatchesBatch (mb_state m) type)
     \<and> h' = (h \<or> (\<exists>m \<in> set ms. mb_state m = batch_participant type))"
  by (induction ms arbitrary: h) auto

lemma check_batch_error: "check_batch type ms h = Inl e \<Longrightarrow> e = K_INVALID"
  by (induction ms arbitrary: h) (auto split: if_splits)

lemma ValidateBatchStates_eq:
  "ValidateBatchStates st = (if batch_states_ok st then Inr () else Inl K_INVALID)"
proof (cases "ts_activeBatch st")
  case None
  have "(\<not> (s = JOINING \<or> s = LEAVING \<or> s = FAILED)) \<longleftrightarrow> s \<in> {INITIAL, ACTIVE, PRE_LEAVING}" for s
    by (cases s) auto
  then show ?thesis by (simp add: ValidateBatchStates_def batch_states_ok_def None check_fail_def)
next
  case (Some b)
  show ?thesis
  proof (cases "check_batch (ab_type b) (ts_members st) False")
    case (Inl e)
    then have "\<not> (\<forall>m \<in> set (ts_members st). MatchesBatch (mb_state m) (ab_type b))"
      using check_batch_iff [of "ab_type b" "ts_members st" False] by (metis Inl sum.distinct(1))
    then show ?thesis
      using Inl check_batch_error [OF Inl] Some by (simp add: ValidateBatchStates_def batch_states_ok_def)
  next
    case (Inr h)
    then have "ValidateBatchStates st = check_fail h K_INVALID" by (simp add: ValidateBatchStates_def Some)
    moreover have "batch_states_ok st = h" using Inr by (simp add: check_batch_iff batch_states_ok_def Some)
    ultimately show ?thesis by (simp add: check_fail_def)
  qed
qed

lemma insert_tokens_error: "insert_tokens ts T = Inl e \<Longrightarrow> e = K_INVALID"
  by (induction ts arbitrary: T) (auto split: if_splits)

lemma check_members_error: "check_members hp prev ids T h k ms = Inl e \<Longrightarrow> e = K_INVALID"
  by (induction ms arbitrary: prev ids T h k)
     (auto simp: bind_result_Inl ValidateAddress_def dest: insert_tokens_error split: if_splits)

lemma members_ok_Cons:
  "members_ok (m # ms) \<longleftrightarrow> members_ok ms \<and> length (mb_id m) = UUID_SIZE \<and> mb_address m \<noteq> []
     \<and> mb_id m \<notin> mb_id ` set ms \<and> mb_address m \<notin> mb_address ` set ms
     \<and> distinct (mb_tokens m) \<and> set (mb_tokens m) \<inter> set (concat (map mb_tokens ms)) = {}"
  unfolding members_ok_def by auto

lemma check_members_iff:
  assumes "sorted (map mb_address ms)" "\<forall>a. prev = Some a \<longrightarrow> (\<forall>m \<in> set ms. a \<le> mb_address m)"
  shows "check_members hp prev ids T h k ms = Inr r \<longleftrightarrow> members_ok ms
     \<and> (\<forall>m \<in> set ms. length (mb_address m) \<le> MAX_MEMBER_ADDRESS_BYTES \<and> hp (mb_address m))
     \<and> (\<forall>m \<in> set ms. prev \<noteq> Some (mb_address m)) \<and> set (map mb_id ms) \<inter> ids = {}
     \<and> set (concat (map mb_tokens ms)) \<inter> T = {}
     \<and> r = (h \<or> (\<exists>m \<in> set ms. IsCommittedMemberState (mb_state m)),
            k \<or> (\<exists>m \<in> set ms. IsCommittedMemberState (mb_state m) \<and> mb_tokens m \<noteq> []))"
  using assms
proof (induction ms arbitrary: prev ids T h k)
  case Nil
  then show ?case by (auto simp: members_ok_def)
next
  case (Cons m ms)
  have split: "check_members hp prev ids T h k (m # ms) = Inr r \<longleftrightarrow>
      mb_address m \<noteq> [] \<and> length (mb_address m) \<le> MAX_MEMBER_ADDRESS_BYTES \<and> hp (mb_address m)
      \<and> length (mb_id m) = UUID_SIZE \<and> prev \<noteq> Some (mb_address m) \<and> mb_id m \<notin> ids
      \<and> distinct (mb_tokens m) \<and> set (mb_tokens m) \<inter> T = {}
      \<and> check_members hp (Some (mb_address m)) (insert (mb_id m) ids) (T \<union> set (mb_tokens m))
           (h \<or> IsCommittedMemberState (mb_state m))
           (k \<or> IsCommittedMemberState (mb_state m) \<and> mb_tokens m \<noteq> []) ms = Inr r"
    by (auto simp: bind_result_Inr insert_tokens_iff ValidateAddress_def MEMBER_ID_SIZE_def UUID_SIZE_def)
  have srt: "sorted (map mb_address ms)" "\<forall>a. Some (mb_address m) = Some a \<longrightarrow> (\<forall>m \<in> set ms. a \<le> mb_address m)"
    using Cons.prems(1) by auto
  have prev: "prev \<noteq> Some (mb_address x)" if "prev \<noteq> Some (mb_address m)" "x \<in> set ms" for x
  proof
    assume x: "prev = Some (mb_address x)"
    then have "mb_address x \<le> mb_address m" using Cons.prems(2) by simp
    moreover have "mb_address m \<le> mb_address x" using srt(2) that(2) by blast
    ultimately show False using that(1) x by simp
  qed
  have e: "(\<forall>x \<in> set ms. Some (mb_address m) \<noteq> Some (mb_address x)) \<longleftrightarrow> mb_address m \<notin> mb_address ` set ms"
    "set (map mb_id ms) \<inter> insert (mb_id m) ids = {} \<longleftrightarrow> mb_id m \<notin> mb_id ` set ms \<and> set (map mb_id ms) \<inter> ids = {}"
    "X \<inter> (T \<union> Y) = {} \<longleftrightarrow> Y \<inter> X = {} \<and> X \<inter> T = {}" for X Y
    by auto
  have all: "(\<forall>x \<in> set (m # ms). P x) \<longleftrightarrow> P m \<and> (\<forall>x \<in> set ms. P x)"
    "(\<exists>x \<in> set (m # ms). P x) \<longleftrightarrow> P m \<or> (\<exists>x \<in> set ms. P x)" for P
    by simp_all
  have sets: "set (map mb_id (m # ms)) \<inter> ids = {} \<longleftrightarrow> mb_id m \<notin> ids \<and> set (map mb_id ms) \<inter> ids = {}"
    "set (concat (map mb_tokens (m # ms))) \<inter> T = {}
       \<longleftrightarrow> set (mb_tokens m) \<inter> T = {} \<and> set (concat (map mb_tokens ms)) \<inter> T = {}"
    by auto
  show ?case
    unfolding split Cons.IH [OF srt] members_ok_Cons e all sets disj_assoc using prev by blast
qed

lemma mset_concat_map: "mset (concat (map f xs)) = (\<Sum>x \<in># mset xs. mset (f x))"
  by (induction xs) simp_all

lemma members_ok_perm:
  assumes "mset ms = mset ms'"
  shows "members_ok ms = members_ok ms'"
proof -
  have "mset (map f ms) = mset (map f ms')" for f :: "Member \<Rightarrow> string" using assms by simp
  then have "distinct (map f ms) = distinct (map f ms')" for f :: "Member \<Rightarrow> string"
    by (rule mset_eq_imp_distinct_iff)
  moreover have "distinct (concat (map mb_tokens ms)) = distinct (concat (map mb_tokens ms'))"
    using assms by (intro mset_eq_imp_distinct_iff) (simp add: mset_concat_map)
  ultimately show ?thesis using mset_eq_setD [OF assms] by (simp add: members_ok_def)
qed

lemma topology_wf_perm:
  assumes "mset ms = mset (ts_members st)"
  shows "topology_wf hp (st\<lparr>ts_members := ms\<rparr>) = topology_wf hp st"
proof -
  note set = mset_eq_setD [OF assms]
  have "batch_states_ok (st\<lparr>ts_members := ms\<rparr>) = batch_states_ok st"
    by (cases "ts_activeBatch st") (simp_all add: batch_states_ok_def set)
  then show ?thesis using members_ok_perm [OF assms] set by (simp add: topology_wf_def)
qed

lemma canonicalize_eq:
  "ValidateAndCanonicalizeTopologyState hp st =
     (if topology_wf hp st then Inr (st\<lparr>ts_members := sort_key mb_address (ts_members st)\<rparr>) else Inl K_INVALID)"
proof -
  let ?ms = "sort_key mb_address (ts_members st)"
  have perm: "mset ?ms = mset (ts_members st)" by simp
  have srt: "sorted (map mb_address ?ms)" by simp
  note members = check_members_iff [OF srt, of None hp "{}" "{}" False False, simplified]
  define pre where "pre \<longleftrightarrow> ts_version st > 0 \<and> ts_version st \<le> 2 ^ 63 - 1
     \<and> ts_tokensPerMember st > 0 \<and> ts_tokensPerMember st \<le> MAX_HASH_RING_TOKENS_PER_MEMBER
     \<and> (\<forall>b. ts_activeBatch st = Some b \<longrightarrow> ab_epoch b > 0 \<and> ab_epoch b \<le> ts_version st) \<and> batch_states_ok st"
  have run: "ValidateAndCanonicalizeTopologyState hp st =
      (if pre then bind_result (check_members hp None {} {} False False ?ms) (\<lambda>(hasMember, hasToken).
          if \<not> hasMember \<or> hasToken then Inr (st\<lparr>ts_members := ?ms\<rparr>) else Inl K_INVALID) else Inl K_INVALID)"
    unfolding ValidateAndCanonicalizeTopologyState_def ValidateBatchStates_eq pre_def
    by (cases "ts_activeBatch st") (auto simp: Let_def)
  have wf: "topology_wf hp st \<longleftrightarrow> pre \<and> members_ok ?ms
     \<and> (\<forall>m \<in> set (ts_members st). length (mb_address m) \<le> MAX_MEMBER_ADDRESS_BYTES \<and> hp (mb_address m))
     \<and> ((\<exists>m \<in> set (ts_members st). IsCommittedMemberState (mb_state m))
          \<longrightarrow> (\<exists>m \<in> set (ts_members st). IsCommittedMemberState (mb_state m) \<and> mb_tokens m \<noteq> []))"
    unfolding topology_wf_def pre_def members_ok_perm [OF perm] by blast
  show ?thesis
  proof (cases "check_members hp None {} {} False False ?ms")
    case (Inl e)
    then have "\<not> (members_ok ?ms \<and> (\<forall>m \<in> set (ts_members st). length (mb_address m) \<le> MAX_MEMBER_ADDRESS_BYTES \<and> hp (mb_address m)))"
      using members by auto
    then show ?thesis using Inl check_members_error [OF Inl] unfolding run wf by auto
  next
    case (Inr r)
    then show ?thesis using members [of r] unfolding run wf by auto
  qed
qed

lemma members_ok_inj: "members_ok ms \<Longrightarrow> inj_on mb_address (set ms)"
  by (simp add: members_ok_def distinct_map)

lemma canonical_sorted:
  assumes "members_ok ms"
  shows "sorted_wrt (<) (map mb_address (sort_key mb_address ms))"
proof -
  have "distinct (map mb_address (sort_key mb_address ms))"
    using assms members_ok_perm [of "sort_key mb_address ms" ms] by (simp add: members_ok_def)
  then show ?thesis by (simp add: strict_sorted_iff)
qed

lemma canonicalize_perm:
  assumes "mset ms = mset (ts_members st)"
  shows "ValidateAndCanonicalizeTopologyState hp (st\<lparr>ts_members := ms\<rparr>) = ValidateAndCanonicalizeTopologyState hp st"
proof (cases "topology_wf hp st")
  case True
  then have "members_ok ms" using members_ok_perm [OF assms] by (simp add: topology_wf_def)
  then have "sort_key mb_address ms = sort_key mb_address (ts_members st)"
    using assms by (intro sort_key_inj_key_eq members_ok_inj) simp_all
  then show ?thesis using True topology_wf_perm [OF assms] by (simp add: canonicalize_eq)
qed (simp add: canonicalize_eq topology_wf_perm [OF assms])

lemma canonicalize_idem:
  assumes "ValidateAndCanonicalizeTopologyState hp st = Inr st'"
  shows "ValidateAndCanonicalizeTopologyState hp st' = Inr st' \<and> topology_wf hp st'
    \<and> sorted_wrt (<) (map mb_address (ts_members st')) \<and> mset (ts_members st') = mset (ts_members st)"
proof -
  have wf: "topology_wf hp st" and st': "st' = st\<lparr>ts_members := sort_key mb_address (ts_members st)\<rparr>"
    using assms by (auto simp: canonicalize_eq split: if_splits)
  have wf': "topology_wf hp st'" using wf topology_wf_perm [of "sort_key mb_address (ts_members st)" st] st' by simp
  moreover have "sorted_wrt (<) (map mb_address (ts_members st'))"
    using wf canonical_sorted by (simp add: st' topology_wf_def)
  moreover have "ValidateAndCanonicalizeTopologyState hp st' = Inr st'"
    using assms canonicalize_perm [of "ts_members st'" st] by (simp add: st')
  ultimately show ?thesis by (simp add: st')
qed

text \<open>
  C29. Canonicalization decides well-formedness and computes a canonical form. It accepts a topology
  exactly when the version, token count, batch epoch, member states, identities, addresses and
  tokens are well-formed, and refuses every other one with K_INVALID. The result has the same
  members in strictly increasing address order; canonicalizing again changes nothing, and the order
  in which the members were given makes no difference to the outcome.
\<close>

theorem canonicalization_is_canonical:
  "ValidateAndCanonicalizeTopologyState hp st =
     (if topology_wf hp st then Inr (st\<lparr>ts_members := sort_key mb_address (ts_members st)\<rparr>) else Inl K_INVALID)
   \<and> (\<forall>st'. ValidateAndCanonicalizeTopologyState hp st = Inr st' \<longrightarrow>
        ValidateAndCanonicalizeTopologyState hp st' = Inr st' \<and> sorted_wrt (<) (map mb_address (ts_members st')))
   \<and> (\<forall>ms. mset ms = mset (ts_members st) \<longrightarrow>
        ValidateAndCanonicalizeTopologyState hp (st\<lparr>ts_members := ms\<rparr>) = ValidateAndCanonicalizeTopologyState hp st)"
  using canonicalize_eq canonicalize_idem canonicalize_perm by blast

theorem canonicalization_is_canonical_witness:
  "ValidateAndCanonicalizeTopologyState (\<lambda>_. True) (demo_state\<lparr>ts_members := rev demo_members\<rparr>) = Inr demo_state
   \<and> ValidateAndCanonicalizeTopologyState (\<lambda>_. True) (demo_state\<lparr>ts_version := 0\<rparr>) = Inl K_INVALID"
proof -
  have eval: "ValidateAndCanonicalizeTopologyState (\<lambda>_. True) demo_state = Inr demo_state"
    "ValidateAndCanonicalizeTopologyState (\<lambda>_. True) (demo_state\<lparr>ts_version := 0\<rparr>) = Inl K_INVALID"
    by code_simp+
  have "mset (rev demo_members) = mset (ts_members demo_state)" by (simp add: demo_state_def)
  then show ?thesis using canonicalization_is_canonical [of "\<lambda>_. True" demo_state] eval by simp
qed

end
