(* ===== verification/KeyHelper.thy ===== *)
theory KeyHelper
  imports TopologySnapshot
begin

section \<open>The topology keyspace\<close>

text \<open>
  Models src/datasystem/cluster/repository/topology_key_helper.{h,cpp} and the two table names of
  src/datasystem/common/kvstore/coordination_keys.h: the table names of a cluster, the validation of
  cluster names, task ids and addresses, the relative keys, and the classification of a physical
  key. The accessors that return a stored table name are the fields of the record.
\<close>

subsection \<open>Names\<close>

definition COORDINATION_CLUSTER_TABLE :: string where "COORDINATION_CLUSTER_TABLE = ''datasystem/cluster''"
definition COORDINATION_CONTROL_TABLE :: string where "COORDINATION_CONTROL_TABLE = ''control''"

definition MAX_CLUSTER_NAME_SIZE :: nat where "MAX_CLUSTER_NAME_SIZE = 128"
definition TASK_DIGEST_SIZE :: nat where "TASK_DIGEST_SIZE = 32"
definition TASK_KIND_PREFIX_SIZE :: nat where "TASK_KIND_PREFIX_SIZE = 3"
definition MIN_TASK_ID_SIZE :: nat where "MIN_TASK_ID_SIZE = TASK_KIND_PREFIX_SIZE + 1 + 1 + TASK_DIGEST_SIZE"
definition MAX_SOURCE_ID_SIZE :: nat where "MAX_SOURCE_ID_SIZE = 128"
definition LOWER_HEX :: string where "LOWER_HEX = ''0123456789abcdef''"
definition ROOT_PREFIX :: string where "ROOT_PREFIX = ''/datasystem''"

definition RESERVED_CLUSTER_NAMES :: "string list" where
  "RESERVED_CLUSTER_NAMES = [''topology'', ''tasks'', ''notify'', ''probe'', ''cluster'', ''ub_health'',
     ''scale-in-metadata-done'', COORDINATION_CONTROL_TABLE]"

definition between :: "char \<Rightarrow> char \<Rightarrow> char \<Rightarrow> bool" where
  "between lo hi c \<longleftrightarrow> lo \<le> c \<and> c \<le> hi"

definition IsAlphaNumeric :: "char \<Rightarrow> bool" where
  "IsAlphaNumeric c \<longleftrightarrow> between CHR ''0'' CHR ''9'' c \<or> between CHR ''A'' CHR ''Z'' c \<or> between CHR ''a'' CHR ''z'' c"

definition IsValidClusterName :: "string \<Rightarrow> bool" where
  "IsValidClusterName name \<longleftrightarrow> name \<noteq> [] \<and> length name \<le> MAX_CLUSTER_NAME_SIZE \<and> IsAlphaNumeric (hd name)
     \<and> name \<notin> set RESERVED_CLUSTER_NAMES
     \<and> list_all (\<lambda>c. IsAlphaNumeric c \<or> c = CHR ''.'' \<or> c = CHR ''_'' \<or> c = CHR ''-'') name"

text \<open>\<open>s.rfind(p, 0) == 0\<close>, and the comparison of a part of a string.\<close>

definition starts_with :: "string \<Rightarrow> string \<Rightarrow> bool" where
  "starts_with p s \<longleftrightarrow> take (length p) s = p"

definition MatchesExactPhysicalKey :: "string \<Rightarrow> string \<Rightarrow> string \<Rightarrow> bool" where
  "MatchesExactPhysicalKey physicalKey table relativeKey \<longleftrightarrow>
     length physicalKey = length table + 1 + length relativeKey
     \<and> take (length table) physicalKey = table \<and> physicalKey ! length table = CHR ''/''
     \<and> drop (length table + 1) physicalKey = relativeKey"

definition MatchesPhysicalTablePrefix :: "string \<Rightarrow> string \<Rightarrow> bool" where
  "MatchesPhysicalTablePrefix physicalKey table \<longleftrightarrow>
     length physicalKey \<ge> length table + 1 \<and> take (length table) physicalKey = table
     \<and> physicalKey ! length table = CHR ''/''"

definition IsLowerHex :: "char \<Rightarrow> bool" where
  "IsLowerHex c \<longleftrightarrow> between CHR ''0'' CHR ''9'' c \<or> between CHR ''a'' CHR ''f'' c"

text \<open>The characters between the kind prefix and the next separator are the epoch.\<close>

definition IsValidTaskId :: "string \<Rightarrow> bool" where
  "IsValidTaskId taskId \<longleftrightarrow>
     length taskId \<ge> MIN_TASK_ID_SIZE \<and> (starts_with ''m-e'' taskId \<or> starts_with ''d-e'' taskId)
     \<and> (let rest = drop TASK_KIND_PREFIX_SIZE taskId; epoch = takeWhile (\<lambda>c. c \<noteq> CHR ''-'') rest;
             separator = TASK_KIND_PREFIX_SIZE + length epoch
         in CHR ''-'' \<in> set rest \<and> epoch \<noteq> [] \<and> between CHR ''1'' CHR ''9'' (hd epoch)
            \<and> length taskId - separator - 1 = TASK_DIGEST_SIZE
            \<and> list_all (between CHR ''0'' CHR ''9'') epoch
            \<and> list_all IsLowerHex (drop (separator + 1) taskId))"

definition ValidateKeyAddress :: "(string \<Rightarrow> bool) \<Rightarrow> string \<Rightarrow> unit result" where
  "ValidateKeyAddress hostPortOk address = check_fail (address \<noteq> [] \<and> hostPortOk address) K_INVALID"

definition ValidateSourceId :: "string \<Rightarrow> unit result" where
  "ValidateSourceId sourceId = check_fail (sourceId \<noteq> [] \<and> length sourceId \<le> MAX_SOURCE_ID_SIZE) K_INVALID"

definition EncodeScaleInMetadataSourceId :: "string \<Rightarrow> string" where
  "EncodeScaleInMetadataSourceId sourceId =
     concat (map (\<lambda>c. let value = (of_char c :: nat) in [LOWER_HEX ! (value div 16), LOWER_HEX ! (value mod 16)]) sourceId)"

subsection \<open>Tables and keys\<close>

record TopologyKeyHelper =
  kh_clusterName :: string
  kh_topologyTable :: string
  kh_migrateTaskTable :: string
  kh_deleteTaskTable :: string
  kh_notifyTable :: string
  kh_probeTable :: string
  kh_membershipTable :: string
  kh_ubHealthTable :: string
  kh_etcdMembershipTablePrefix :: string
  kh_scaleInMetadataDoneTable :: string
  kh_rolloutTable :: string

definition new_TopologyKeyHelper :: "string \<Rightarrow> TopologyKeyHelper" where
  "new_TopologyKeyHelper clusterName =
     (let root = ROOT_PREFIX @ (if clusterName = [] then [] else ''/'' @ clusterName);
          legacyMembershipTable = ''/'' @ COORDINATION_CLUSTER_TABLE
      in \<lparr>kh_clusterName = clusterName,
          kh_topologyTable = root @ ''/topology'',
          kh_migrateTaskTable = root @ ''/tasks/migrate'',
          kh_deleteTaskTable = root @ ''/tasks/delete'',
          kh_notifyTable = root @ ''/notify'',
          kh_probeTable = root @ ''/probe'',
          kh_membershipTable = root @ ''/cluster'',
          kh_ubHealthTable = root @ ''/ub_health'',
          kh_etcdMembershipTablePrefix =
            (if clusterName = [] then legacyMembershipTable else ''/'' @ clusterName @ legacyMembershipTable),
          kh_scaleInMetadataDoneTable = root @ ''/scale-in-metadata-done'',
          kh_rolloutTable = root @ ''/'' @ COORDINATION_CONTROL_TABLE\<rparr>)"

definition Create_KeyHelper :: "string \<Rightarrow> TopologyKeyHelper result" where
  "Create_KeyHelper clusterName =
     (if clusterName \<noteq> [] \<and> \<not> IsValidClusterName clusterName then Inl K_INVALID
      else Inr (new_TopologyKeyHelper clusterName))"

definition TopologyKey :: string where "TopologyKey = []"

datatype TopologyPhysicalKeyKind =
  KEY_UNKNOWN | KEY_TOPOLOGY | KEY_LOCAL_NOTIFY | KEY_LOCAL_PROBE | KEY_MEMBERSHIP | KEY_MIGRATE_TASK | KEY_DELETE_TASK

definition ClassifyPhysicalKey :: "TopologyKeyHelper \<Rightarrow> string \<Rightarrow> string \<Rightarrow> TopologyPhysicalKeyKind" where
  "ClassifyPhysicalKey helper physicalKey localAddress =
     (if MatchesExactPhysicalKey physicalKey (kh_topologyTable helper) TopologyKey then KEY_TOPOLOGY
      else if MatchesExactPhysicalKey physicalKey (kh_notifyTable helper) localAddress then KEY_LOCAL_NOTIFY
      else if MatchesExactPhysicalKey physicalKey (kh_probeTable helper) localAddress then KEY_LOCAL_PROBE
      else if MatchesPhysicalTablePrefix physicalKey (kh_membershipTable helper)
              \<or> MatchesPhysicalTablePrefix physicalKey (kh_etcdMembershipTablePrefix helper) then KEY_MEMBERSHIP
      else if MatchesPhysicalTablePrefix physicalKey (kh_migrateTaskTable helper) then KEY_MIGRATE_TASK
      else if MatchesPhysicalTablePrefix physicalKey (kh_deleteTaskTable helper) then KEY_DELETE_TASK
      else KEY_UNKNOWN)"

definition TaskKey :: "string \<Rightarrow> string result" where
  "TaskKey taskId = (if \<not> IsValidTaskId taskId then Inl K_INVALID else Inr taskId)"

definition NotifyKey :: "(string \<Rightarrow> bool) \<Rightarrow> string \<Rightarrow> string result" where
  "NotifyKey hostPortOk address = bind_result (ValidateKeyAddress hostPortOk address) (\<lambda>_. Inr address)"

definition ProbeKey :: "(string \<Rightarrow> bool) \<Rightarrow> string \<Rightarrow> string result" where
  "ProbeKey hostPortOk address = bind_result (ValidateKeyAddress hostPortOk address) (\<lambda>_. Inr address)"

definition MembershipKey :: "(string \<Rightarrow> bool) \<Rightarrow> string \<Rightarrow> string result" where
  "MembershipKey hostPortOk address = bind_result (ValidateKeyAddress hostPortOk address) (\<lambda>_. Inr address)"

definition UbHealthKey :: "(string \<Rightarrow> bool) \<Rightarrow> string \<Rightarrow> string result" where
  "UbHealthKey hostPortOk address = bind_result (ValidateKeyAddress hostPortOk address) (\<lambda>_. Inr address)"

definition ScaleInMetadataDonePrefix :: "u64 \<Rightarrow> string \<Rightarrow> string result" where
  "ScaleInMetadataDonePrefix batchEpoch sourceId =
     bind_result (check_fail (batchEpoch > 0) K_INVALID) (\<lambda>_.
     bind_result (ValidateSourceId sourceId) (\<lambda>_.
       Inr (''e'' @ decimal (unat batchEpoch) @ ''/'' @ EncodeScaleInMetadataSourceId sourceId @ ''/'')))"

definition ScaleInMetadataDoneKey :: "u64 \<Rightarrow> string \<Rightarrow> string \<Rightarrow> string result" where
  "ScaleInMetadataDoneKey batchEpoch sourceId taskId =
     bind_result (ScaleInMetadataDonePrefix batchEpoch sourceId) (\<lambda>prefix'.
     bind_result (TaskKey taskId) (\<lambda>key. Inr (prefix' @ key)))"

end
