(* ===== verification/RepositoryCodec.thy ===== *)
theory RepositoryCodec
  imports KeyHelper
begin

section \<open>The repository codec\<close>

text \<open>
  Models src/datasystem/cluster/repository/topology_repository_codec.cpp over the messages of
  src/datasystem/protos/cluster_topology.proto. A message is a record of its fields; an enum field
  holds any integer (proto3 enums are open) and a map field is the list of its entries in the
  iteration order of the container. Serialization and parsing are the protobuf library: they are the
  parameters \<open>serialize\<close> (\<open>None\<close> is a serialization error) and \<open>parse\<close> (\<open>None\<close> is a parse error).
\<close>

subsection \<open>Messages and limits\<close>

record TokenSeedOverridePb =
  sop_token_index :: u32
  sop_token_seed :: u32

record MembershipPb =
  mp_id :: string
  mp_state :: int
  mp_token_seed_overrides :: "TokenSeedOverridePb list"

record TokenRangePb =
  trp_owner_address :: string
  trp_from :: u32
  trp_end :: u32
  trp_finished :: bool

record MigrateTaskPb =
  mtp_target_address :: string
  mtp_source_ranges :: "TokenRangePb list"

record DeleteNodeTaskPb =
  dtp_failed_address :: string
  dtp_recovery_ranges :: "TokenRangePb list"

record ChangeBatchPb =
  cbp_type :: int
  cbp_epoch :: u64

record TaskNotifyPb =
  tnp_active_batch :: "ChangeBatchPb option"
  tnp_task_ids :: "string list"
  tnp_restart_timestamps_by_address :: "(string \<times> int) list"

record ClusterTopologyPb =
  ctp_cluster_has_init :: bool
  ctp_members :: "(string \<times> MembershipPb) list"
  ctp_version :: u64
  ctp_schema_version :: string
  ctp_active_batch :: "ChangeBatchPb option"
  ctp_tokens_per_member :: u32

definition MAX_VALUE_BYTES :: nat where "MAX_VALUE_BYTES = 4 * 1024 * 1024"
definition MAX_NOTIFY_TASK_REFS :: nat where "MAX_NOTIFY_TASK_REFS = 4096"
definition MAX_NOTIFY_VALUE_BYTES :: nat where "MAX_NOTIFY_VALUE_BYTES = 4 * 1024 * 1024"
definition MAX_RESTART_NOTIFY_ENTRIES :: nat where "MAX_RESTART_NOTIFY_ENTRIES = 10000"
definition MAX_TOPOLOGY_MEMBERS :: nat where "MAX_TOPOLOGY_MEMBERS = 10000"
definition MAX_TOPOLOGY_TOKENS :: nat where "MAX_TOPOLOGY_TOKENS = 640000"
definition SCHEMA_VERSION :: string where "SCHEMA_VERSION = ''2''"

definition SerializeCanonical :: "('pb \<Rightarrow> string option) \<Rightarrow> 'pb \<Rightarrow> string result" where
  "SerializeCanonical serialize message =
     (case serialize message of
        None \<Rightarrow> Inl K_RUNTIME_ERROR
      | Some encoded \<Rightarrow>
          bind_result (check_fail (length encoded \<le> MAX_VALUE_BYTES) K_INVALID) (\<lambda>_. Inr encoded))"

fun ToPbType :: "TopologyChangeType \<Rightarrow> int" where
  "ToPbType SCALE_OUT = 0"
| "ToPbType SCALE_IN = 1"
| "ToPbType FAILURE = 2"

definition FromPbType :: "int \<Rightarrow> TopologyChangeType result" where
  "FromPbType type = (if type = 0 then Inr SCALE_OUT else if type = 1 then Inr SCALE_IN
     else if type = 2 then Inr FAILURE else Inl K_INVALID)"

text \<open>The two \<open>static_cast\<close>s between \<open>MemberState\<close> and \<open>StatePb\<close>: both enums number their states alike.\<close>

fun state_to_pb :: "MemberState \<Rightarrow> int" where
  "state_to_pb INITIAL = 0"
| "state_to_pb JOINING = 1"
| "state_to_pb ACTIVE = 2"
| "state_to_pb PRE_LEAVING = 3"
| "state_to_pb LEAVING = 4"
| "state_to_pb FAILED = 5"

definition state_of_pb :: "int \<Rightarrow> MemberState" where
  "state_of_pb v = (if v = 0 then INITIAL else if v = 1 then JOINING else if v = 2 then ACTIVE
     else if v = 3 then PRE_LEAVING else if v = 4 then LEAVING else FAILED)"

subsection \<open>Validation helpers\<close>

definition ValidateTaskId :: "string \<Rightarrow> unit result" where
  "ValidateTaskId taskId = bind_result (TaskKey taskId) (\<lambda>_. Inr ())"

definition ValidateTaskContext :: "string \<Rightarrow> char \<Rightarrow> u64 \<Rightarrow> unit result" where
  "ValidateTaskContext taskId kind epoch =
     bind_result (ValidateTaskId taskId) (\<lambda>_.
       check_fail (starts_with ([kind, CHR ''-'', CHR ''e''] @ decimal (unat epoch) @ ''-'') taskId) K_INVALID)"

definition ValidateMemberAddress :: "(string \<Rightarrow> bool) \<Rightarrow> string \<Rightarrow> unit result" where
  "ValidateMemberAddress hostPortOk address = bind_result (NotifyKey hostPortOk address) (\<lambda>_. Inr ())"

text \<open>The loop of IsCanonicalRanges; \<open>prev\<close> is the end of the range before.\<close>

fun canonical_ranges :: "string \<Rightarrow> u32 option \<Rightarrow> TopologyTaskRange list \<Rightarrow> bool" where
  "canonical_ranges executor prev [] \<longleftrightarrow> True"
| "canonical_ranges executor prev (r # rs) \<longleftrightarrow>
     ttr_ownerAddress r = executor \<and> rng_from (ttr_range r) \<le> rng_end (ttr_range r)
     \<and> (case prev of None \<Rightarrow> True | Some e \<Rightarrow> e < rng_from (ttr_range r))
     \<and> canonical_ranges executor (Some (rng_end (ttr_range r))) rs"

definition IsCanonicalRanges :: "TopologyTaskRange list \<Rightarrow> string \<Rightarrow> bool" where
  "IsCanonicalRanges ranges executor \<longleftrightarrow> ranges \<noteq> [] \<and> length ranges \<le> MAX_TOPOLOGY_TASK_RANGES \<and> executor \<noteq> []
     \<and> canonical_ranges executor None ranges"

definition EncodeRanges :: "TopologyTaskRange list \<Rightarrow> TokenRangePb list" where
  "EncodeRanges ranges = map (\<lambda>r. \<lparr>trp_owner_address = ttr_ownerAddress r, trp_from = rng_from (ttr_range r),
     trp_end = rng_end (ttr_range r), trp_finished = ttr_finished r\<rparr>) ranges"

definition DecodeRanges :: "TokenRangePb list \<Rightarrow> (TopologyTaskRange list \<times> string) result" where
  "DecodeRanges input =
     bind_result (check_fail (input \<noteq> [] \<and> length input \<le> MAX_TOPOLOGY_TASK_RANGES) K_INVALID) (\<lambda>_.
       let decoded = map (\<lambda>p. \<lparr>ttr_ownerAddress = trp_owner_address p,
                          ttr_range = \<lparr>rng_from = trp_from p, rng_end = trp_end p\<rparr>,
                          ttr_finished = trp_finished p\<rparr>) input in
       bind_result (check_fail (decoded \<noteq> []) K_INVALID) (\<lambda>_.
         let owner = ttr_ownerAddress (hd decoded) in
         bind_result (check_fail (IsCanonicalRanges decoded owner) K_INVALID) (\<lambda>_. Inr (decoded, owner))))"

fun restart_facts :: "(string \<Rightarrow> bool) \<Rightarrow> (string \<times> int) list \<Rightarrow> unit result" where
  "restart_facts hostPortOk [] = Inr ()"
| "restart_facts hostPortOk ((address, timestamp) # rest) =
     bind_result (ValidateMemberAddress hostPortOk address) (\<lambda>_.
     bind_result (check_fail (timestamp > 0) K_INVALID) (\<lambda>_. restart_facts hostPortOk rest))"

definition ValidateRestartFacts :: "(string \<Rightarrow> bool) \<Rightarrow> (string, int) omap \<Rightarrow> unit result" where
  "ValidateRestartFacts hostPortOk restartTimestamps =
     bind_result (check_fail (length restartTimestamps \<le> MAX_RESTART_NOTIFY_ENTRIES) K_INVALID) (\<lambda>_.
       restart_facts hostPortOk restartTimestamps)"

definition EncodeActiveBatch :: "ActiveBatch \<Rightarrow> ChangeBatchPb result" where
  "EncodeActiveBatch activeBatch =
     bind_result (check_fail (ab_epoch activeBatch > 0) K_INVALID) (\<lambda>_.
       Inr \<lparr>cbp_type = ToPbType (ab_type activeBatch), cbp_epoch = ab_epoch activeBatch\<rparr>)"

definition DecodeActiveBatch :: "ChangeBatchPb \<Rightarrow> ActiveBatch result" where
  "DecodeActiveBatch input =
     bind_result (check_fail (cbp_epoch input > 0) K_INVALID) (\<lambda>_.
     bind_result (FromPbType (cbp_type input)) (\<lambda>type. Inr \<lparr>ab_type = type, ab_epoch = cbp_epoch input\<rparr>))"

subsection \<open>Tokens\<close>

text \<open>The loop over the overrides of a member; \<open>prev\<close> is the index before, \<open>None\<close> at the first.\<close>

fun encode_overrides :: "u32 \<Rightarrow> u32 option \<Rightarrow> u32 list \<Rightarrow> TokenSeedOverride list
    \<Rightarrow> (u32 list \<times> TokenSeedOverridePb list) result" where
  "encode_overrides tokensPerMember prev seeds [] = Inr (seeds, [])"
| "encode_overrides tokensPerMember prev seeds (o' # os) =
     bind_result (check_fail (so_tokenIndex o' < tokensPerMember \<and> so_tokenSeed o' > 0
         \<and> so_tokenSeed o' < MAX_HASH_RING_TOKEN_SEEDS
         \<and> (case prev of None \<Rightarrow> True | Some p \<Rightarrow> so_tokenIndex o' > p)) K_INVALID) (\<lambda>_.
     bind_result (encode_overrides tokensPerMember (Some (so_tokenIndex o'))
         (seeds[unat (so_tokenIndex o') := so_tokenSeed o']) os) (\<lambda>(seeds', pbs).
       Inr (seeds', \<lparr>sop_token_index = so_tokenIndex o', sop_token_seed = so_tokenSeed o'\<rparr> # pbs)))"

definition EncodeTokenSeedOverrides :: "Member \<Rightarrow> u32 \<Rightarrow> TokenSeedOverridePb list result" where
  "EncodeTokenSeedOverrides member tokensPerMember =
     (if mb_state member = INITIAL then
        bind_result (check_fail (mb_tokens member = [] \<and> mb_tokenSeedOverrides member = []) K_INVALID) (\<lambda>_. Inr [])
      else
        bind_result (check_fail (tokensPerMember > 0 \<and> tokensPerMember \<le> MAX_HASH_RING_TOKENS_PER_MEMBER) K_INVALID) (\<lambda>_.
        bind_result (check_fail (length (mb_tokens member) = unat tokensPerMember) K_INVALID) (\<lambda>_.
        bind_result (encode_overrides tokensPerMember None (replicate (unat tokensPerMember) 0)
            (mb_tokenSeedOverrides member)) (\<lambda>(seeds, pbs).
        bind_result (check_fail (MakeHashRingTokens (mb_address member) seeds = mb_tokens member) K_INVALID) (\<lambda>_.
          Inr pbs)))))"

fun decode_seeds :: "u32 \<Rightarrow> u32 list \<Rightarrow> TokenSeedOverridePb list \<Rightarrow> u32 list result" where
  "decode_seeds tokensPerMember seeds [] = Inr seeds"
| "decode_seeds tokensPerMember seeds (p # ps) =
     bind_result (check_fail (sop_token_index p < tokensPerMember \<and> sop_token_seed p > 0
         \<and> sop_token_seed p < MAX_HASH_RING_TOKEN_SEEDS) K_INVALID) (\<lambda>_.
     bind_result (check_fail (seeds ! unat (sop_token_index p) = 0) K_INVALID) (\<lambda>_.
       decode_seeds tokensPerMember (seeds[unat (sop_token_index p) := sop_token_seed p]) ps))"

definition DecodeTokens :: "MembershipPb \<Rightarrow> u32 \<Rightarrow> Member \<Rightarrow> Member result" where
  "DecodeTokens memberPb tokensPerMember member =
     (if mb_state member = INITIAL then
        bind_result (check_fail (mp_token_seed_overrides memberPb = []) K_INVALID) (\<lambda>_.
          Inr (member\<lparr>mb_tokens := [], mb_tokenSeedOverrides := []\<rparr>))
      else
        bind_result (decode_seeds tokensPerMember (replicate (unat tokensPerMember) 0)
            (mp_token_seed_overrides memberPb)) (\<lambda>seeds.
          Inr (member\<lparr>
            mb_tokenSeedOverrides := concat (map (\<lambda>index. if seeds ! index > 0
               then [\<lparr>so_tokenIndex = of_nat index, so_tokenSeed = seeds ! index\<rparr>] else []) [0..<unat tokensPerMember]),
            mb_tokens := MakeHashRingTokens (mb_address member) seeds\<rparr>)))"

subsection \<open>Topology values\<close>

text \<open>The loop over the canonical members; the addresses are distinct, so each entry is a new one.\<close>

fun encode_members :: "u32 \<Rightarrow> nat \<Rightarrow> Member list \<Rightarrow> (string \<times> MembershipPb) list result" where
  "encode_members tokensPerMember tokenCount [] = Inr []"
| "encode_members tokensPerMember tokenCount (member # members) =
     bind_result (check_fail (tokenCount + length (mb_tokens member) \<le> MAX_TOPOLOGY_TOKENS) K_INVALID) (\<lambda>_.
     bind_result (EncodeTokenSeedOverrides member tokensPerMember) (\<lambda>overrides.
     bind_result (encode_members tokensPerMember (tokenCount + length (mb_tokens member)) members) (\<lambda>rest.
       Inr ((mb_address member, \<lparr>mp_id = mb_id member, mp_state = state_to_pb (mb_state member),
                                  mp_token_seed_overrides = overrides\<rparr>) # rest))))"

definition EncodeTopology :: "(string \<Rightarrow> bool) \<Rightarrow> (ClusterTopologyPb \<Rightarrow> string option) \<Rightarrow> TopologyState \<Rightarrow> string result" where
  "EncodeTopology hostPortOk serialize state =
     bind_result (ValidateAndCanonicalizeTopologyState hostPortOk state) (\<lambda>canonical.
     bind_result (check_fail (ts_tokensPerMember canonical > 0
         \<and> ts_tokensPerMember canonical \<le> MAX_HASH_RING_TOKENS_PER_MEMBER) K_INVALID) (\<lambda>_.
     bind_result (encode_members (ts_tokensPerMember canonical) 0 (ts_members canonical)) (\<lambda>members.
       SerializeCanonical serialize
         \<lparr>ctp_cluster_has_init = ts_clusterHasInit canonical,
          ctp_members = members,
          ctp_version = ts_version canonical,
          ctp_schema_version = SCHEMA_VERSION,
          ctp_active_batch = map_option (\<lambda>b. \<lparr>cbp_type = ToPbType (ab_type b), cbp_epoch = ab_epoch b\<rparr>)
                                (ts_activeBatch canonical),
          ctp_tokens_per_member = ts_tokensPerMember canonical\<rparr>)))"

fun count_token_members :: "(string \<times> MembershipPb) list \<Rightarrow> nat \<Rightarrow> nat result" where
  "count_token_members [] n = Inr n"
| "count_token_members ((address, memberPb) # rest) n =
     bind_result (check_fail (mp_state memberPb \<ge> 0 \<and> mp_state memberPb \<le> 5) K_INVALID) (\<lambda>_.
       count_token_members rest (if mp_state memberPb \<noteq> 0 then n + 1 else n))"

fun decode_members :: "u32 \<Rightarrow> nat \<Rightarrow> (string \<times> MembershipPb) list \<Rightarrow> Member list result" where
  "decode_members tokensPerMember tokenCount [] = Inr []"
| "decode_members tokensPerMember tokenCount ((address, memberPb) # rest) =
     bind_result (DecodeTokens memberPb tokensPerMember
        \<lparr>mb_identity = \<lparr>mi_id = mp_id memberPb, mi_address = address\<rparr>, mb_state = state_of_pb (mp_state memberPb),
         mb_tokens = [], mb_tokenSeedOverrides = []\<rparr>) (\<lambda>member.
     bind_result (check_fail (tokenCount + length (mb_tokens member) \<le> MAX_TOPOLOGY_TOKENS) K_INVALID) (\<lambda>_.
     bind_result (decode_members tokensPerMember (tokenCount + length (mb_tokens member)) rest) (\<lambda>members.
       Inr (member # members))))"

definition decode_batch :: "ChangeBatchPb option \<Rightarrow> ActiveBatch option result" where
  "decode_batch batch =
     (case batch of
        None \<Rightarrow> Inr None
      | Some b \<Rightarrow> bind_result (FromPbType (cbp_type b)) (\<lambda>type. Inr (Some \<lparr>ab_type = type, ab_epoch = cbp_epoch b\<rparr>)))"

definition DecodeTopology :: "(string \<Rightarrow> bool) \<Rightarrow> (string \<Rightarrow> ClusterTopologyPb option) \<Rightarrow> string \<Rightarrow> TopologyState result" where
  "DecodeTopology hostPortOk parse value =
     bind_result (check_fail (length value \<le> MAX_VALUE_BYTES) K_INVALID) (\<lambda>_.
     (case parse value of
        None \<Rightarrow> Inl K_INVALID
      | Some pb \<Rightarrow>
          bind_result (check_fail (ctp_schema_version pb = SCHEMA_VERSION) K_INVALID) (\<lambda>_.
          bind_result (check_fail (length (ctp_members pb) \<le> MAX_TOPOLOGY_MEMBERS) K_INVALID) (\<lambda>_.
          bind_result (check_fail (ctp_tokens_per_member pb > 0
              \<and> ctp_tokens_per_member pb \<le> MAX_HASH_RING_TOKENS_PER_MEMBER) K_INVALID) (\<lambda>_.
          bind_result (count_token_members (ctp_members pb) 0) (\<lambda>tokenMemberCount.
          bind_result (check_fail (tokenMemberCount \<le> MAX_TOPOLOGY_TOKENS div unat (ctp_tokens_per_member pb)) K_INVALID) (\<lambda>_.
          bind_result (decode_members (ctp_tokens_per_member pb) 0 (ctp_members pb)) (\<lambda>members.
          bind_result (decode_batch (ctp_active_batch pb)) (\<lambda>batch.
            ValidateAndCanonicalizeTopologyState hostPortOk
              \<lparr>ts_clusterHasInit = ctp_cluster_has_init pb, ts_version = ctp_version pb, ts_members = members,
               ts_activeBatch = batch, ts_tokensPerMember = ctp_tokens_per_member pb\<rparr>)))))))))"

subsection \<open>Task values\<close>

definition EncodeMigrateTask :: "(string \<Rightarrow> bool) \<Rightarrow> (MigrateTaskPb \<Rightarrow> string option) \<Rightarrow> TopologyMigrateTask \<Rightarrow> string result" where
  "EncodeMigrateTask hostPortOk serialize task =
     bind_result (ValidateTaskContext (mt_taskId task) CHR ''m'' (mt_epoch task)) (\<lambda>_.
     bind_result (ValidateMemberAddress hostPortOk (mt_targetAddress task)) (\<lambda>_.
     bind_result (ValidateMemberAddress hostPortOk (mt_executorAddress task)) (\<lambda>_.
     bind_result (check_fail (mt_epoch task > 0 \<and> IsCanonicalRanges (mt_sourceRanges task) (mt_executorAddress task)) K_INVALID) (\<lambda>_.
       SerializeCanonical serialize
         \<lparr>mtp_target_address = mt_targetAddress task, mtp_source_ranges = EncodeRanges (mt_sourceRanges task)\<rparr>))))"

definition DecodeMigrateTask :: "(string \<Rightarrow> bool) \<Rightarrow> (string \<Rightarrow> MigrateTaskPb option) \<Rightarrow> string \<Rightarrow> TopologyChangeType \<Rightarrow> u64
    \<Rightarrow> string \<Rightarrow> TopologyMigrateTask result" where
  "DecodeMigrateTask hostPortOk parse taskId type epoch value =
     bind_result (ValidateTaskContext taskId CHR ''m'' epoch) (\<lambda>_.
     bind_result (check_fail (epoch > 0 \<and> length value \<le> MAX_VALUE_BYTES) K_INVALID) (\<lambda>_.
     (case parse value of
        None \<Rightarrow> Inl K_INVALID
      | Some pb \<Rightarrow>
          bind_result (check_fail (mtp_target_address pb \<noteq> []) K_INVALID) (\<lambda>_.
          bind_result (ValidateMemberAddress hostPortOk (mtp_target_address pb)) (\<lambda>_.
          bind_result (DecodeRanges (mtp_source_ranges pb)) (\<lambda>(ranges, executor).
            Inr \<lparr>mt_taskId = taskId, mt_type = type, mt_epoch = epoch, mt_executorAddress = executor,
                 mt_targetAddress = mtp_target_address pb, mt_sourceRanges = ranges\<rparr>))))))"

definition EncodeDeleteTask :: "(string \<Rightarrow> bool) \<Rightarrow> (DeleteNodeTaskPb \<Rightarrow> string option) \<Rightarrow> TopologyDeleteTask \<Rightarrow> string result" where
  "EncodeDeleteTask hostPortOk serialize task =
     bind_result (ValidateTaskContext (dt_taskId task) CHR ''d'' (dt_epoch task)) (\<lambda>_.
     bind_result (ValidateMemberAddress hostPortOk (dt_failedAddress task)) (\<lambda>_.
     bind_result (ValidateMemberAddress hostPortOk (dt_executorAddress task)) (\<lambda>_.
     bind_result (check_fail (dt_epoch task > 0 \<and> IsCanonicalRanges (dt_recoveryRanges task) (dt_executorAddress task)) K_INVALID) (\<lambda>_.
       SerializeCanonical serialize
         \<lparr>dtp_failed_address = dt_failedAddress task, dtp_recovery_ranges = EncodeRanges (dt_recoveryRanges task)\<rparr>))))"

definition DecodeDeleteTask :: "(string \<Rightarrow> bool) \<Rightarrow> (string \<Rightarrow> DeleteNodeTaskPb option) \<Rightarrow> string \<Rightarrow> u64
    \<Rightarrow> string \<Rightarrow> TopologyDeleteTask result" where
  "DecodeDeleteTask hostPortOk parse taskId epoch value =
     bind_result (ValidateTaskContext taskId CHR ''d'' epoch) (\<lambda>_.
     bind_result (check_fail (epoch > 0 \<and> length value \<le> MAX_VALUE_BYTES) K_INVALID) (\<lambda>_.
     (case parse value of
        None \<Rightarrow> Inl K_INVALID
      | Some pb \<Rightarrow>
          bind_result (check_fail (dtp_failed_address pb \<noteq> []) K_INVALID) (\<lambda>_.
          bind_result (ValidateMemberAddress hostPortOk (dtp_failed_address pb)) (\<lambda>_.
          bind_result (DecodeRanges (dtp_recovery_ranges pb)) (\<lambda>(ranges, executor).
            Inr \<lparr>dt_taskId = taskId, dt_epoch = epoch, dt_executorAddress = executor,
                 dt_failedAddress = dtp_failed_address pb, dt_recoveryRanges = ranges\<rparr>))))))"

subsection \<open>Notifications\<close>

fun encode_task_ids :: "ActiveBatch option \<Rightarrow> string list \<Rightarrow> string list result" where
  "encode_task_ids batch [] = Inr []"
| "encode_task_ids batch (taskId # taskIds) =
     bind_result (ValidateTaskId taskId) (\<lambda>_.
     bind_result (check_fail (starts_with (if map_option ab_type batch = Some FAILURE then ''d-e'' else ''m-e'') taskId) K_INVALID) (\<lambda>_.
     bind_result (encode_task_ids batch taskIds) (\<lambda>rest. Inr (taskId # rest))))"

definition encode_batch :: "ActiveBatch option \<Rightarrow> ChangeBatchPb option result" where
  "encode_batch batch =
     (case batch of None \<Rightarrow> Inr None | Some b \<Rightarrow> bind_result (EncodeActiveBatch b) (\<lambda>pb. Inr (Some pb)))"

definition EncodeNotify :: "(string \<Rightarrow> bool) \<Rightarrow> (TaskNotifyPb \<Rightarrow> string option) \<Rightarrow> TopologyTaskNotify \<Rightarrow> string result" where
  "EncodeNotify hostPortOk serialize notify =
     bind_result (check_fail (sorted (tn_taskIds notify) \<and> distinct_adj (tn_taskIds notify)
         \<and> length (tn_taskIds notify) \<le> MAX_NOTIFY_TASK_REFS) K_INVALID) (\<lambda>_.
     bind_result (check_fail (tn_activeBatch notify \<noteq> None \<or> tn_taskIds notify = []) K_INVALID) (\<lambda>_.
     bind_result (ValidateRestartFacts hostPortOk (tn_restartTimestampsByAddress notify)) (\<lambda>_.
     bind_result (encode_batch (tn_activeBatch notify)) (\<lambda>batch.
     bind_result (encode_task_ids (tn_activeBatch notify) (tn_taskIds notify)) (\<lambda>taskIds.
     bind_result (SerializeCanonical serialize
         \<lparr>tnp_active_batch = batch, tnp_task_ids = taskIds,
          tnp_restart_timestamps_by_address = tn_restartTimestampsByAddress notify\<rparr>) (\<lambda>encoded.
     bind_result (check_fail (length encoded \<le> MAX_NOTIFY_VALUE_BYTES) K_INVALID) (\<lambda>_. Inr encoded)))))))"

definition ComposeNotify :: "(string \<Rightarrow> bool) \<Rightarrow> (TaskNotifyPb \<Rightarrow> string option) \<Rightarrow> TopologyTaskNotify \<Rightarrow> string \<Rightarrow> string result" where
  "ComposeNotify hostPortOk serialize taskNotify canonicalRestartNotify =
     bind_result (check_fail (tn_restartTimestampsByAddress taskNotify = []) K_INVALID) (\<lambda>_.
     bind_result (EncodeNotify hostPortOk serialize taskNotify) (\<lambda>encoded.
     bind_result (check_fail (length canonicalRestartNotify \<le> MAX_NOTIFY_VALUE_BYTES - length encoded) K_INVALID) (\<lambda>_.
       Inr (encoded @ canonicalRestartNotify))))"

text \<open>\<open>std::map::insert\<close> of a range keeps the entry that is already there.\<close>

definition insert_all :: "(string \<times> int) list \<Rightarrow> (string, int) omap" where
  "insert_all entries = foldl (\<lambda>m (k, v). if map_of m k = None then omap_set k v m else m) [] entries"

definition decode_active_batch :: "ChangeBatchPb option \<Rightarrow> ActiveBatch option result" where
  "decode_active_batch batch =
     (case batch of None \<Rightarrow> Inr None | Some b \<Rightarrow> bind_result (DecodeActiveBatch b) (\<lambda>ab. Inr (Some ab)))"

definition DecodeNotify :: "(string \<Rightarrow> bool) \<Rightarrow> (TaskNotifyPb \<Rightarrow> string option) \<Rightarrow> (string \<Rightarrow> TaskNotifyPb option) \<Rightarrow> string
    \<Rightarrow> TopologyTaskNotify result" where
  "DecodeNotify hostPortOk serialize parse value =
     bind_result (check_fail (length value \<le> MAX_NOTIFY_VALUE_BYTES) K_INVALID) (\<lambda>_.
     (case parse value of
        None \<Rightarrow> Inl K_INVALID
      | Some pb \<Rightarrow>
          bind_result (decode_active_batch (tnp_active_batch pb)) (\<lambda>batch.
          let decoded = \<lparr>tn_activeBatch = batch, tn_taskIds = tnp_task_ids pb,
                         tn_restartTimestampsByAddress = insert_all (tnp_restart_timestamps_by_address pb)\<rparr> in
          bind_result (EncodeNotify hostPortOk serialize decoded) (\<lambda>canonical.
          bind_result (check_fail (canonical = value) K_INVALID) (\<lambda>_. Inr decoded)))))"

subsection \<open>Token seeds survive the codec\<close>

definition overrides_ok :: "u32 \<Rightarrow> TokenSeedOverride list \<Rightarrow> bool" where
  "overrides_ok n os \<longleftrightarrow> sorted_wrt (<) (map so_tokenIndex os)
     \<and> (\<forall>o' \<in> set os. so_tokenIndex o' < n \<and> 0 < so_tokenSeed o' \<and> so_tokenSeed o' < MAX_HASH_RING_TOKEN_SEEDS)"

abbreviation set_seed :: "u32 list \<Rightarrow> TokenSeedOverride \<Rightarrow> u32 list" where
  "set_seed seeds o' \<equiv> seeds[unat (so_tokenIndex o') := so_tokenSeed o']"

abbreviation override_pb :: "TokenSeedOverride \<Rightarrow> TokenSeedOverridePb" where
  "override_pb o' \<equiv> \<lparr>sop_token_index = so_tokenIndex o', sop_token_seed = so_tokenSeed o'\<rparr>"

lemma overrides_ok_Cons:
  "overrides_ok n (o' # os) \<longleftrightarrow> so_tokenIndex o' < n \<and> 0 < so_tokenSeed o' \<and> so_tokenSeed o' < MAX_HASH_RING_TOKEN_SEEDS
     \<and> (\<forall>x \<in> set os. so_tokenIndex o' < so_tokenIndex x) \<and> overrides_ok n os"
  by (auto simp: overrides_ok_def)

lemma encode_overrides_ok:
  assumes "encode_overrides n prev seeds os = Inr (seeds', pbs)"
  shows "overrides_ok n os \<and> seeds' = foldl set_seed seeds os \<and> pbs = map override_pb os
    \<and> (\<forall>p. prev = Some p \<longrightarrow> (\<forall>o' \<in> set os. p < so_tokenIndex o'))"
  using assms
proof (induction os arbitrary: prev seeds pbs)
  case (Cons o' os)
  from Cons.prems obtain pbs' where
    run: "encode_overrides n (Some (so_tokenIndex o')) (set_seed seeds o') os = Inr (seeds', pbs')"
    and out: "pbs = override_pb o' # pbs'"
    and ok: "so_tokenIndex o' < n" "0 < so_tokenSeed o'" "so_tokenSeed o' < MAX_HASH_RING_TOKEN_SEEDS"
      "\<forall>p. prev = Some p \<longrightarrow> p < so_tokenIndex o'"
    by (auto simp: bind_result_Inr split: option.splits if_splits)
  from Cons.IH [OF run] ok out show ?case
    by (auto simp: overrides_ok_Cons intro: less_trans)
qed (simp add: overrides_ok_def)

lemma decode_seeds_ok:
  assumes "overrides_ok n os" "\<forall>o' \<in> set os. seeds ! unat (so_tokenIndex o') = 0"
  shows "decode_seeds n seeds (map override_pb os) = Inr (foldl set_seed seeds os)"
  using assms
proof (induction os arbitrary: seeds)
  case (Cons o' os)
  have "unat (so_tokenIndex o') \<noteq> unat (so_tokenIndex x)" if "x \<in> set os" for x
    using Cons.prems(1) that by (auto simp: overrides_ok_Cons word_less_nat_alt)
  then have "\<forall>x \<in> set os. set_seed seeds o' ! unat (so_tokenIndex x) = 0"
    using Cons.prems(2) by simp
  then show ?case using Cons by (simp add: overrides_ok_Cons)
qed simp

lemma length_apply_overrides [simp]: "length (apply_overrides n os) = n"
  by (induction os rule: rev_induct) (simp_all add: apply_overrides_def)

lemma nth_apply_overrides:
  assumes "distinct (map so_tokenIndex os)" "\<forall>o' \<in> set os. 0 < so_tokenSeed o'" "i < n"
  shows "apply_overrides n os ! i = s \<and> 0 < s
    \<longleftrightarrow> (\<exists>o' \<in> set os. unat (so_tokenIndex o') = i \<and> so_tokenSeed o' = s)"
  using assms
proof (induction os rule: rev_induct)
  case (snoc o' os)
  have step: "apply_overrides n (os @ [o']) = set_seed (apply_overrides n os) o'"
    by (simp add: apply_overrides_def)
  show ?case
  proof (cases "unat (so_tokenIndex o') = i")
    case True
    then have "\<forall>x \<in> set os. unat (so_tokenIndex x) \<noteq> i"
      using snoc.prems(1) by (auto simp: image_iff) (metis unsigned_word_eqI)
    then show ?thesis using True snoc.prems step by auto
  qed (use snoc step in auto)
qed (simp add: apply_overrides_def)

lemma strict_key_unique:
  fixes f :: "'a \<Rightarrow> 'b::linorder"
  assumes "sorted_wrt (<) (map f xs)" "sorted_wrt (<) (map f ys)" "set xs = set ys"
  shows "xs = ys"
proof -
  have "map f xs = map f ys" using assms by (intro strict_sorted_equal) simp_all
  moreover have "inj_on f (set xs \<union> set ys)"
    using assms by (simp add: strict_sorted_iff distinct_map)
  ultimately show ?thesis by (rule map_inj_on)
qed

text \<open>Reading the seeds slot by slot gives the overrides back in their order.\<close>

lemma rebuild_overrides:
  fixes n :: u32 and os :: "TokenSeedOverride list"
  assumes ok: "overrides_ok n os"
  defines "seeds \<equiv> apply_overrides (unat n) os"
  shows "concat (map (\<lambda>index. if seeds ! index > 0
     then [\<lparr>so_tokenIndex = of_nat index, so_tokenSeed = seeds ! index\<rparr>] else []) [0..<unat n]) = os"
    (is "?rebuilt = os")
proof -
  have bound: "length seeds \<le> 2 ^ 32" using unsigned_less [of n, where ?'a = nat] by (simp add: seeds_def)
  have "?rebuilt = overrides_of (map of_nat [0..<length seeds]) seeds"
    by (auto simp: overrides_of_def override_for_def seeds_def intro!: arg_cong [where f = concat] nth_equalityI)
  then have sorted: "sorted_wrt (<) (map so_tokenIndex ?rebuilt)" using override_indexes [OF bound] by simp
  have os: "sorted_wrt (<) (map so_tokenIndex os)" "distinct (map so_tokenIndex os)"
    "\<forall>o' \<in> set os. 0 < so_tokenSeed o'" "\<forall>o' \<in> set os. so_tokenIndex o' < n"
    using ok by (auto simp: overrides_ok_def strict_sorted_iff)
  have slot: "seeds ! i = s \<and> 0 < s \<longleftrightarrow> (\<exists>o' \<in> set os. unat (so_tokenIndex o') = i \<and> so_tokenSeed o' = s)"
    if "i < unat n" for i s using nth_apply_overrides [OF os(2,3) that] by (simp add: seeds_def)
  have mem: "x \<in> set ?rebuilt \<longleftrightarrow> (\<exists>i < unat n. seeds ! i > 0 \<and> x = \<lparr>so_tokenIndex = of_nat i, so_tokenSeed = seeds ! i\<rparr>)" for x
    by auto
  have "x \<in> set ?rebuilt \<longleftrightarrow> x \<in> set os" for x
  proof
    assume "x \<in> set ?rebuilt"
    then obtain i where i: "i < unat n" "seeds ! i > 0" "x = \<lparr>so_tokenIndex = of_nat i, so_tokenSeed = seeds ! i\<rparr>"
      unfolding mem by blast
    then obtain o' where "o' \<in> set os" "unat (so_tokenIndex o') = i" "so_tokenSeed o' = seeds ! i"
      using slot [OF i(1), of "seeds ! i"] by blast
    moreover from this have "x = o'" using i(3) by (intro TokenSeedOverride.equality) auto
    ultimately show "x \<in> set os" by simp
  next
    assume x: "x \<in> set os"
    then have "unat (so_tokenIndex x) < unat n" using os(4) by (simp add: word_less_nat_alt)
    moreover from slot [OF this, of "so_tokenSeed x"] x
    have "seeds ! unat (so_tokenIndex x) = so_tokenSeed x \<and> 0 < so_tokenSeed x" by blast
    ultimately show "x \<in> set ?rebuilt" unfolding mem by (intro exI [of _ "unat (so_tokenIndex x)"]) simp
  qed
  then show ?thesis using strict_key_unique [OF sorted os(1)] by blast
qed

lemma state_round_trip [simp]: "state_of_pb (state_to_pb s) = s"
  by (cases s) (simp_all add: state_of_pb_def)

lemma state_to_pb_range [simp]: "0 \<le> state_to_pb s" "state_to_pb s \<le> 5" "state_to_pb s = 0 \<longleftrightarrow> s = INITIAL"
  by (cases s; simp)+

lemma FromPbType_ToPbType [simp]: "FromPbType (ToPbType t) = Inr t"
  by (cases t) (simp_all add: FromPbType_def)

abbreviation member_pb :: "Member \<Rightarrow> TokenSeedOverridePb list \<Rightarrow> MembershipPb" where
  "member_pb m pbs \<equiv> \<lparr>mp_id = mb_id m, mp_state = state_to_pb (mb_state m), mp_token_seed_overrides = pbs\<rparr>"

abbreviation bare_member :: "Member \<Rightarrow> Member" where
  "bare_member m \<equiv> \<lparr>mb_identity = \<lparr>mi_id = mb_id m, mi_address = mb_address m\<rparr>, mb_state = mb_state m,
                    mb_tokens = [], mb_tokenSeedOverrides = []\<rparr>"

lemma token_round_trip:
  assumes "EncodeTokenSeedOverrides m n = Inr pbs"
  shows "DecodeTokens (member_pb m pbs) n (bare_member m) = Inr m
    \<and> length (mb_tokens m) = (if mb_state m = INITIAL then 0 else unat n)"
proof (cases "mb_state m = INITIAL")
  case True
  then show ?thesis using assms by (auto simp: EncodeTokenSeedOverrides_def DecodeTokens_def split: if_splits)
next
  case False
  obtain seeds where run: "encode_overrides n None (replicate (unat n) 0) (mb_tokenSeedOverrides m) = Inr (seeds, pbs)"
    and tokens: "MakeHashRingTokens (mb_address m) seeds = mb_tokens m" "length (mb_tokens m) = unat n"
    using assms False by (auto simp: EncodeTokenSeedOverrides_def bind_result_Inr split: if_splits prod.splits)
  let ?os = "mb_tokenSeedOverrides m"
  have enc: "overrides_ok n ?os" "seeds = apply_overrides (unat n) ?os" "pbs = map override_pb ?os"
    using encode_overrides_ok [OF run] by (simp_all add: apply_overrides_def)
  have "\<forall>o' \<in> set ?os. replicate (unat n) (0 :: u32) ! unat (so_tokenIndex o') = 0"
    using enc(1) by (auto simp: overrides_ok_def word_less_nat_alt)
  from decode_seeds_ok [OF enc(1) this] have "decode_seeds n (replicate (unat n) 0) pbs = Inr seeds"
    using enc by (simp add: apply_overrides_def)
  then show ?thesis
    using False tokens rebuild_overrides [OF enc(1)] by (simp add: DecodeTokens_def enc(2))
qed

subsection \<open>Topology values survive the codec\<close>

definition entry_of :: "u32 \<Rightarrow> Member \<Rightarrow> string \<times> MembershipPb \<Rightarrow> bool" where
  "entry_of n m e \<longleftrightarrow> (\<exists>pbs. e = (mb_address m, member_pb m pbs) \<and> EncodeTokenSeedOverrides m n = Inr pbs)"

definition token_total :: "Member list \<Rightarrow> nat" where
  "token_total ms = sum_list (map (length \<circ> mb_tokens) ms)"

lemma encode_members_ok:
  assumes "encode_members n c ms = Inr es" "c \<le> MAX_TOPOLOGY_TOKENS"
  shows "list_all2 (entry_of n) ms es \<and> c + token_total ms \<le> MAX_TOPOLOGY_TOKENS"
  using assms
proof (induction ms arbitrary: c es)
  case (Cons m ms)
  from Cons.prems(1) obtain pbs rest where
    le: "c + length (mb_tokens m) \<le> MAX_TOPOLOGY_TOKENS" and pbs: "EncodeTokenSeedOverrides m n = Inr pbs"
    and rest: "encode_members n (c + length (mb_tokens m)) ms = Inr rest"
    and es: "es = (mb_address m, member_pb m pbs) # rest"
    by (auto simp: bind_result_Inr split: if_splits)
  from Cons.IH [OF rest le] pbs es show ?case by (simp add: entry_of_def token_total_def add.assoc)
qed (simp add: token_total_def)

lemma decode_members_ok:
  assumes "list_all2 (entry_of n) ms es" "c + token_total ms \<le> MAX_TOPOLOGY_TOKENS"
  shows "decode_members n c es = Inr ms"
  using assms
proof (induction arbitrary: c rule: list_all2_induct)
  case (Cons m ms e es)
  then obtain pbs where "e = (mb_address m, member_pb m pbs)" "EncodeTokenSeedOverrides m n = Inr pbs"
    by (auto simp: entry_of_def)
  with Cons token_round_trip show ?case by (simp add: token_total_def add.assoc)
qed simp

lemma count_token_members_ok:
  assumes "list_all2 (entry_of n) ms es"
  shows "count_token_members es k = Inr (k + length (filter (\<lambda>m. mb_state m \<noteq> INITIAL) ms))"
  using assms by (induction arbitrary: k rule: list_all2_induct) (auto simp: entry_of_def)

lemma token_total_eq:
  assumes "list_all2 (entry_of n) ms es"
  shows "token_total ms = length (filter (\<lambda>m. mb_state m \<noteq> INITIAL) ms) * unat n"
  using assms
proof (induction rule: list_all2_induct)
  case (Cons m ms e es)
  then obtain pbs where "EncodeTokenSeedOverrides m n = Inr pbs" by (auto simp: entry_of_def)
  with Cons(3) token_round_trip show ?case by (auto simp: token_total_def)
qed (simp add: token_total_def)

text \<open>
  What the codec relies on: parsing a serialized message gives a message with the same fields, the
  entries of a map field in any order.
\<close>

definition topology_pb_round_trip :: "(ClusterTopologyPb \<Rightarrow> string option) \<Rightarrow> (string \<Rightarrow> ClusterTopologyPb option) \<Rightarrow> bool" where
  "topology_pb_round_trip serialize parse \<longleftrightarrow>
     (\<forall>pb v. serialize pb = Some v \<longrightarrow> distinct (map fst (ctp_members pb)) \<longrightarrow>
        (\<exists>entries. mset entries = mset (ctp_members pb) \<and> parse v = Some (pb\<lparr>ctp_members := entries\<rparr>)))"

lemma reorder_entries:
  assumes "list_all2 (entry_of n) ms es" "mset es' = mset es"
  shows "\<exists>ms'. list_all2 (entry_of n) ms' es' \<and> mset ms' = mset ms"
proof -
  have "list_all2 (\<lambda>e m. entry_of n m e) es ms" using assms(1) by (simp add: list_all2_conv_all_nth)
  from list_all2_reorder_left_invariance [OF this assms(2)] show ?thesis by (auto simp: list_all2_conv_all_nth)
qed

lemma token_total_perm: "mset ms' = mset ms \<Longrightarrow> token_total ms' = token_total ms"
  unfolding token_total_def by (metis mset_map sum_mset_sum_list)

lemma token_members_bound:
  assumes "list_all2 (entry_of n) ms es" "token_total ms \<le> MAX_TOPOLOGY_TOKENS" "0 < n"
  shows "length (filter (\<lambda>m. mb_state m \<noteq> INITIAL) ms) \<le> MAX_TOPOLOGY_TOKENS div unat n"
proof -
  have "unat n > 0" using assms(3) by (simp add: word_less_nat_alt)
  then show ?thesis using assms(2) token_total_eq [OF assms(1)] by (simp add: less_eq_div_iff_mult_less_eq)
qed

lemma decode_batch_ok:
  "decode_batch (map_option (\<lambda>b. \<lparr>cbp_type = ToPbType (ab_type b), cbp_epoch = ab_epoch b\<rparr>) batch) = Inr batch"
  by (cases batch) (simp_all add: decode_batch_def)

lemma entry_addresses:
  assumes "list_all2 (entry_of n) ms es"
  shows "map fst es = map mb_address ms"
  using assms by (induction rule: list_all2_induct) (auto simp: entry_of_def)

subsection \<open>Task and notification values survive the codec\<close>

lemma DecodeRanges_EncodeRanges:
  assumes "IsCanonicalRanges rs executor"
  shows "DecodeRanges (EncodeRanges rs) = Inr (rs, executor)"
proof -
  have decoded: "map (\<lambda>p. \<lparr>ttr_ownerAddress = trp_owner_address p,
                     ttr_range = \<lparr>rng_from = trp_from p, rng_end = trp_end p\<rparr>, ttr_finished = trp_finished p\<rparr>) (EncodeRanges rs) = rs"
    by (auto simp: EncodeRanges_def intro!: map_idI TopologyTaskRange.equality TokenRange.equality)
  have "rs \<noteq> []" "length rs \<le> MAX_TOPOLOGY_TASK_RANGES" "ttr_ownerAddress (hd rs) = executor"
    using assms by (cases rs; simp add: IsCanonicalRanges_def)+
  moreover have "EncodeRanges rs \<noteq> []" "length (EncodeRanges rs) \<le> MAX_TOPOLOGY_TASK_RANGES"
    using calculation by (simp_all add: EncodeRanges_def)
  ultimately show ?thesis using assms by (simp add: DecodeRanges_def decoded)
qed

lemma ValidateMemberAddress_eq: "ValidateMemberAddress hp a = (if a \<noteq> [] \<and> hp a then Inr () else Inl K_INVALID)"
  by (simp add: ValidateMemberAddress_def NotifyKey_def ValidateKeyAddress_def)

lemma SerializeCanonical_ok:
  "SerializeCanonical serialize pb = Inr v \<Longrightarrow> serialize pb = Some v \<and> length v \<le> MAX_VALUE_BYTES"
  by (auto simp: SerializeCanonical_def split: option.splits if_splits)

lemma migrate_task_round_trip:
  assumes pb: "\<And>pb v. serialize pb = Some v \<Longrightarrow> parse v = Some pb" and enc: "EncodeMigrateTask hp serialize task = Inr v"
  shows "DecodeMigrateTask hp parse (mt_taskId task) (mt_type task) (mt_epoch task) v = Inr task"
proof -
  have "SerializeCanonical serialize \<lparr>mtp_target_address = mt_targetAddress task, mtp_source_ranges = EncodeRanges (mt_sourceRanges task)\<rparr> = Inr v"
    using enc by (auto simp: EncodeMigrateTask_def bind_result_Inr split: if_splits)
  from SerializeCanonical_ok [OF this] pb show ?thesis
    using enc by (auto simp: EncodeMigrateTask_def DecodeMigrateTask_def bind_result_Inr ValidateMemberAddress_eq
        DecodeRanges_EncodeRanges split: if_splits)
qed

lemma delete_task_round_trip:
  assumes pb: "\<And>pb v. serialize pb = Some v \<Longrightarrow> parse v = Some pb" and enc: "EncodeDeleteTask hp serialize task = Inr v"
  shows "DecodeDeleteTask hp parse (dt_taskId task) (dt_epoch task) v = Inr task"
proof -
  have "SerializeCanonical serialize \<lparr>dtp_failed_address = dt_failedAddress task, dtp_recovery_ranges = EncodeRanges (dt_recoveryRanges task)\<rparr> = Inr v"
    using enc by (auto simp: EncodeDeleteTask_def bind_result_Inr split: if_splits)
  from SerializeCanonical_ok [OF this] pb show ?thesis
    using enc by (auto simp: EncodeDeleteTask_def DecodeDeleteTask_def bind_result_Inr ValidateMemberAddress_eq
        DecodeRanges_EncodeRanges split: if_splits)
qed

lemma insert_all_spec:
  "omap_ok (insert_all es) \<and> (distinct (map fst es) \<longrightarrow> map_of (insert_all es) = map_of es)"
proof (induction es rule: rev_induct)
  case (snoc e es)
  obtain k v where e: "e = (k, v)" by (cases e)
  have step: "insert_all (es @ [e]) = (if map_of (insert_all es) k = None then omap_set k v (insert_all es) else insert_all es)"
    by (simp add: insert_all_def e)
  have "map_of (es @ [(k, v)]) = (map_of es)(k \<mapsto> v)" if "k \<notin> fst ` set es"
    using iffD2 [OF map_of_eq_None_iff that] by (auto simp: map_add_def fun_eq_iff split: option.splits)
  moreover have "map_of (insert_all es) k = None" if "distinct (map fst es)" "k \<notin> fst ` set es"
    using snoc that by (simp add: map_of_eq_None_iff)
  ultimately show ?case using snoc step e by auto
qed (simp add: insert_all_def)

lemma insert_all_perm:
  assumes "omap_ok m" "mset es = mset m"
  shows "insert_all es = m"
proof -
  have d: "distinct (map fst es)" "distinct (map fst m)"
    using mset_eq_imp_distinct_iff [of "map fst es" "map fst m"] assms omap_ok_distinct [OF assms(1)] by simp_all
  have "map_of es = map_of m"
    using d mset_eq_setD [OF assms(2)] by (simp add: map_of_inject_set)
  then show ?thesis using insert_all_spec [of es] d(1) assms(1) by (intro omap_eqI) simp_all
qed

lemma encode_task_ids_id: "encode_task_ids batch ids = Inr ids' \<Longrightarrow> ids' = ids"
  by (induction ids arbitrary: ids') (auto simp: bind_result_Inr split: if_splits)

lemma decode_encoded_batch: "encode_batch b = Inr pb \<Longrightarrow> decode_active_batch pb = Inr b"
  by (auto simp: encode_batch_def decode_active_batch_def EncodeActiveBatch_def DecodeActiveBatch_def
      split: option.splits if_splits)

lemma notify_round_trip:
  assumes pb: "\<And>pb v. serialize pb = Some v \<Longrightarrow> \<exists>es. mset es = mset (tnp_restart_timestamps_by_address pb)
      \<and> parse v = Some (pb\<lparr>tnp_restart_timestamps_by_address := es\<rparr>)"
    and ok: "omap_ok (tn_restartTimestampsByAddress notify)" and enc: "EncodeNotify hp serialize notify = Inr v"
  shows "DecodeNotify hp serialize parse v = Inr notify"
proof -
  obtain batch where run: "encode_batch (tn_activeBatch notify) = Inr batch"
    "SerializeCanonical serialize \<lparr>tnp_active_batch = batch, tnp_task_ids = tn_taskIds notify,
       tnp_restart_timestamps_by_address = tn_restartTimestampsByAddress notify\<rparr> = Inr v" "length v \<le> MAX_NOTIFY_VALUE_BYTES"
    using enc by (auto simp: EncodeNotify_def bind_result_Inr dest: encode_task_ids_id split: if_splits)
  then have "serialize \<lparr>tnp_active_batch = batch, tnp_task_ids = tn_taskIds notify,
       tnp_restart_timestamps_by_address = tn_restartTimestampsByAddress notify\<rparr> = Some v"
    using SerializeCanonical_ok [OF run(2)] by simp
  from pb [OF this] obtain es where es: "mset es = mset (tn_restartTimestampsByAddress notify)"
    "parse v = Some \<lparr>tnp_active_batch = batch, tnp_task_ids = tn_taskIds notify, tnp_restart_timestamps_by_address = es\<rparr>"
    by auto
  have eta: "\<lparr>tn_activeBatch = tn_activeBatch notify, tn_taskIds = tn_taskIds notify,
      tn_restartTimestampsByAddress = tn_restartTimestampsByAddress notify\<rparr> = notify" by simp
  show ?thesis
    using decode_encoded_batch [OF run(1)] insert_all_perm [OF ok es(1)] run(3) enc
    by (simp add: DecodeNotify_def es(2) Let_def eta)
qed

lemma published_pb:
  assumes protobuf: "topology_pb_round_trip serialize parse"
    and encoded: "EncodeTopology hp serialize st = Inr v"
  obtains c es ms where "ValidateAndCanonicalizeTopologyState hp st = Inr c" "length v \<le> MAX_VALUE_BYTES"
    "parse v = Some \<lparr>ctp_cluster_has_init = ts_clusterHasInit c, ctp_members = es, ctp_version = ts_version c,
        ctp_schema_version = SCHEMA_VERSION,
        ctp_active_batch = map_option (\<lambda>b. \<lparr>cbp_type = ToPbType (ab_type b), cbp_epoch = ab_epoch b\<rparr>) (ts_activeBatch c),
        ctp_tokens_per_member = ts_tokensPerMember c\<rparr>"
    "list_all2 (entry_of (ts_tokensPerMember c)) ms es" "mset ms = mset (ts_members c)"
    "token_total ms \<le> MAX_TOPOLOGY_TOKENS"
    "0 < ts_tokensPerMember c" "ts_tokensPerMember c \<le> MAX_HASH_RING_TOKENS_PER_MEMBER"
proof -
  obtain c es where c: "ValidateAndCanonicalizeTopologyState hp st = Inr c"
    and n: "0 < ts_tokensPerMember c" "ts_tokensPerMember c \<le> MAX_HASH_RING_TOKENS_PER_MEMBER"
    and es: "encode_members (ts_tokensPerMember c) 0 (ts_members c) = Inr es"
    and ser: "SerializeCanonical serialize
         \<lparr>ctp_cluster_has_init = ts_clusterHasInit c, ctp_members = es, ctp_version = ts_version c,
          ctp_schema_version = SCHEMA_VERSION,
          ctp_active_batch = map_option (\<lambda>b. \<lparr>cbp_type = ToPbType (ab_type b), cbp_epoch = ab_epoch b\<rparr>) (ts_activeBatch c),
          ctp_tokens_per_member = ts_tokensPerMember c\<rparr> = Inr v" (is "SerializeCanonical serialize ?pb = _")
    using encoded by (auto simp: EncodeTopology_def bind_result_Inr split: if_splits)
  have v: "serialize ?pb = Some v" "length v \<le> MAX_VALUE_BYTES"
    using SerializeCanonical_ok [OF ser] by simp_all
  have rel: "list_all2 (entry_of (ts_tokensPerMember c)) (ts_members c) es" "token_total (ts_members c) \<le> MAX_TOPOLOGY_TOKENS"
    using encode_members_ok [OF es] by simp_all
  have "distinct (map fst es)"
    using entry_addresses [OF rel(1)] canonicalize_idem [OF c] by (simp add: strict_sorted_iff)
  then obtain es' where es': "mset es' = mset es" "parse v = Some (?pb\<lparr>ctp_members := es'\<rparr>)"
    using protobuf [unfolded topology_pb_round_trip_def, rule_format, OF v(1)] by auto
  from reorder_entries [OF rel(1) es'(1)] obtain ms where
    ms: "list_all2 (entry_of (ts_tokensPerMember c)) ms es'" "mset ms = mset (ts_members c)" by auto
  show thesis
    using that [OF c v(2) _ ms _ n] es'(2) rel(2) token_total_perm [OF ms(2)] by simp
qed

text \<open>
  C30. A stored topology is read back as its canonical form. When EncodeTopology accepts a topology,
  the topology is well-formed, and DecodeTopology of the value returns exactly its canonical form,
  whatever the order in which protobuf iterates over the members: identities, states, seed overrides,
  rebuilt tokens, version and batch. The one exception is a topology with more than
  MAX_TOPOLOGY_MEMBERS members: EncodeTopology does not bound their number, and DecodeTopology
  refuses the value it wrote.
\<close>

theorem topology_value_round_trip:
  assumes protobuf: "topology_pb_round_trip serialize parse"
    and encoded: "EncodeTopology hp serialize st = Inr v"
  shows "\<exists>canonical. ValidateAndCanonicalizeTopologyState hp st = Inr canonical
    \<and> DecodeTopology hp parse v =
        (if length (ts_members st) \<le> MAX_TOPOLOGY_MEMBERS then Inr canonical else Inl K_INVALID)"
proof -
  obtain c es ms where c: "ValidateAndCanonicalizeTopologyState hp st = Inr c" and v: "length v \<le> MAX_VALUE_BYTES"
    and pb: "parse v = Some \<lparr>ctp_cluster_has_init = ts_clusterHasInit c, ctp_members = es, ctp_version = ts_version c,
        ctp_schema_version = SCHEMA_VERSION,
        ctp_active_batch = map_option (\<lambda>b. \<lparr>cbp_type = ToPbType (ab_type b), cbp_epoch = ab_epoch b\<rparr>) (ts_activeBatch c),
        ctp_tokens_per_member = ts_tokensPerMember c\<rparr>"
    and ms: "list_all2 (entry_of (ts_tokensPerMember c)) ms es" "mset ms = mset (ts_members c)"
      "token_total ms \<le> MAX_TOPOLOGY_TOKENS"
    and n: "0 < ts_tokensPerMember c" "ts_tokensPerMember c \<le> MAX_HASH_RING_TOKENS_PER_MEMBER"
    by (rule published_pb [OF assms])
  note canonical = canonicalize_idem [OF c]
  have size: "length es = length (ts_members st)"
    using list_all2_lengthD [OF ms(1)] mset_eq_length [OF ms(2)] mset_eq_length [of "ts_members c" "ts_members st"]
      canonical by simp
  have "ValidateAndCanonicalizeTopologyState hp (c\<lparr>ts_members := ms\<rparr>) = Inr c"
    using canonicalize_perm [OF ms(2)] canonical by simp
  moreover have "c\<lparr>ts_members := ms\<rparr> = \<lparr>ts_clusterHasInit = ts_clusterHasInit c, ts_version = ts_version c,
      ts_members = ms, ts_activeBatch = ts_activeBatch c, ts_tokensPerMember = ts_tokensPerMember c\<rparr>" by simp
  ultimately have "DecodeTopology hp parse v =
      (if length (ts_members st) \<le> MAX_TOPOLOGY_MEMBERS then Inr c else Inl K_INVALID)"
    using v n size decode_members_ok [OF ms(1), of 0] ms(3) count_token_members_ok [OF ms(1), of 0] token_members_bound [OF ms(1,3) n(1)]
    by (simp add: DecodeTopology_def pb decode_batch_ok)
  with c show ?thesis by blast
qed

definition codec_state :: TopologyState where
  "codec_state = \<lparr>ts_clusterHasInit = True, ts_version = 7,
     ts_members = [
       \<lparr>mb_identity = \<lparr>mi_id = ''fedcba9876543210'', mi_address = ''b:1''\<rparr>, mb_state = INITIAL, mb_tokens = [],
        mb_tokenSeedOverrides = []\<rparr>,
       \<lparr>mb_identity = \<lparr>mi_id = ''0123456789abcdef'', mi_address = ''a:1''\<rparr>, mb_state = ACTIVE,
        mb_tokens = MakeHashRingTokens ''a:1'' [0, 9],
        mb_tokenSeedOverrides = [\<lparr>so_tokenIndex = 1, so_tokenSeed = 9\<rparr>]\<rparr>],
     ts_activeBatch = None, ts_tokensPerMember = 2\<rparr>"

definition codec_pb :: ClusterTopologyPb where
  "codec_pb = \<lparr>ctp_cluster_has_init = True,
     ctp_members = [
       (''a:1'', \<lparr>mp_id = ''0123456789abcdef'', mp_state = 2,
                mp_token_seed_overrides = [\<lparr>sop_token_index = 1, sop_token_seed = 9\<rparr>]\<rparr>),
       (''b:1'', \<lparr>mp_id = ''fedcba9876543210'', mp_state = 0, mp_token_seed_overrides = []\<rparr>)],
     ctp_version = 7, ctp_schema_version = ''2'', ctp_active_batch = None, ctp_tokens_per_member = 2\<rparr>"

definition codec_serialize :: "ClusterTopologyPb \<Rightarrow> string option" where
  "codec_serialize pb = (if pb = codec_pb then Some ''v'' else None)"

definition codec_parse :: "string \<Rightarrow> ClusterTopologyPb option" where
  "codec_parse v = (if v = ''v'' then Some (codec_pb\<lparr>ctp_members := rev (ctp_members codec_pb)\<rparr>) else None)"

lemma codec_round_trip: "topology_pb_round_trip codec_serialize codec_parse"
  unfolding topology_pb_round_trip_def codec_serialize_def codec_parse_def
  by (auto simp: codec_pb_def intro!: exI [of _ "rev (ctp_members codec_pb)"])

lemma codec_encodes:
  assumes "ValidateAndCanonicalizeTopologyState hp codec_state = Inr (codec_state\<lparr>ts_members := rev (ts_members codec_state)\<rparr>)"
  shows "EncodeTopology hp codec_serialize codec_state = Inr ''v''"
proof -
  have tokens: "map (\<lambda>m. EncodeTokenSeedOverrides m 2) (ts_members codec_state)
      = [Inr [], Inr [\<lparr>sop_token_index = 1, sop_token_seed = 9\<rparr>]]"
    "map (length \<circ> mb_tokens) (ts_members codec_state) = [0, 2]" by code_simp+
  then show ?thesis
    by (simp add: EncodeTopology_def assms)
      (simp add: codec_state_def SerializeCanonical_def codec_serialize_def codec_pb_def SCHEMA_VERSION_def
        MAX_TOPOLOGY_TOKENS_def MAX_VALUE_BYTES_def MAX_HASH_RING_TOKENS_PER_MEMBER_def)
qed

theorem topology_value_round_trip_witness:
  "topology_pb_round_trip codec_serialize codec_parse
   \<and> EncodeTopology (\<lambda>_. True) codec_serialize codec_state = Inr ''v''
   \<and> DecodeTopology (\<lambda>_. True) codec_parse ''v'' = Inr (codec_state\<lparr>ts_members := rev (ts_members codec_state)\<rparr>)"
proof -
  have can: "ValidateAndCanonicalizeTopologyState (\<lambda>_. True) codec_state
      = Inr (codec_state\<lparr>ts_members := rev (ts_members codec_state)\<rparr>)" by code_simp
  note enc = codec_encodes [OF can]
  have "length (ts_members codec_state) \<le> MAX_TOPOLOGY_MEMBERS" by (simp add: codec_state_def MAX_TOPOLOGY_MEMBERS_def)
  then show ?thesis using topology_value_round_trip [OF codec_round_trip enc] codec_round_trip enc can by auto
qed

end
