(* ===== verification/ClientRouting.thy ===== *)
theory ClientRouting
  imports RepositoryCodec
begin

section \<open>Worker routing in the client\<close>

text \<open>
  Models src/datasystem/client/object_cache/routing/worker_router.{h,cpp}, state_filter.cpp and
  broken_filter.{h,cpp}, and the class HostPort of src/datasystem/common/util/net_util.h: the token
  index the client builds from the topology message, the filter chain and the selection of a worker
  for a key. Parsing of an address (\<open>parse\<close>, regular expressions of a library) and the filters that
  a client adds to the chain (\<open>extra\<close>) are parameters; the clock is the argument \<open>now\<close>, in
  nanoseconds. The router is the one built without a bandwidth scheduler, and the registry of UB
  health, which this code only notifies, is left out.
\<close>

subsection \<open>Addresses and status codes\<close>

definition K_CLIENT_WORKER_DISCONNECT :: StatusCode where "K_CLIENT_WORKER_DISCONNECT = K_OTHER 23"
definition K_SCALE_DOWN :: StatusCode where "K_SCALE_DOWN = K_OTHER 31"
definition K_NO_AVAILABLE_WORKER :: StatusCode where "K_NO_AVAILABLE_WORKER = K_OTHER 37"
definition K_RPC_PEER_DEAD :: StatusCode where "K_RPC_PEER_DEAD = K_OTHER 1011"

record HostPort =
  hp_host :: string
  hp_port :: int
  hp_isIPv6 :: bool

definition hp_eq :: "HostPort \<Rightarrow> HostPort \<Rightarrow> bool" where
  "hp_eq a b \<longleftrightarrow> hp_host a = hp_host b \<and> hp_port a = hp_port b"

definition int_to_string :: "int \<Rightarrow> string" where
  "int_to_string i = (if i < 0 then ''-'' @ decimal (nat (- i)) else decimal (nat i))"

definition ToString :: "HostPort \<Rightarrow> string" where
  "ToString h =
     (if hp_host h = [] \<and> hp_port h = -1 then []
      else if \<not> hp_isIPv6 h then hp_host h @ '':'' @ int_to_string (hp_port h)
      else ''['' @ hp_host h @ '']:'' @ int_to_string (hp_port h))"

text \<open>The test of the topology code on an address: it parses, and to the same text.\<close>

definition canonical_address :: "(string \<Rightarrow> HostPort option) \<Rightarrow> string \<Rightarrow> bool" where
  "canonical_address parse address = (case parse address of None \<Rightarrow> False | Some h \<Rightarrow> ToString h = address)"

subsection \<open>The token index\<close>

record TokenIndex =
  ti_tokenToWorker :: "(u32 \<times> nat) list"
  ti_workers :: "HostPort list"

definition MAX_ROUTING_TOKENS :: nat where "MAX_ROUTING_TOKENS = 640000"

definition pb_routable :: "MembershipPb \<Rightarrow> bool" where
  "pb_routable memberPb \<longleftrightarrow> mp_state memberPb = state_to_pb ACTIVE \<or> mp_state memberPb = state_to_pb LEAVING"

fun index_seeds :: "u32 \<Rightarrow> u32 list \<Rightarrow> TokenSeedOverridePb list \<Rightarrow> u32 list result" where
  "index_seeds tokensPerMember seeds [] = Inr seeds"
| "index_seeds tokensPerMember seeds (p # ps) =
     bind_result (check_fail (sop_token_index p < tokensPerMember \<and> sop_token_seed p > 0
         \<and> sop_token_seed p < MAX_HASH_RING_TOKEN_SEEDS) K_INVALID) (\<lambda>_.
       index_seeds tokensPerMember (seeds[unat (sop_token_index p) := sop_token_seed p]) ps)"

fun index_tokens :: "nat \<Rightarrow> u32 set \<Rightarrow> u32 list \<Rightarrow> (u32 set \<times> (u32 \<times> nat) list) result" where
  "index_tokens worker occupied [] = Inr (occupied, [])"
| "index_tokens worker occupied (token # tokens) =
     bind_result (check_fail (token \<notin> occupied) K_INVALID) (\<lambda>_.
     bind_result (index_tokens worker (insert token occupied) tokens) (\<lambda>(occupied', entries).
       Inr (occupied', (token, worker) # entries)))"

text \<open>The loop over the members; \<open>worker\<close> is the number of workers so far.\<close>

fun index_members :: "(string \<Rightarrow> HostPort option) \<Rightarrow> u32 \<Rightarrow> nat \<Rightarrow> u32 set \<Rightarrow> (string \<times> MembershipPb) list
    \<Rightarrow> ((u32 \<times> nat) list \<times> HostPort list) result" where
  "index_members parse tokensPerMember worker occupied [] = Inr ([], [])"
| "index_members parse tokensPerMember worker occupied ((address, memberPb) # rest) =
     (if \<not> pb_routable memberPb then index_members parse tokensPerMember worker occupied rest
      else case parse address of
        None \<Rightarrow> Inl K_INVALID
      | Some hp \<Rightarrow>
          bind_result (index_seeds tokensPerMember (replicate (unat tokensPerMember) 0)
              (mp_token_seed_overrides memberPb)) (\<lambda>seeds.
          bind_result (index_tokens worker occupied (MakeHashRingTokens address seeds)) (\<lambda>(occupied', entries).
          bind_result (index_members parse tokensPerMember (worker + 1) occupied' rest) (\<lambda>(entries', workers).
            Inr (entries @ entries', hp # workers)))))"

definition BuildTokenIndex :: "(string \<Rightarrow> HostPort option) \<Rightarrow> ClusterTopologyPb \<Rightarrow> TokenIndex result" where
  "BuildTokenIndex parse ring =
     (let tokensPerMember = ctp_tokens_per_member ring in
      bind_result (check_fail (tokensPerMember > 0 \<and> tokensPerMember \<le> MAX_HASH_RING_TOKENS_PER_MEMBER) K_INVALID) (\<lambda>_.
        let tokenMemberCount = length (filter (\<lambda>entry. mp_state (snd entry) \<noteq> state_to_pb INITIAL) (ctp_members ring)) in
        bind_result (check_fail (tokenMemberCount \<le> MAX_ROUTING_TOKENS div unat tokensPerMember) K_INVALID) (\<lambda>_.
        bind_result (index_members parse tokensPerMember 0 {} (ctp_members ring)) (\<lambda>(entries, workers).
          Inr \<lparr>ti_tokenToWorker = sort_key fst entries, ti_workers = workers\<rparr>))))"

record PreparedClusterTopology =
  pt_topology :: ClusterTopologyPb
  pt_tokenIndex :: TokenIndex

definition Create_Prepared :: "(string \<Rightarrow> HostPort option) \<Rightarrow> ClusterTopologyPb \<Rightarrow> PreparedClusterTopology result" where
  "Create_Prepared parse ring =
     bind_result (BuildTokenIndex parse ring) (\<lambda>tokenIndex. Inr \<lparr>pt_topology = ring, pt_tokenIndex = tokenIndex\<rparr>)"

subsection \<open>Workers whose connection broke\<close>

record WorkerHealth =
  wh_consecutiveFailures :: u32
  wh_windowStart :: int
  wh_brokenUntil :: int

type_synonym HealthMap = "string \<Rightarrow> WorkerHealth option"

definition BROKEN_TTL :: int where "BROKEN_TTL = 5 * 10 ^ 9"
definition EVICT_CONSECUTIVE_FAILURES :: u32 where "EVICT_CONSECUTIVE_FAILURES = 100"
definition FAILURE_BURST_WINDOW :: int where "FAILURE_BURST_WINDOW = 5 * 10 ^ 9"
definition untilRingUpdate :: int where "untilRingUpdate = 2 ^ 63 - 1"

definition new_WorkerHealth :: WorkerHealth where
  "new_WorkerHealth = \<lparr>wh_consecutiveFailures = 0, wh_windowStart = 0, wh_brokenUntil = 0\<rparr>"

definition Broken_IsAvailable :: "HealthMap \<Rightarrow> int \<Rightarrow> HostPort \<Rightarrow> bool" where
  "Broken_IsAvailable healthMap now addr =
     (case healthMap (ToString addr) of None \<Rightarrow> True | Some health \<Rightarrow> now \<ge> wh_brokenUntil health)"

definition health_expired :: "int \<Rightarrow> WorkerHealth \<Rightarrow> bool" where
  "health_expired now entry \<longleftrightarrow> now \<ge> wh_brokenUntil entry
     \<and> (wh_consecutiveFailures entry = 0 \<or> now - wh_windowStart entry > FAILURE_BURST_WINDOW)"

definition EraseExpiredEntries :: "HealthMap \<Rightarrow> int \<Rightarrow> HealthMap" where
  "EraseExpiredEntries healthMap now =
     (\<lambda>k. case healthMap k of None \<Rightarrow> None | Some entry \<Rightarrow> if health_expired now entry then None else Some entry)"

definition note_failure :: "StatusCode \<Rightarrow> int \<Rightarrow> WorkerHealth \<Rightarrow> WorkerHealth" where
  "note_failure status now health =
     (let scaleDown = (status = K_SCALE_DOWN);
          health1 =
            (if scaleDown then health\<lparr>wh_brokenUntil := untilRingUpdate, wh_consecutiveFailures := 0\<rparr>
             else if status = K_RPC_PEER_DEAD then health\<lparr>wh_brokenUntil := now + BROKEN_TTL, wh_consecutiveFailures := 0\<rparr>
             else if wh_consecutiveFailures health = 0 \<or> now - wh_windowStart health > FAILURE_BURST_WINDOW
             then health\<lparr>wh_consecutiveFailures := 1, wh_windowStart := now\<rparr>
             else health\<lparr>wh_consecutiveFailures := wh_consecutiveFailures health + 1\<rparr>)
      in if \<not> scaleDown \<and> wh_consecutiveFailures health1 \<ge> EVICT_CONSECUTIVE_FAILURES
         then health1\<lparr>wh_brokenUntil := now + BROKEN_TTL, wh_consecutiveFailures := 0\<rparr> else health1)"

text \<open>One pass of the compare-and-swap loops: the pass that succeeds.\<close>

definition Broken_OnWorkerStateChange :: "HealthMap \<Rightarrow> int \<Rightarrow> HostPort \<Rightarrow> StatusCode \<Rightarrow> HealthMap" where
  "Broken_OnWorkerStateChange old now addr status =
     (let scaleDown = (status = K_SCALE_DOWN); peerDead = (status = K_RPC_PEER_DEAD);
          peerFailure = (status = K_CLIENT_WORKER_DISCONNECT \<or> peerDead); key = ToString addr
      in if \<not> scaleDown \<and> \<not> peerFailure then old
         else if (case old key of None \<Rightarrow> False
                  | Some existing \<Rightarrow> now < wh_brokenUntil existing
                      \<and> (\<not> scaleDown \<or> wh_brokenUntil existing = untilRingUpdate)) then old
         else
           let erased = EraseExpiredEntries old now;
               health = (case erased key of None \<Rightarrow> new_WorkerHealth | Some h \<Rightarrow> h)
           in erased(key \<mapsto> note_failure status now health))"

definition Broken_OnHashRingUpdated :: "HealthMap \<Rightarrow> int \<Rightarrow> HealthMap" where
  "Broken_OnHashRingUpdated old now =
     (\<lambda>worker. case old worker of None \<Rightarrow> None
        | Some health \<Rightarrow> if wh_brokenUntil health \<noteq> untilRingUpdate \<and> now < wh_brokenUntil health then Some health else None)"

subsection \<open>The router\<close>

datatype WorkerAccessAction = GET | SET | CONTROL

datatype DataPlacementPolicy = PREFERRED_SAME_NODE | REQUIRED_SAME_NODE | PREFERRED_META_OWNER

datatype WorkerRingState = RS_UNKNOWN | RS_INITIAL | RS_JOINING | RS_ACTIVE | RS_PRE_LEAVING | RS_LEAVING | RS_FAILED

record RingView =
  rv_ring :: ClusterTopologyPb
  rv_sameNodeWorkers :: "HostPort list"
  rv_tokenIndex :: TokenIndex

record WorkerRouter =
  wr_myHostId :: string
  wr_broken :: HealthMap
  wr_initialized :: bool
  wr_ringView :: RingView

type_synonym extra_filters = "(HostPort \<Rightarrow> WorkerAccessAction \<Rightarrow> bool) list"

definition empty_ring :: ClusterTopologyPb where
  "empty_ring = \<lparr>ctp_cluster_has_init = False, ctp_members = [], ctp_version = 0, ctp_schema_version = [],
     ctp_active_batch = None, ctp_tokens_per_member = 0\<rparr>"

definition new_WorkerRouter :: "string \<Rightarrow> WorkerRouter" where
  "new_WorkerRouter myHostId = \<lparr>wr_myHostId = myHostId, wr_broken = Map.empty, wr_initialized = False,
     wr_ringView = \<lparr>rv_ring = empty_ring, rv_sameNodeWorkers = [],
                    rv_tokenIndex = \<lparr>ti_tokenToWorker = [], ti_workers = []\<rparr>\<rparr>\<rparr>"

definition SetHostId :: "WorkerRouter \<Rightarrow> string \<Rightarrow> WorkerRouter" where
  "SetHostId router hostId = router\<lparr>wr_myHostId := hostId\<rparr>"

definition GetRingState :: "WorkerRouter \<Rightarrow> HostPort \<Rightarrow> WorkerRingState" where
  "GetRingState router addr =
     (case map_of (ctp_members (rv_ring (wr_ringView router))) (ToString addr) of
        None \<Rightarrow> RS_UNKNOWN
      | Some memberPb \<Rightarrow>
          let state = mp_state memberPb in
          if state = state_to_pb INITIAL then RS_INITIAL
          else if state = state_to_pb JOINING then RS_JOINING
          else if state = state_to_pb ACTIVE then RS_ACTIVE
          else if state = state_to_pb PRE_LEAVING then RS_PRE_LEAVING
          else if state = state_to_pb LEAVING then RS_LEAVING
          else if state = state_to_pb FAILED then RS_FAILED
          else RS_UNKNOWN)"

definition State_IsAvailable :: "WorkerRouter \<Rightarrow> HostPort \<Rightarrow> bool" where
  "State_IsAvailable router addr \<longleftrightarrow> GetRingState router addr = RS_ACTIVE"

text \<open>The chain of filters: the state filter, the broken filter, then the additional ones.\<close>

definition IsWorkerAvailable :: "WorkerRouter \<Rightarrow> extra_filters \<Rightarrow> int \<Rightarrow> HostPort \<Rightarrow> WorkerAccessAction \<Rightarrow> bool" where
  "IsWorkerAvailable router extra now addr action \<longleftrightarrow>
     State_IsAvailable router addr \<and> Broken_IsAvailable (wr_broken router) now addr \<and> list_all (\<lambda>f. f addr action) extra"

definition IsWorkerConnectionBroken :: "WorkerRouter \<Rightarrow> int \<Rightarrow> HostPort \<Rightarrow> bool" where
  "IsWorkerConnectionBroken router now addr \<longleftrightarrow> \<not> Broken_IsAvailable (wr_broken router) now addr"

definition IsExcluded :: "HostPort \<Rightarrow> HostPort list \<Rightarrow> bool" where
  "IsExcluded addr exclude \<longleftrightarrow> list_ex (\<lambda>e. hp_eq e addr) exclude"

text \<open>The two loops of the selection: the first candidate in order that is neither excluded nor filtered.\<close>

definition first_usable :: "WorkerRouter \<Rightarrow> extra_filters \<Rightarrow> int \<Rightarrow> WorkerAccessAction \<Rightarrow> HostPort list \<Rightarrow> HostPort list
    \<Rightarrow> HostPort option" where
  "first_usable router extra now action exclude candidates =
     find (\<lambda>w. \<not> IsExcluded w exclude \<and> IsWorkerAvailable router extra now w action) candidates"

definition same_node_candidates :: "u32 \<Rightarrow> HostPort list \<Rightarrow> HostPort list" where
  "same_node_candidates keyHash sameNodeWorkers =
     (let sameNodeCount = length sameNodeWorkers;
          start = (if sameNodeCount = 0 then 0 else unat keyHash mod sameNodeCount)
      in map (\<lambda>i. sameNodeWorkers ! ((start + i) mod sameNodeCount)) [0..<sameNodeCount])"

definition ring_candidates :: "u32 \<Rightarrow> TokenIndex \<Rightarrow> HostPort list" where
  "ring_candidates keyHash idx =
     (let tokens = ti_tokenToWorker idx; total = length tokens;
          position = length (takeWhile (\<lambda>token. fst token < keyHash) tokens);
          start = (if position = total then 0 else position)
      in map (\<lambda>i. ti_workers idx ! snd (tokens ! ((start + i) mod total))) [0..<total])"

definition SelectWorkerFromView :: "WorkerRouter \<Rightarrow> extra_filters \<Rightarrow> int \<Rightarrow> string \<Rightarrow> DataPlacementPolicy \<Rightarrow> WorkerAccessAction
    \<Rightarrow> HostPort list \<Rightarrow> RingView \<Rightarrow> HostPort result" where
  "SelectWorkerFromView router extra now key policy action exclude view =
     (let keyHash = MurmurHash3_32 (map byte_of key) 0;
          sameNode = (if policy \<noteq> PREFERRED_META_OWNER
                      then first_usable router extra now action exclude (same_node_candidates keyHash (rv_sameNodeWorkers view))
                      else None)
      in case sameNode of
           Some w \<Rightarrow> Inr w
         | None \<Rightarrow>
             if policy = REQUIRED_SAME_NODE then Inl K_NO_AVAILABLE_WORKER
             else if ti_tokenToWorker (rv_tokenIndex view) = [] then Inl K_NOT_FOUND
             else case first_usable router extra now action exclude (ring_candidates keyHash (rv_tokenIndex view)) of
                    Some w \<Rightarrow> Inr w
                  | None \<Rightarrow> Inl K_NO_AVAILABLE_WORKER)"

text \<open>Without a bandwidth scheduler the status of the selection is returned as it is.\<close>

definition SelectWorkerByScheduling :: "WorkerRouter \<Rightarrow> extra_filters \<Rightarrow> int \<Rightarrow> string \<Rightarrow> DataPlacementPolicy \<Rightarrow> WorkerAccessAction
    \<Rightarrow> HostPort list \<Rightarrow> HostPort result" where
  "SelectWorkerByScheduling router extra now key policy action exclude =
     bind_result (check_fail (wr_initialized router) K_NOT_READY) (\<lambda>_.
       SelectWorkerFromView router extra now key policy action exclude (wr_ringView router))"

definition SelectWorker :: "WorkerRouter \<Rightarrow> extra_filters \<Rightarrow> int \<Rightarrow> string \<Rightarrow> DataPlacementPolicy \<Rightarrow> WorkerAccessAction
    \<Rightarrow> HostPort list \<Rightarrow> HostPort result" where
  "SelectWorker router extra now key policy action exclude =
     (if policy = PREFERRED_META_OWNER then SelectWorkerByScheduling router extra now key policy action exclude
      else SelectWorkerFromView router extra now key policy action exclude (wr_ringView router))"

fun select_candidate :: "WorkerRouter \<Rightarrow> extra_filters \<Rightarrow> int \<Rightarrow> DataPlacementPolicy \<Rightarrow> WorkerAccessAction \<Rightarrow> HostPort list
    \<Rightarrow> RingView \<Rightarrow> HostPort option \<Rightarrow> HostPort list \<Rightarrow> HostPort result" where
  "select_candidate router extra now policy action exclude view fallback [] =
     (case fallback of Some w \<Rightarrow> Inr w | None \<Rightarrow> Inl K_NO_AVAILABLE_WORKER)"
| "select_candidate router extra now policy action exclude view fallback (worker # workers) =
     (let routable = (case map_of (ctp_members (rv_ring view)) (ToString worker) of
                        None \<Rightarrow> False | Some memberPb \<Rightarrow> pb_routable memberPb);
          sameNode = list_ex (\<lambda>w. hp_eq w worker) (rv_sameNodeWorkers view)
      in if \<not> routable \<or> IsExcluded worker exclude \<or> \<not> IsWorkerAvailable router extra now worker action
         then select_candidate router extra now policy action exclude view fallback workers
         else if policy \<noteq> PREFERRED_META_OWNER \<and> sameNode then Inr worker
         else select_candidate router extra now policy action exclude view
                (if policy \<noteq> REQUIRED_SAME_NODE \<and> fallback = None then Some worker else fallback) workers)"

definition SelectWorkerFromCandidates :: "WorkerRouter \<Rightarrow> extra_filters \<Rightarrow> int \<Rightarrow> HostPort list \<Rightarrow> DataPlacementPolicy
    \<Rightarrow> WorkerAccessAction \<Rightarrow> HostPort list \<Rightarrow> HostPort result" where
  "SelectWorkerFromCandidates router extra now candidates policy action exclude =
     bind_result (check_fail (wr_initialized router) K_NOT_READY) (\<lambda>_.
       select_candidate router extra now policy action exclude (wr_ringView router) None candidates)"

text \<open>\<open>newGroups[owner].push_back(key)\<close>; two addresses are the same key when host and port agree.\<close>

fun group_add :: "HostPort \<Rightarrow> string \<Rightarrow> (HostPort \<times> string list) list \<Rightarrow> (HostPort \<times> string list) list" where
  "group_add owner key [] = [(owner, [key])]"
| "group_add owner key ((w, keys) # groups) =
     (if hp_eq w owner then (w, keys @ [key]) # groups else (w, keys) # group_add owner key groups)"

fun select_groups :: "WorkerRouter \<Rightarrow> extra_filters \<Rightarrow> int \<Rightarrow> DataPlacementPolicy \<Rightarrow> WorkerAccessAction \<Rightarrow> HostPort list
    \<Rightarrow> RingView \<Rightarrow> (HostPort \<times> string list) list \<Rightarrow> string list \<Rightarrow> (HostPort \<times> string list) list result" where
  "select_groups router extra now policy action exclude view groups [] = Inr groups"
| "select_groups router extra now policy action exclude view groups (key # keys) =
     bind_result (SelectWorkerFromView router extra now key policy action exclude view) (\<lambda>owner.
       select_groups router extra now policy action exclude view (group_add owner key groups) keys)"

definition SelectWorkers :: "WorkerRouter \<Rightarrow> extra_filters \<Rightarrow> int \<Rightarrow> string list \<Rightarrow> DataPlacementPolicy \<Rightarrow> WorkerAccessAction
    \<Rightarrow> HostPort list \<Rightarrow> (HostPort \<times> string list) list result" where
  "SelectWorkers router extra now keys policy action exclude =
     select_groups router extra now policy action exclude (wr_ringView router) [] keys"

definition GetAvailableSameNodeWorkers :: "WorkerRouter \<Rightarrow> extra_filters \<Rightarrow> int \<Rightarrow> HostPort list" where
  "GetAvailableSameNodeWorkers router extra now =
     filter (\<lambda>w. IsWorkerAvailable router extra now w CONTROL) (rv_sameNodeWorkers (wr_ringView router))"

definition GetAvailableWorkers :: "WorkerRouter \<Rightarrow> extra_filters \<Rightarrow> int \<Rightarrow> HostPort list" where
  "GetAvailableWorkers router extra now =
     filter (\<lambda>w. IsWorkerAvailable router extra now w CONTROL) (ti_workers (rv_tokenIndex (wr_ringView router)))"

text \<open>\<open>operator<\<close> orders by host, then port.\<close>

definition same_node_workers :: "(string \<Rightarrow> HostPort option) \<Rightarrow> string \<Rightarrow> (string \<Rightarrow> string option) \<Rightarrow> (string \<times> MembershipPb) list
    \<Rightarrow> HostPort list" where
  "same_node_workers parse myHostId hostIdMap members =
     sort_key (\<lambda>h. (hp_host h, hp_port h))
       (concat (map (\<lambda>(address, memberPb).
          if mp_state memberPb \<noteq> state_to_pb ACTIVE then []
          else if myHostId \<noteq> [] \<and> hostIdMap address = Some myHostId
          then (case parse address of Some hp \<Rightarrow> [hp] | None \<Rightarrow> []) else []) members))"

definition UpdateHashRing :: "(string \<Rightarrow> HostPort option) \<Rightarrow> WorkerRouter \<Rightarrow> int \<Rightarrow> PreparedClusterTopology
    \<Rightarrow> (string \<Rightarrow> string option) \<Rightarrow> WorkerRouter" where
  "UpdateHashRing parse router now prepared hostIdMap =
     router\<lparr>wr_ringView := \<lparr>rv_ring = pt_topology prepared,
              rv_sameNodeWorkers = same_node_workers parse (wr_myHostId router) hostIdMap (ctp_members (pt_topology prepared)),
              rv_tokenIndex = pt_tokenIndex prepared\<rparr>,
            wr_initialized := True,
            wr_broken := Broken_OnHashRingUpdated (wr_broken router) now\<rparr>"

definition UpdateState :: "WorkerRouter \<Rightarrow> int \<Rightarrow> HostPort \<Rightarrow> StatusCode \<Rightarrow> WorkerRouter" where
  "UpdateState router now addr status =
     router\<lparr>wr_broken := Broken_OnWorkerStateChange (wr_broken router) now addr status\<rparr>"

subsection \<open>Isolation of broken workers\<close>

text \<open>A report about one worker never changes whether another one is available from then on.\<close>

lemma broken_report_is_local:
  assumes "ToString w' \<noteq> ToString w" "now \<le> t"
  shows "Broken_IsAvailable (Broken_OnWorkerStateChange h now w status) t w' = Broken_IsAvailable h t w'"
  using assms by (auto simp: Broken_IsAvailable_def Broken_OnWorkerStateChange_def EraseExpiredEntries_def health_expired_def
      Let_def split: option.splits)

text \<open>A dead peer is isolated at once, and a worker that scales down until the next ring.\<close>

lemma dead_peer_isolated:
  assumes "\<And>e. h (ToString w) = Some e \<Longrightarrow> wh_brokenUntil e \<le> now" "now \<le> t" "t < now + BROKEN_TTL"
  shows "\<not> Broken_IsAvailable (Broken_OnWorkerStateChange h now w K_RPC_PEER_DEAD) t w"
  using assms by (fastforce simp: Broken_IsAvailable_def Broken_OnWorkerStateChange_def note_failure_def Let_def
      K_RPC_PEER_DEAD_def K_SCALE_DOWN_def EVICT_CONSECUTIVE_FAILURES_def split: option.splits)

lemma scale_down_isolated:
  assumes "t < untilRingUpdate"
  shows "\<not> Broken_IsAvailable (Broken_OnWorkerStateChange h now w K_SCALE_DOWN) t w"
  using assms by (auto simp: Broken_IsAvailable_def Broken_OnWorkerStateChange_def note_failure_def Let_def
      K_SCALE_DOWN_def split: option.splits)

lemma ring_update_clears_scale_down:
  assumes "h (ToString w) = Some e" "wh_brokenUntil e = untilRingUpdate"
  shows "Broken_IsAvailable (Broken_OnHashRingUpdated h now) t w"
  using assms by (simp add: Broken_IsAvailable_def Broken_OnHashRingUpdated_def)

subsection \<open>Searching the ring from the hash of the key\<close>

lemma find_filter: "find P xs = (case filter P xs of [] \<Rightarrow> None | x # _ \<Rightarrow> Some x)"
  by (induction xs) auto

lemma rotate_nth_map:
  assumes "start < length xs \<or> xs = []"
  shows "map (\<lambda>i. xs ! ((start + i) mod length xs)) [0..<length xs] = drop start xs @ take start xs"
proof -
  have "map (\<lambda>i. xs ! ((start + i) mod length xs)) [0..<length xs] = rotate start xs"
    by (intro nth_equalityI) (simp_all add: nth_rotate add.commute)
  then show ?thesis using assms by (auto simp: rotate_drop_take)
qed

lemma ring_candidates_eq:
  "ring_candidates h idx = map (\<lambda>entry. ti_workers idx ! snd entry)
     (dropWhile (\<lambda>entry. fst entry < h) (ti_tokenToWorker idx) @ takeWhile (\<lambda>entry. fst entry < h) (ti_tokenToWorker idx))"
proof -
  let ?xs = "ti_tokenToWorker idx" and ?P = "\<lambda>entry. fst entry < h"
  let ?pos = "length (takeWhile ?P ?xs)"
  let ?start = "if ?pos = length ?xs then 0 else ?pos"
  have drop: "drop ?pos ?xs = dropWhile ?P ?xs" "take ?pos ?xs = takeWhile ?P ?xs"
    by (rule dropWhile_eq_drop [symmetric], rule takeWhile_eq_take [symmetric])
  have all: "dropWhile ?P ?xs = [] \<and> takeWhile ?P ?xs = ?xs" if "?pos = length ?xs"
    using that drop by simp
  have "?pos \<le> length ?xs" by (rule length_takeWhile_le)
  then have "?start < length ?xs \<or> ?xs = []" by auto
  from rotate_nth_map [OF this]
  have "map (\<lambda>i. ?xs ! ((?start + i) mod length ?xs)) [0..<length ?xs] = dropWhile ?P ?xs @ takeWhile ?P ?xs"
    using all drop by (cases "?pos = length ?xs") simp_all
  then have "map (\<lambda>entry. ti_workers idx ! snd entry) (map (\<lambda>i. ?xs ! ((?start + i) mod length ?xs)) [0..<length ?xs])
      = map (\<lambda>entry. ti_workers idx ! snd entry) (dropWhile ?P ?xs @ takeWhile ?P ?xs)" by (rule arg_cong)
  then show ?thesis by (simp add: ring_candidates_def Let_def comp_def)
qed

lemma sorted_filter_while:
  assumes "sorted (map fst xs)"
  shows "dropWhile (\<lambda>x. fst x < h) (filter P xs) = filter P (dropWhile (\<lambda>x. fst x < h) xs)
    \<and> takeWhile (\<lambda>x. fst x < h) (filter P xs) = filter P (takeWhile (\<lambda>x. fst x < h) xs)"
  using assms
proof (induction xs)
  case (Cons x xs)
  have none: "dropWhile (\<lambda>x. fst x < h) ys = ys \<and> takeWhile (\<lambda>x. fst x < h) ys = []" if "\<forall>y \<in> set ys. \<not> fst y < h" for ys :: "('a \<times> 'b) list"
    using that by (cases ys) auto
  show ?case
  proof (cases "fst x < h")
    case False
    then have "\<forall>y \<in> set (filter P (x # xs)). \<not> fst y < h" 
      using Cons.prems by (auto simp: not_less intro: order_trans)
    then show ?thesis using none [of "filter P (x # xs)"] False by simp
  qed (use Cons in auto)
qed simp

lemma LocateIndexedOwner_hd:
  "LocateIndexedOwner owners t =
     (if owners = [] then Inl K_NOT_READY
      else Inr (snd (hd (dropWhile (\<lambda>e. fst e < t) owners @ takeWhile (\<lambda>e. fst e < t) owners))))"
proof (cases "dropWhile (\<lambda>e. fst e < t) owners")
  case Nil
  then have all: "takeWhile (\<lambda>e. fst e < t) owners = owners" by (simp add: takeWhile_eq_all_conv dropWhile_eq_Nil_conv)
  show ?thesis unfolding LocateIndexedOwner_def Nil all by simp
next
  case (Cons e es)
  then show ?thesis unfolding LocateIndexedOwner_def Cons by auto
qed

text \<open>The first usable entry from the hash on is the owner in the ring of the usable entries.\<close>

abbreviation from_hash :: "u32 \<Rightarrow> (u32 \<times> 'a) list \<Rightarrow> (u32 \<times> 'a) list" where
  "from_hash h owners \<equiv> dropWhile (\<lambda>e. fst e < h) owners @ takeWhile (\<lambda>e. fst e < h) owners"

lemma find_is_owner:
  assumes "sorted (map fst owners)"
  shows "map_option snd (find P (from_hash h owners))
      = (case LocateIndexedOwner (filter P owners) h of Inl _ \<Rightarrow> None | Inr m \<Rightarrow> Some m)"
proof -
  define fs where "fs = filter P (from_hash h owners)"
  have fs: "fs = from_hash h (filter P owners)"
    using sorted_filter_while [OF assms] by (simp add: fs_def)
  have nil: "fs = [] \<longleftrightarrow> filter P owners = []"
    unfolding fs by (metis append_is_Nil_conv takeWhile_dropWhile_id)
  show ?thesis
    unfolding find_filter LocateIndexedOwner_hd fs_def [symmetric] fs [symmetric] nil [symmetric] by (cases fs) simp_all
qed

subsection \<open>The index of a published topology\<close>

definition routable :: "Member \<Rightarrow> bool" where
  "routable m \<longleftrightarrow> mb_state m = ACTIVE \<or> mb_state m = LEAVING"

abbreviation member_worker :: "(string \<Rightarrow> HostPort option) \<Rightarrow> Member \<Rightarrow> HostPort" where
  "member_worker parse m \<equiv> the (parse (mb_address m))"

fun indexed :: "nat \<Rightarrow> Member list \<Rightarrow> (u32 \<times> nat) list" where
  "indexed k [] = []"
| "indexed k (m # ms) = map (\<lambda>t. (t, k)) (mb_tokens m) @ indexed (k + 1) ms"

lemma state_to_pb_inj: "state_to_pb s = state_to_pb s' \<longleftrightarrow> s = s'"
  by (cases s; cases s') simp_all

lemma pb_routable_iff [simp]: "pb_routable (member_pb m pbs) \<longleftrightarrow> routable m"
  using state_to_pb_inj [of "mb_state m" ACTIVE] state_to_pb_inj [of "mb_state m" LEAVING]
  by (simp add: pb_routable_def routable_def)

lemma index_seeds_ok:
  assumes "overrides_ok n os"
  shows "index_seeds n seeds (map override_pb os) = Inr (foldl set_seed seeds os)"
  using assms by (induction os arbitrary: seeds) (simp_all add: overrides_ok_Cons)

lemma index_seeds_of_member:
  assumes "EncodeTokenSeedOverrides m n = Inr pbs" "mb_state m \<noteq> INITIAL"
  shows "\<exists>seeds. index_seeds n (replicate (unat n) 0) pbs = Inr seeds
    \<and> MakeHashRingTokens (mb_address m) seeds = mb_tokens m"
proof -
  obtain seeds where run: "encode_overrides n None (replicate (unat n) 0) (mb_tokenSeedOverrides m) = Inr (seeds, pbs)"
    and "MakeHashRingTokens (mb_address m) seeds = mb_tokens m"
    using assms by (auto simp: EncodeTokenSeedOverrides_def bind_result_Inr split: if_splits prod.splits)
  then show ?thesis using encode_overrides_ok [OF run] index_seeds_ok by auto
qed

lemma index_tokens_ok:
  assumes "distinct ts" "set ts \<inter> occ = {}"
  shows "index_tokens k occ ts = Inr (occ \<union> set ts, map (\<lambda>t. (t, k)) ts)"
  using assms by (induction ts arbitrary: occ) auto

lemma index_members_ok:
  assumes "list_all2 (entry_of n) ms es" "\<forall>m \<in> set ms. parse (mb_address m) \<noteq> None"
    "distinct (concat (map mb_tokens ms))" "set (concat (map mb_tokens ms)) \<inter> occ = {}"
  shows "index_members parse n k occ es = Inr (indexed k (filter routable ms), map (member_worker parse) (filter routable ms))"
  using assms
proof (induction arbitrary: k occ rule: list_all2_induct)
  case (Cons m ms e es)
  from Cons(1) obtain pbs where e: "e = (mb_address m, member_pb m pbs)" and pbs: "EncodeTokenSeedOverrides m n = Inr pbs"
    by (auto simp: entry_of_def)
  show ?case
  proof (cases "routable m")
    case False
    have "set (concat (map mb_tokens ms)) \<inter> occ = {}" using Cons.prems(3) by auto
    then show ?thesis using Cons.IH [of occ k] Cons.prems False e by simp
  next
    case True
    then have "mb_state m \<noteq> INITIAL" by (auto simp: routable_def)
    from index_seeds_of_member [OF pbs this] obtain seeds where
      seeds: "index_seeds n (replicate (unat n) 0) pbs = Inr seeds" "MakeHashRingTokens (mb_address m) seeds = mb_tokens m" by auto
    have "index_tokens k occ (mb_tokens m) = Inr (occ \<union> set (mb_tokens m), map (\<lambda>t. (t, k)) (mb_tokens m))"
      using Cons.prems(2,3) by (intro index_tokens_ok) auto
    moreover have "set (concat (map mb_tokens ms)) \<inter> (occ \<union> set (mb_tokens m)) = {}" using Cons.prems(2,3) by auto
    ultimately show ?thesis using Cons.IH [of "occ \<union> set (mb_tokens m)" "k + 1"] Cons.prems(1,2) True e seeds by auto
  qed
qed simp

lemma map_sort_key:
  assumes "\<And>x. k' (f x) = k x"
  shows "map f (sort_key k xs) = sort_key k' (map f xs)"
proof -
  have "map f (insort_key k x ys) = insort_key k' (f x) (map f ys)" for x ys
    by (induction ys) (simp_all add: assms)
  then show ?thesis by (induction xs) simp_all
qed

lemma indexed_members:
  "map (\<lambda>(t, j). (t, (pre @ ms) ! j)) (indexed (length pre) ms) = concat (map (\<lambda>m. map (\<lambda>t. (t, m)) (mb_tokens m)) ms)"
proof (induction ms arbitrary: pre)
  case (Cons m ms)
  then show ?case using Cons [of "pre @ [m]"] by (simp add: comp_def)
qed simp

lemma indexed_bound: "e \<in> set (indexed k ms) \<Longrightarrow> k \<le> snd e \<and> snd e < k + length ms"
  by (induction ms arbitrary: k) force+

lemma indexed_owners:
  "map (\<lambda>(t, j). (t, filter P ms ! j)) (sort_key fst (indexed 0 (filter P ms))) = token_owners P ms"
  using indexed_members [of "[]" "filter P ms"]
  by (simp add: map_sort_key [where k' = fst] case_prod_beta token_owners_def)

lemma token_owners_filter: "filter (\<lambda>e. P (snd e)) (token_owners Q ms) = token_owners (\<lambda>m. Q m \<and> P m) ms"
proof -
  have "filter (\<lambda>e. P (snd e)) (concat (map (\<lambda>m. map (\<lambda>t. (t, m)) (mb_tokens m)) ms'))
      = concat (map (\<lambda>m. map (\<lambda>t. (t, m)) (mb_tokens m)) (filter P ms'))" for ms'
    by (induction ms') (simp_all add: comp_def)
  then show ?thesis by (simp add: token_owners_def filter_sort conj_commute)
qed

lemma token_owners_perm:
  assumes "members_ok ms" "mset ms' = mset ms"
  shows "token_owners P ms' = token_owners P ms"
proof -
  let ?f = "\<lambda>ms. concat (map (\<lambda>m. map (\<lambda>t. (t, m)) (mb_tokens m)) (filter P ms))"
  have perm: "mset (?f ms') = mset (?f ms)" using assms(2) by (simp add: mset_concat_map)
  have "map fst (?f ms) = concat (map mb_tokens (filter P ms))" by (simp add: map_concat comp_def)
  moreover have "distinct (concat (map mb_tokens (filter P ms)))"
    using assms(1) by (simp add: members_ok_def distinct_filter_tokens)
  ultimately have "distinct (map fst (?f ms))" by simp
  then have "inj_on fst (set (?f ms))" by (simp only: distinct_map)
  then have "inj_on fst (set (?f ms'))" using mset_eq_setD [OF perm] by simp
  then show ?thesis unfolding token_owners_def by (intro sort_key_inj_key_eq) (simp_all add: perm)
qed

lemma token_owners_sorted: "sorted (map fst (token_owners P ms))"
  by (simp add: token_owners_def)

subsection \<open>The selected worker\<close>

lemma find_map: "find P (map g xs) = map_option g (find (P \<circ> g) xs)"
  by (induction xs) auto

lemma from_hash_map:
  assumes "\<And>e. fst (g e) = fst e"
  shows "from_hash h (map g xs) = map g (from_hash h xs)"
  by (simp add: dropWhile_map takeWhile_map comp_def assms)

lemma ring_selection:
  fixes ms :: "Member list" and parse :: "string \<Rightarrow> HostPort option"
  defines "rs \<equiv> filter routable ms"
  defines "idx \<equiv> \<lparr>ti_tokenToWorker = sort_key fst (indexed 0 rs), ti_workers = map (member_worker parse) rs\<rparr>"
  shows "first_usable router extra now action exclude (ring_candidates h idx) =
    (case LocateIndexedOwner (token_owners (\<lambda>m. routable m \<and> \<not> IsExcluded (member_worker parse m) exclude
            \<and> IsWorkerAvailable router extra now (member_worker parse m) action) ms) h of
       Inl _ \<Rightarrow> None | Inr m \<Rightarrow> Some (member_worker parse m))"
proof -
  let ?use = "\<lambda>w. \<not> IsExcluded w exclude \<and> IsWorkerAvailable router extra now w action"
  let ?g = "\<lambda>(t, j). (t, rs ! j)"
  have bound: "snd e < length rs" if "e \<in> set (indexed 0 rs)" for e
    using indexed_bound [OF that] by simp
  have "token_owners routable ms = map ?g (ti_tokenToWorker idx)"
    using indexed_owners [of routable ms] by (simp add: idx_def rs_def)
  then have own: "from_hash h (token_owners routable ms) = map ?g (from_hash h (ti_tokenToWorker idx))"
    using from_hash_map [of ?g] by (simp add: case_prod_beta)
  have "ring_candidates h idx = map (\<lambda>e. ti_workers idx ! snd e) (from_hash h (ti_tokenToWorker idx))"
    by (rule ring_candidates_eq)
  also have "\<dots> = map (member_worker parse \<circ> snd \<circ> ?g) (from_hash h (ti_tokenToWorker idx))"
    using bound by (auto simp: idx_def dest!: set_dropWhileD set_takeWhileD)
  also have "\<dots> = map (member_worker parse \<circ> snd) (from_hash h (token_owners routable ms))"
    unfolding own by (simp add: comp_assoc)
  finally have cands: "ring_candidates h idx = map (member_worker parse \<circ> snd) (from_hash h (token_owners routable ms))" .
  have "first_usable router extra now action exclude (ring_candidates h idx) =
      map_option (member_worker parse) (map_option snd (find (\<lambda>e. ?use (member_worker parse (snd e))) (from_hash h (token_owners routable ms))))"
    unfolding first_usable_def cands find_map by (simp add: comp_def option.map_comp)
  also have "\<dots> = (case LocateIndexedOwner (token_owners (\<lambda>m. routable m \<and> ?use (member_worker parse m)) ms) h of
       Inl _ \<Rightarrow> None | Inr m \<Rightarrow> Some (member_worker parse m))"
    unfolding find_is_owner [OF token_owners_sorted] token_owners_filter [of "\<lambda>m. ?use (member_worker parse m)" routable ms]
    by (cases "LocateIndexedOwner (token_owners (\<lambda>m. routable m \<and> ?use (member_worker parse m)) ms) h") simp_all
  finally show ?thesis by simp
qed

lemma BuildTokenIndex_ok:
  assumes rel: "list_all2 (entry_of (ctp_tokens_per_member pb)) ms (ctp_members pb)"
    and n: "0 < ctp_tokens_per_member pb" "ctp_tokens_per_member pb \<le> MAX_HASH_RING_TOKENS_PER_MEMBER"
    and total: "token_total ms \<le> MAX_TOPOLOGY_TOKENS" and ok: "members_ok ms"
    and addr: "\<forall>m \<in> set ms. parse (mb_address m) \<noteq> None"
  shows "BuildTokenIndex parse pb = Inr \<lparr>ti_tokenToWorker = sort_key fst (indexed 0 (filter routable ms)),
     ti_workers = map (member_worker parse) (filter routable ms)\<rparr>"
proof -
  have count: "length (filter (\<lambda>e. mp_state (snd e) \<noteq> state_to_pb INITIAL) (ctp_members pb))
      = length (filter (\<lambda>m. mb_state m \<noteq> INITIAL) ms)"
    using rel by (induction rule: list_all2_induct) (auto simp: entry_of_def)
  have "\<dots> \<le> MAX_ROUTING_TOKENS div unat (ctp_tokens_per_member pb)"
    using token_members_bound [OF rel total n(1)] by (simp add: MAX_ROUTING_TOKENS_def MAX_TOPOLOGY_TOKENS_def)
  then show ?thesis
    using n count index_members_ok [OF rel addr, of "{}" 0] ok by (simp add: BuildTokenIndex_def members_ok_def)
qed

lemma entry_of_mem:
  assumes "list_all2 (entry_of n) ms es" "m \<in> set ms"
  shows "\<exists>e \<in> set es. entry_of n m e"
  using assms by (induction rule: list_all2_induct) auto

lemma entry_lookup:
  assumes "list_all2 (entry_of n) ms es" "distinct (map fst es)" "m \<in> set ms"
  shows "\<exists>pbs. map_of es (mb_address m) = Some (member_pb m pbs)"
proof -
  from entry_of_mem [OF assms(1,3)] obtain e where "e \<in> set es" "entry_of n m e" by blast
  then show ?thesis using assms(2) by (auto simp: entry_of_def)
qed

lemma StateFilter_active:
  assumes "list_all2 (entry_of n) ms (ctp_members (rv_ring (wr_ringView router)))" "members_ok ms" "m \<in> set ms"
    and "canonical_address parse (mb_address m)"
  shows "State_IsAvailable router (member_worker parse m) \<longleftrightarrow> mb_state m = ACTIVE"
proof -
  have "ToString (member_worker parse m) = mb_address m"
    using assms(4) by (auto simp: canonical_address_def split: option.splits)
  moreover have "distinct (map fst (ctp_members (rv_ring (wr_ringView router))))"
    using entry_addresses [OF assms(1)] assms(2) by (simp add: members_ok_def)
  then obtain pbs where "map_of (ctp_members (rv_ring (wr_ringView router))) (mb_address m) = Some (member_pb m pbs)"
    using entry_lookup [OF assms(1) _ assms(3)] by blast
  ultimately show ?thesis by (cases "mb_state m") (simp_all add: State_IsAvailable_def GetRingState_def)
qed

lemma token_owners_cong:
  assumes "\<And>m. m \<in> set ms \<Longrightarrow> P m = Q m"
  shows "token_owners P ms = token_owners Q ms"
proof -
  have "filter P ms = filter Q ms" using assms by (rule filter_cong [OF refl])
  then show ?thesis by (simp add: token_owners_def)
qed

lemma indexed_Nil: "indexed k ms = [] \<longleftrightarrow> (\<forall>m \<in> set ms. mb_tokens m = [])"
  by (induction ms arbitrary: k) auto

lemma sort_key_Nil: "sort_key f xs = [] \<longleftrightarrow> xs = []"
  by (metis length_0_conv length_sort)

lemma routable_has_tokens:
  assumes "list_all2 (entry_of n) ms es" "0 < n" "m \<in> set ms" "routable m"
  shows "mb_tokens m \<noteq> []"
proof -
  from entry_of_mem [OF assms(1,3)] obtain e where "entry_of n m e" by blast
  then have "length (mb_tokens m) = unat n"
    using token_round_trip assms(4) by (auto simp: entry_of_def routable_def)
  then show ?thesis using assms(2) by (auto simp: word_less_nat_alt)
qed

definition usable :: "(string \<Rightarrow> HostPort option) \<Rightarrow> WorkerRouter \<Rightarrow> extra_filters \<Rightarrow> int \<Rightarrow> WorkerAccessAction \<Rightarrow> HostPort list
    \<Rightarrow> Member \<Rightarrow> bool" where
  "usable parse router extra now action exclude m \<longleftrightarrow> mb_state m = ACTIVE
     \<and> \<not> IsExcluded (member_worker parse m) exclude
     \<and> Broken_IsAvailable (wr_broken router) now (member_worker parse m)
     \<and> list_all (\<lambda>f. f (member_worker parse m) action) extra"

lemma select_meta_owner:
  assumes rel: "list_all2 (entry_of n) ms (ctp_members (rv_ring view))" and n: "0 < n" and ok: "members_ok ms"
    and addr: "\<forall>m \<in> set ms. canonical_address parse (mb_address m)"
    and idx: "rv_tokenIndex view = \<lparr>ti_tokenToWorker = sort_key fst (indexed 0 (filter routable ms)),
       ti_workers = map (member_worker parse) (filter routable ms)\<rparr>"
    and router: "wr_ringView router = view"
  shows "SelectWorkerFromView router extra now key PREFERRED_META_OWNER action exclude view =
     (case LocateIndexedOwner (token_owners (usable parse router extra now action exclude) ms) (Hash key) of
        Inr m \<Rightarrow> Inr (member_worker parse m)
      | Inl _ \<Rightarrow> Inl (if \<exists>m \<in> set ms. routable m then K_NO_AVAILABLE_WORKER else K_NOT_FOUND))"
proof -
  let ?owners = "token_owners (usable parse router extra now action exclude) ms"
  have "token_owners (\<lambda>m. routable m \<and> \<not> IsExcluded (member_worker parse m) exclude
      \<and> IsWorkerAvailable router extra now (member_worker parse m) action) ms = ?owners"
    using StateFilter_active [of n ms router] rel ok addr router
    by (intro token_owners_cong) (auto simp: usable_def routable_def IsWorkerAvailable_def)
  then have first: "first_usable router extra now action exclude (ring_candidates (Hash key) (rv_tokenIndex view)) =
      (case LocateIndexedOwner ?owners (Hash key) of Inl _ \<Rightarrow> None | Inr m \<Rightarrow> Some (member_worker parse m))"
    using ring_selection [of router extra now action exclude "Hash key" ms parse] by (simp add: idx)
  have empty: "ti_tokenToWorker (rv_tokenIndex view) = [] \<longleftrightarrow> \<not> (\<exists>m \<in> set ms. routable m)"
    using routable_has_tokens [OF rel n] by (auto simp: idx sort_key_Nil indexed_Nil)
  have "?owners = []" if "\<not> (\<exists>m \<in> set ms. routable m)"
    using that by (auto simp: token_owners_def usable_def routable_def filter_empty_conv)
  then have none: "\<exists>e. LocateIndexedOwner ?owners (Hash key) = Inl e" if "\<not> (\<exists>m \<in> set ms. routable m)"
    using that by (simp add: LocateIndexedOwner_def)
  show ?thesis
    using first none unfolding SelectWorkerFromView_def Hash_def [symmetric] empty
    by (cases "LocateIndexedOwner ?owners (Hash key)") (auto simp: Let_def)
qed

lemma canonical_address_parses: "canonical_address parse a \<Longrightarrow> parse a \<noteq> None"
  by (auto simp: canonical_address_def split: option.splits)

lemma Create_fields:
  assumes "Create hp sha st revision digest hostIds known coordinator = Inr sn" "ValidateAndCanonicalizeTopologyState hp st = Inr c"
  shows "sn_state sn = c \<and> sn_committedMembers sn = filter (\<lambda>m. IsCommittedMemberState (mb_state m)) (ts_members c)
    \<and> sn_committedTokenOwners sn = token_owners (\<lambda>m. IsCommittedMemberState (mb_state m)) (ts_members c)"
  using assms by (auto simp: Create_def bind_result_Inr BuildIndexes_def new_TopologySnapshot_def Let_def split: if_splits)

lemma client_selection:
  assumes protobuf: "topology_pb_round_trip serialize parsePb"
    and encoded: "EncodeTopology (canonical_address parse) serialize st = Inr v" and fetched: "parsePb v = Some pb"
  obtains c prepared where "ValidateAndCanonicalizeTopologyState (canonical_address parse) st = Inr c"
    "Create_Prepared parse pb = Inr prepared"
    "\<forall>router t0 hostIdMap router' extra now key action exclude.
       router' = UpdateHashRing parse router t0 prepared hostIdMap \<longrightarrow>
       SelectWorker router' extra now key PREFERRED_META_OWNER action exclude =
         (case LocateIndexedOwner (token_owners (usable parse router' extra now action exclude) (ts_members c)) (Hash key) of
            Inr m \<Rightarrow> Inr (member_worker parse m)
          | Inl _ \<Rightarrow> Inl (if \<exists>m \<in> set (ts_members c). routable m then K_NO_AVAILABLE_WORKER else K_NOT_FOUND))"
proof -
  obtain c es ms where c: "ValidateAndCanonicalizeTopologyState (canonical_address parse) st = Inr c"
    and pb: "parsePb v = Some \<lparr>ctp_cluster_has_init = ts_clusterHasInit c, ctp_members = es, ctp_version = ts_version c,
        ctp_schema_version = SCHEMA_VERSION,
        ctp_active_batch = map_option (\<lambda>b. \<lparr>cbp_type = ToPbType (ab_type b), cbp_epoch = ab_epoch b\<rparr>) (ts_activeBatch c),
        ctp_tokens_per_member = ts_tokensPerMember c\<rparr>"
    and rel: "list_all2 (entry_of (ts_tokensPerMember c)) ms es" and perm: "mset ms = mset (ts_members c)"
    and total: "token_total ms \<le> MAX_TOPOLOGY_TOKENS"
    and n: "0 < ts_tokensPerMember c" "ts_tokensPerMember c \<le> MAX_HASH_RING_TOKENS_PER_MEMBER"
    by (rule published_pb [OF protobuf encoded])
  have wf: "topology_wf (canonical_address parse) c" using canonicalize_idem [OF c] by simp
  then have okc: "members_ok (ts_members c)" by (simp add: topology_wf_def)
  have ok: "members_ok ms" using okc members_ok_perm [OF perm] by simp
  have addr: "\<forall>m \<in> set ms. canonical_address parse (mb_address m)"
    using wf mset_eq_setD [OF perm] by (simp add: topology_wf_def)
  then have parses: "\<forall>m \<in> set ms. parse (mb_address m) \<noteq> None" using canonical_address_parses by blast
  let ?idx = "\<lparr>ti_tokenToWorker = sort_key fst (indexed 0 (filter routable ms)), ti_workers = map (member_worker parse) (filter routable ms)\<rparr>"
  have "BuildTokenIndex parse pb = Inr ?idx"
    using BuildTokenIndex_ok [of pb ms parse] rel n total ok parses pb fetched by simp
  then have prepared: "Create_Prepared parse pb = Inr \<lparr>pt_topology = pb, pt_tokenIndex = ?idx\<rparr>"
    by (simp add: Create_Prepared_def)
  show thesis
  proof (rule that [OF c prepared], intro allI impI)
    fix router t0 hostIdMap router' extra now key action exclude
    assume r: "router' = UpdateHashRing parse router t0 \<lparr>pt_topology = pb, pt_tokenIndex = ?idx\<rparr> hostIdMap"
    then have view: "rv_tokenIndex (wr_ringView router') = ?idx"
      "list_all2 (entry_of (ts_tokensPerMember c)) ms (ctp_members (rv_ring (wr_ringView router')))"
      using rel pb fetched by (simp_all add: UpdateHashRing_def)
    have "SelectWorker router' extra now key PREFERRED_META_OWNER action exclude
        = SelectWorkerFromView router' extra now key PREFERRED_META_OWNER action exclude (wr_ringView router')"
      using r by (simp add: SelectWorker_def SelectWorkerByScheduling_def UpdateHashRing_def)
    then show "SelectWorker router' extra now key PREFERRED_META_OWNER action exclude =
      (case LocateIndexedOwner (token_owners (usable parse router' extra now action exclude) (ts_members c)) (Hash key) of
         Inr m \<Rightarrow> Inr (member_worker parse m)
       | Inl _ \<Rightarrow> Inl (if \<exists>m \<in> set (ts_members c). routable m then K_NO_AVAILABLE_WORKER else K_NOT_FOUND))"
      unfolding select_meta_owner [OF view(2) n(1) ok addr view(1) refl] token_owners_perm [OF okc perm] mset_eq_setD [OF perm] .
  qed
qed

end
