(* ===== verification/PlanBuilder.thy ===== *)
theory PlanBuilder
  imports RepositoryCodec
begin

section \<open>Topology transitions\<close>

text \<open>
  Models src/datasystem/cluster/control/topology_plan_builder.cpp: the transitions of the topology
  that the controller proposes, from bootstrap to the final step of each batch. The builder calls
  the planning algorithm through the interface IPlanningAlgorithm, here a record of operations; the
  locale \<open>planning_algorithm\<close> states what the builder relies on, and the hash algorithm provides it.
\<close>

subsection \<open>The builder\<close>

record IPlanningAlgorithm =
  ia_BuildInitialPlacement :: "ScaleOutPlanInput \<Rightarrow> TopologyPlan result"
  ia_PlanScaleOut :: "ScaleOutPlanInput \<Rightarrow> TopologyPlan result"
  ia_PlanScaleIn :: "ScaleInPlanInput \<Rightarrow> TopologyPlan result"
  ia_PlanFailure :: "FailurePlanInput \<Rightarrow> TopologyPlan result"
  ia_Validate :: "TopologyState \<Rightarrow> unit result"

definition SameIdentity :: "Member \<Rightarrow> MemberIdentity \<Rightarrow> bool" where
  "SameIdentity member identity \<longleftrightarrow> mb_identity member = identity"

fun validate_selected :: "TopologyState \<Rightarrow> MemberState \<Rightarrow> string set \<Rightarrow> MemberIdentity list \<Rightarrow> unit result" where
  "validate_selected latest state addresses [] = Inr ()"
| "validate_selected latest state addresses (identity # identities) =
     bind_result (check_fail (case find (\<lambda>member. SameIdentity member identity) (ts_members latest) of
         None \<Rightarrow> False | Some member \<Rightarrow> mb_state member = state) K_INVALID) (\<lambda>_.
     bind_result (check_fail (mi_address identity \<notin> addresses) K_INVALID) (\<lambda>_.
       validate_selected latest state (insert (mi_address identity) addresses) identities))"

definition ValidateSelected :: "TopologyState \<Rightarrow> MemberIdentity list \<Rightarrow> MemberState \<Rightarrow> unit result" where
  "ValidateSelected latest identities state =
     bind_result (check_fail (identities \<noteq> []) K_INVALID) (\<lambda>_. validate_selected latest state {} identities)"

definition AdvanceEpoch :: "TopologyState \<Rightarrow> TopologyChangeType \<Rightarrow> TopologyPlan \<Rightarrow> TopologyPlan" where
  "AdvanceEpoch latest type plan =
     plan\<lparr>tp_next := (tp_next plan)\<lparr>ts_version := ts_version latest + 1,
       ts_activeBatch := Some \<lparr>ab_type = type, ab_epoch = ts_version latest + 1\<rparr>\<rparr>\<rparr>"

definition MembersInState :: "TopologyState \<Rightarrow> MemberState \<Rightarrow> MemberIdentity list" where
  "MembersInState state s = map mb_identity (filter (\<lambda>member. mb_state member = s) (ts_members state))"

definition RemoveMembers :: "TopologyState \<Rightarrow> string set \<Rightarrow> TopologyState" where
  "RemoveMembers state addresses =
     state\<lparr>ts_members := filter (\<lambda>member. mb_address member \<notin> addresses) (ts_members state)\<rparr>"

definition ValidateBatch :: "TopologyState \<Rightarrow> TopologyChangeType \<Rightarrow> unit result" where
  "ValidateBatch latest type = check_fail (map_option ab_type (ts_activeBatch latest) = Some type) K_INVALID"

definition empty_TopologyState :: TopologyState where
  "empty_TopologyState = \<lparr>ts_clusterHasInit = False, ts_version = 0, ts_members = [], ts_activeBatch = None,
     ts_tokensPerMember = DEFAULT_HASH_RING_TOKENS_PER_MEMBER\<rparr>"

definition BuildBootstrap :: "IPlanningAlgorithm \<Rightarrow> TopologyState \<Rightarrow> MemberIdentity list \<Rightarrow> TopologyState result" where
  "BuildBootstrap algorithm latest ready =
     bind_result (check_fail (\<not> list_ex (\<lambda>member. IsCommittedMemberState (mb_state member)) (ts_members latest)
         \<and> ts_activeBatch latest = None) K_INVALID) (\<lambda>_.
     bind_result (ValidateSelected latest ready INITIAL) (\<lambda>_.
     bind_result (ia_BuildInitialPlacement algorithm \<lparr>soi_current = empty_TopologyState, soi_joining = ready,
         soi_tokensPerMember = DEFAULT_HASH_RING_TOKENS_PER_MEMBER\<rparr>) (\<lambda>built.
       let readyAddresses = mi_address ` set ready;
           next' = (tp_next built)\<lparr>
             ts_members := ts_members (tp_next built) @ filter (\<lambda>member. mb_address member \<notin> readyAddresses) (ts_members latest),
             ts_version := ts_version latest + 1,
             ts_clusterHasInit := (ts_clusterHasInit latest \<or> ts_clusterHasInit (tp_next built))\<rparr>
       in bind_result (ia_Validate algorithm next') (\<lambda>_. Inr next'))))"

definition BuildScaleOutStart :: "IPlanningAlgorithm \<Rightarrow> TopologyState \<Rightarrow> MemberIdentity list \<Rightarrow> TopologyPlan result" where
  "BuildScaleOutStart algorithm latest identities =
     bind_result (check_fail (ts_clusterHasInit latest \<and> ts_activeBatch latest = None) K_INVALID) (\<lambda>_.
     bind_result (ValidateSelected latest identities INITIAL) (\<lambda>_.
       let current = RemoveMembers latest (mi_address ` set identities) in
       bind_result (ia_PlanScaleOut algorithm \<lparr>soi_current = current, soi_joining = identities,
           soi_tokensPerMember = ts_tokensPerMember current\<rparr>) (\<lambda>built.
         let plan = AdvanceEpoch latest SCALE_OUT built in
         bind_result (ia_Validate algorithm (tp_next plan)) (\<lambda>_. Inr plan))))"

definition BuildScaleOutReplan :: "IPlanningAlgorithm \<Rightarrow> TopologyState \<Rightarrow> MemberIdentity list \<Rightarrow> TopologyPlan result" where
  "BuildScaleOutReplan algorithm latest failedJoining =
     bind_result (ValidateBatch latest SCALE_OUT) (\<lambda>_.
     bind_result (ValidateSelected latest failedJoining JOINING) (\<lambda>_.
       let retained = RemoveMembers latest (mi_address ` set failedJoining);
           joining = MembersInState retained JOINING
       in if joining \<noteq> [] then
            bind_result (ia_PlanScaleOut algorithm \<lparr>soi_current = retained, soi_joining = joining,
                soi_tokensPerMember = ts_tokensPerMember retained\<rparr>) (\<lambda>built. Inr (AdvanceEpoch latest SCALE_OUT built))
          else Inr \<lparr>tp_next = retained\<lparr>ts_version := ts_version latest + 1, ts_activeBatch := None\<rparr>,
                    tp_ownerChanges = []\<rparr>))"

definition BuildScaleInStart :: "IPlanningAlgorithm \<Rightarrow> TopologyState \<Rightarrow> MemberIdentity list \<Rightarrow> TopologyPlan result" where
  "BuildScaleInStart algorithm latest identities =
     bind_result (check_fail (ts_clusterHasInit latest \<and> ts_activeBatch latest = None) K_INVALID) (\<lambda>_.
     bind_result (ValidateSelected latest identities PRE_LEAVING) (\<lambda>_.
     bind_result (ia_PlanScaleIn algorithm \<lparr>sii_current = latest, sii_leaving = identities\<rparr>) (\<lambda>built.
       Inr (AdvanceEpoch latest SCALE_IN (built\<lparr>tp_next := (tp_next built)\<lparr>ts_members :=
         map (\<lambda>member. if mb_state member = PRE_LEAVING \<and> mb_identity member \<in> set identities
                        then member\<lparr>mb_state := LEAVING\<rparr> else member) (ts_members (tp_next built))\<rparr>\<rparr>)))))"

text \<open>The loop that gives JOINING and LEAVING members their state back after the failure plan.\<close>

fun restore_state :: "Member \<Rightarrow> Member list \<Rightarrow> Member list" where
  "restore_state member [] = []"
| "restore_state member (m # members) =
     (if mb_identity m = mb_identity member then m\<lparr>mb_state := mb_state member\<rparr> # members
      else m # restore_state member members)"

definition preserve_ordinary :: "string set \<Rightarrow> Member list \<Rightarrow> Member list \<Rightarrow> Member list" where
  "preserve_ordinary failedAddresses members built =
     foldl (\<lambda>ms member. if (mb_state member = JOINING \<or> mb_state member = LEAVING) \<and> mb_address member \<notin> failedAddresses
                        then restore_state member ms else ms) built members"

definition BuildFailureStartOrReplan :: "IPlanningAlgorithm \<Rightarrow> TopologyState \<Rightarrow> MemberIdentity list \<Rightarrow> TopologyPlan result" where
  "BuildFailureStartOrReplan algorithm latest confirmed =
     bind_result (check_fail (ts_clusterHasInit latest) K_INVALID) (\<lambda>_.
       let planning = latest\<lparr>ts_members := map (\<lambda>member. if mb_state member = FAILED then member\<lparr>mb_state := ACTIVE\<rparr> else member)
                                            (ts_members latest)\<rparr> in
       bind_result (check_fail (list_all (\<lambda>member. mb_state member \<noteq> FAILED \<or> mb_identity member \<in> set confirmed)
           (ts_members latest)) K_INVALID) (\<lambda>_.
         let failedAddresses = mi_address ` set confirmed;
             hasHealthyOwner = list_ex (\<lambda>member. mb_state member = ACTIVE \<and> mb_address member \<notin> failedAddresses) (ts_members latest)
         in if \<not> hasHealthyOwner then
              Inr (AdvanceEpoch latest FAILURE
                \<lparr>tp_next = latest\<lparr>ts_members := map (\<lambda>member. if mb_address member \<in> failedAddresses
                             then member\<lparr>mb_state := FAILED\<rparr> else member) (ts_members latest)\<rparr>,
                 tp_ownerChanges = []\<rparr>)
            else
              bind_result (ia_PlanFailure algorithm \<lparr>fi_current = planning, fi_failed = confirmed\<rparr>) (\<lambda>built.
                Inr (AdvanceEpoch latest FAILURE (built\<lparr>tp_next := (tp_next built)\<lparr>ts_members :=
                  preserve_ordinary failedAddresses (ts_members latest) (ts_members (tp_next built))\<rparr>\<rparr>)))))"

definition BuildScaleOutFinal :: "TopologyState \<Rightarrow> TopologyState result" where
  "BuildScaleOutFinal latest =
     bind_result (ValidateBatch latest SCALE_OUT) (\<lambda>_.
     bind_result (check_fail (MembersInState latest JOINING \<noteq> []) K_INVALID) (\<lambda>_.
       Inr (latest\<lparr>ts_members := map (\<lambda>member. if mb_state member = JOINING then member\<lparr>mb_state := ACTIVE\<rparr> else member)
                      (ts_members latest),
                   ts_version := ts_version latest + 1, ts_activeBatch := None\<rparr>)))"

definition BuildScaleInFinal :: "TopologyState \<Rightarrow> TopologyState result" where
  "BuildScaleInFinal latest =
     bind_result (ValidateBatch latest SCALE_IN) (\<lambda>_.
       let leaving = MembersInState latest LEAVING in
       bind_result (check_fail (leaving \<noteq> []) K_INVALID) (\<lambda>_.
         Inr ((RemoveMembers latest (mi_address ` set leaving))
                \<lparr>ts_version := ts_version latest + 1, ts_activeBatch := None\<rparr>)))"

definition BuildFailureFinal :: "TopologyState \<Rightarrow> TopologyState result" where
  "BuildFailureFinal latest =
     bind_result (ValidateBatch latest FAILURE) (\<lambda>_.
       let failed = MembersInState latest FAILED in
       bind_result (check_fail (failed \<noteq> []) K_INVALID) (\<lambda>_.
         let built = RemoveMembers latest (mi_address ` set failed);
             version' = ts_version latest + 1;
             committed = filter (\<lambda>member. mb_state member = ACTIVE \<or> mb_state member = LEAVING \<or> mb_state member = PRE_LEAVING)
                           (ts_members built);
             settled =
               (if committed = [] then built\<lparr>ts_members := [], ts_activeBatch := None\<rparr>
                else if MembersInState built JOINING \<noteq> [] then built\<lparr>ts_activeBatch := Some \<lparr>ab_type = SCALE_OUT, ab_epoch = version'\<rparr>\<rparr>
                else if MembersInState built LEAVING \<noteq> [] then built\<lparr>ts_activeBatch := Some \<lparr>ab_type = SCALE_IN, ab_epoch = version'\<rparr>\<rparr>
                else built\<lparr>ts_activeBatch := None\<rparr>)
         in Inr (settled\<lparr>ts_version := version'\<rparr>)))"

definition BuildClusterShutdownFinal :: "TopologyState \<Rightarrow> TopologyState result" where
  "BuildClusterShutdownFinal latest =
     bind_result (check_fail (ts_members latest \<noteq> []) K_INVALID) (\<lambda>_.
     bind_result (check_fail (list_all (\<lambda>member. mb_state member = PRE_LEAVING \<or> mb_state member = LEAVING) (ts_members latest)) K_INVALID) (\<lambda>_.
       Inr (latest\<lparr>ts_version := ts_version latest + 1, ts_members := [], ts_activeBatch := None\<rparr>)))"

text \<open>The hash algorithm as the planning algorithm of the builder.\<close>

definition hash_planning :: "(string \<Rightarrow> bool) \<Rightarrow> IPlanningAlgorithm" where
  "hash_planning hostPortOk =
     \<lparr>ia_BuildInitialPlacement = BuildInitialPlacement hostPortOk, ia_PlanScaleOut = PlanScaleOut hostPortOk,
      ia_PlanScaleIn = PlanScaleIn hostPortOk, ia_PlanFailure = PlanFailure hostPortOk, ia_Validate = Validate\<rparr>"

subsection \<open>What the builder relies on\<close>

locale planning_algorithm =
  fixes alg :: IPlanningAlgorithm
  assumes validate_law: "ia_Validate alg st = Inr () \<Longrightarrow> members_ok (ts_members st)"
    and initial_law: "ia_BuildInitialPlacement alg input = Inr plan \<Longrightarrow>
      0 < soi_tokensPerMember input \<and> soi_tokensPerMember input \<le> MAX_HASH_RING_TOKENS_PER_MEMBER
      \<and> (\<exists>ms. tp_next plan = (soi_current input)\<lparr>ts_clusterHasInit := True, ts_tokensPerMember := soi_tokensPerMember input,
            ts_members := ms\<rparr>
           \<and> (\<forall>m \<in> set ms. mb_state m = ACTIVE \<and> mb_identity m \<in> set (soi_joining input)
                \<and> tokens_rebuildable (soi_tokensPerMember input) m))"
    and scale_out_law: "ia_PlanScaleOut alg input = Inr plan \<Longrightarrow>
      members_ok (ts_members (tp_next plan))
      \<and> (\<exists>new. tp_next plan = (soi_current input)\<lparr>ts_tokensPerMember := soi_tokensPerMember input,
            ts_members := ts_members (soi_current input) @ new\<rparr>
           \<and> (\<forall>m \<in> set new. mb_state m = JOINING \<and> mb_identity m \<in> set (soi_joining input)
                \<and> tokens_rebuildable (soi_tokensPerMember input) m))
      \<and> (\<exists>m \<in> set (ts_members (tp_next plan)). mb_state m = JOINING)"
    and scale_in_law: "ia_PlanScaleIn alg input_in = Inr plan \<Longrightarrow>
      tp_next plan = (sii_current input_in)\<lparr>ts_members :=
        mark_members PRE_LEAVING (mi_address ` set (sii_leaving input_in)) (ts_members (sii_current input_in))\<rparr>"
    and failure_law: "ia_PlanFailure alg input_f = Inr plan \<Longrightarrow>
      tp_next plan = (fi_current input_f)\<lparr>ts_members :=
        mark_members FAILED (mi_address ` set (fi_failed input_f)) (ts_members (fi_current input_f))\<rparr>
      \<and> fi_failed input_f \<noteq> []
      \<and> (\<forall>i \<in> set (fi_failed input_f). \<exists>m \<in> set (ts_members (fi_current input_f)). mb_identity m = i \<and> IsCommittedMemberState (mb_state m))"

text \<open>A member that the repository can store, and a topology that it can store.\<close>

definition member_storable :: "u32 \<Rightarrow> Member \<Rightarrow> bool" where
  "member_storable n m \<longleftrightarrow>
     (if mb_state m = INITIAL then mb_tokens m = [] \<and> mb_tokenSeedOverrides m = [] else tokens_rebuildable n m)"

definition committable :: "(string \<Rightarrow> bool) \<Rightarrow> TopologyState \<Rightarrow> bool" where
  "committable hp st \<longleftrightarrow> topology_wf hp st \<and> (\<forall>m \<in> set (ts_members st). member_storable (ts_tokensPerMember st) m)
     \<and> \<not> ((\<exists>m \<in> set (ts_members st). mb_state m = JOINING) \<and> (\<exists>m \<in> set (ts_members st). mb_state m = LEAVING))"

lemma rebuildable_state [simp]: "tokens_rebuildable n (m\<lparr>mb_state := s\<rparr>) = tokens_rebuildable n m"
  by (simp add: tokens_rebuildable_def)

lemma storable_state:
  "member_storable n m \<Longrightarrow> mb_state m \<noteq> INITIAL \<Longrightarrow> s \<noteq> INITIAL \<Longrightarrow> member_storable n (m\<lparr>mb_state := s\<rparr>)"
  by (simp add: member_storable_def)

text \<open>What a storable topology stores: the codec accepts every one of its members.\<close>

lemma encode_overrides_complete:
  assumes "overrides_ok n os" "\<forall>p. prev = Some p \<longrightarrow> (\<forall>o' \<in> set os. p < so_tokenIndex o')"
  shows "encode_overrides n prev seeds os = Inr (foldl set_seed seeds os, map override_pb os)"
  using assms
proof (induction os arbitrary: prev seeds)
  case (Cons o' os)
  then show ?case by (cases prev) (simp_all add: overrides_ok_Cons)
qed simp

lemma storable_encodes:
  assumes "member_storable n m" "0 < n" "n \<le> MAX_HASH_RING_TOKENS_PER_MEMBER"
  shows "\<exists>pbs. EncodeTokenSeedOverrides m n = Inr pbs"
proof (cases "mb_state m = INITIAL")
  case False
  then have reb: "tokens_rebuildable n m" using assms(1) by (simp add: member_storable_def)
  then have "overrides_ok n (mb_tokenSeedOverrides m)" by (simp add: tokens_rebuildable_def overrides_ok_def)
  then show ?thesis using False reb assms(2,3) encode_overrides_complete [of n "mb_tokenSeedOverrides m" None "replicate (unat n) 0"]
    by (simp add: EncodeTokenSeedOverrides_def tokens_rebuildable_def apply_overrides_def)
qed (use assms in \<open>simp add: EncodeTokenSeedOverrides_def member_storable_def\<close>)

lemma next_version:
  assumes "v < 2 ^ 63 - 1"
  shows "0 < v + 1 \<and> v + 1 \<le> (2 ^ 63 - 1 :: u64)"
proof -
  have "unat v < 2 ^ 63 - 1" using assms by (simp add: word_less_nat_alt)
  moreover from this have "unat (v + 1) = unat v + 1" by (simp add: unat_word_ariths(1))
  ultimately show ?thesis by (simp add: word_less_nat_alt word_le_nat_alt)
qed

definition stable_state :: "MemberState \<Rightarrow> bool" where
  "stable_state s \<longleftrightarrow> s \<noteq> JOINING \<and> s \<noteq> LEAVING \<and> s \<noteq> FAILED"

lemma stable_state_iff: "s = INITIAL \<or> s = ACTIVE \<or> s = PRE_LEAVING \<longleftrightarrow> stable_state s"
  by (cases s) (simp_all add: stable_state_def)

lemma batch_states_cases:
  "batch_states_ok st \<longleftrightarrow>
     ts_activeBatch st = None \<and> (\<forall>m \<in> set (ts_members st). stable_state (mb_state m))
     \<or> (\<exists>b. ts_activeBatch st = Some b \<and> (\<forall>m \<in> set (ts_members st). MatchesBatch (mb_state m) (ab_type b))
          \<and> (\<exists>m \<in> set (ts_members st). mb_state m = batch_participant (ab_type b)))"
  by (cases "ts_activeBatch st") (simp_all add: batch_states_ok_def stable_state_iff)

lemma committable_next:
  assumes latest: "topology_wf hp latest" and v: "ts_version latest < 2 ^ 63 - 1"
    and ver: "ts_version st = ts_version latest + 1"
    and batch: "\<forall>b. ts_activeBatch st = Some b \<longrightarrow> ab_epoch b = ts_version st"
    and n: "0 < ts_tokensPerMember st" "ts_tokensPerMember st \<le> MAX_HASH_RING_TOKENS_PER_MEMBER"
    and states: "batch_states_ok st" and ok: "members_ok (ts_members st)"
    and addr: "\<forall>m \<in> set (ts_members st). \<exists>m' \<in> set (ts_members latest). mb_identity m' = mb_identity m"
    and storable: "\<forall>m \<in> set (ts_members st). member_storable (ts_tokensPerMember st) m"
    and one: "\<not> ((\<exists>m \<in> set (ts_members st). mb_state m = JOINING) \<and> (\<exists>m \<in> set (ts_members st). mb_state m = LEAVING))"
  shows "committable hp st"
proof -
  have addr': "length (mb_address m) \<le> MAX_MEMBER_ADDRESS_BYTES \<and> hp (mb_address m)" if m: "m \<in> set (ts_members st)" for m
  proof -
    from addr m obtain m' where "m' \<in> set (ts_members latest)" "mb_identity m' = mb_identity m" by blast
    then show ?thesis using latest unfolding topology_wf_def by metis
  qed
  have "mb_tokens m \<noteq> []" if "m \<in> set (ts_members st)" "IsCommittedMemberState (mb_state m)" for m
    using storable that n(1) by (auto simp: member_storable_def tokens_rebuildable_def IsCommittedMemberState_def word_less_nat_alt)
  then show ?thesis
    using next_version [OF v] ver batch n states ok addr' storable one by (auto simp: committable_def topology_wf_def)
qed

lemma members_ok_filter: "members_ok ms \<Longrightarrow> members_ok (filter P ms)"
  by (auto simp: members_ok_def distinct_map_filter distinct_filter_tokens)

lemma members_ok_map_state:
  "members_ok (map (\<lambda>m. if P m then m\<lparr>mb_state := s\<rparr> else m) ms) = members_ok ms"
  by (rule members_ok_cong) simp_all

lemma validate_selected_ok:
  "validate_selected latest state ads ids = Inr u \<Longrightarrow>
     (\<forall>i \<in> set ids. \<exists>m \<in> set (ts_members latest). mb_identity m = i \<and> mb_state m = state)"
  by (induction ids arbitrary: ads)
     (auto simp: SameIdentity_def find_Some_iff split: option.splits if_splits dest: nth_mem)

lemma ValidateSelected_ok:
  assumes "ValidateSelected latest ids state = Inr u"
  shows "ids \<noteq> [] \<and> (\<forall>i \<in> set ids. \<exists>m \<in> set (ts_members latest). mb_identity m = i \<and> mb_state m = state)"
  using assms validate_selected_ok by (auto simp: ValidateSelected_def split: if_splits)

subsection \<open>Every transition keeps the topology storable\<close>

definition confirmed_ok :: "TopologyState \<Rightarrow> MemberIdentity list \<Rightarrow> bool" where
  "confirmed_ok st confirmed \<longleftrightarrow> confirmed \<noteq> []
     \<and> (\<forall>i \<in> set confirmed. \<exists>m \<in> set (ts_members st). mb_identity m = i \<and> mb_state m \<noteq> INITIAL)"

inductive builder_step :: "IPlanningAlgorithm \<Rightarrow> TopologyState \<Rightarrow> TopologyState \<Rightarrow> bool" for alg where
  bootstrap: "BuildBootstrap alg st ready = Inr st' \<Longrightarrow> builder_step alg st st'"
| scale_out_start: "BuildScaleOutStart alg st joining = Inr plan \<Longrightarrow> builder_step alg st (tp_next plan)"
| scale_out_replan: "BuildScaleOutReplan alg st lost = Inr plan \<Longrightarrow> builder_step alg st (tp_next plan)"
| scale_in_start: "BuildScaleInStart alg st leaving = Inr plan \<Longrightarrow> builder_step alg st (tp_next plan)"
| failure: "BuildFailureStartOrReplan alg st confirmed = Inr plan \<Longrightarrow> confirmed_ok st confirmed
    \<Longrightarrow> builder_step alg st (tp_next plan)"
| scale_out_final: "BuildScaleOutFinal st = Inr st' \<Longrightarrow> builder_step alg st st'"
| scale_in_final: "BuildScaleInFinal st = Inr st' \<Longrightarrow> builder_step alg st st'"
| failure_final: "BuildFailureFinal st = Inr st' \<Longrightarrow> builder_step alg st st'"
| shutdown_final: "BuildClusterShutdownFinal st = Inr st' \<Longrightarrow> builder_step alg st st'"

definition advanced :: "(string \<Rightarrow> bool) \<Rightarrow> TopologyState \<Rightarrow> TopologyState \<Rightarrow> bool" where
  "advanced hp st st' \<longleftrightarrow> committable hp st' \<and> ts_version st' = ts_version st + 1
     \<and> (\<forall>b. ts_activeBatch st' = Some b \<longrightarrow> ab_epoch b = ts_version st')"

lemma committable_facts:
  assumes "committable hp st"
  shows "topology_wf hp st" "members_ok (ts_members st)" "batch_states_ok st"
    "0 < ts_tokensPerMember st" "ts_tokensPerMember st \<le> MAX_HASH_RING_TOKENS_PER_MEMBER"
    "\<forall>m \<in> set (ts_members st). member_storable (ts_tokensPerMember st) m"
    "\<not> ((\<exists>m \<in> set (ts_members st). mb_state m = JOINING) \<and> (\<exists>m \<in> set (ts_members st). mb_state m = LEAVING))"
  using assms by (auto simp: committable_def topology_wf_def)

lemma scale_out_final_step:
  assumes inv: "committable hp st" and v: "ts_version st < 2 ^ 63 - 1" and run: "BuildScaleOutFinal st = Inr st'"
  shows "advanced hp st st'"
proof -
  note f = committable_facts [OF inv]
  let ?g = "\<lambda>m. if mb_state m = JOINING then m\<lparr>mb_state := ACTIVE\<rparr> else m"
  have st': "st' = st\<lparr>ts_members := map ?g (ts_members st), ts_version := ts_version st + 1, ts_activeBatch := None\<rparr>"
    and b: "map_option ab_type (ts_activeBatch st) = Some SCALE_OUT"
    using run by (auto simp: BuildScaleOutFinal_def ValidateBatch_def split: if_splits)
  then have "\<forall>m \<in> set (ts_members st). mb_state m \<noteq> LEAVING \<and> mb_state m \<noteq> FAILED"
    using f(3) by (auto simp: batch_states_cases)
  then have "batch_states_ok st'" by (auto simp: st' batch_states_cases stable_state_def)
  moreover have "\<forall>m \<in> set (ts_members st'). member_storable (ts_tokensPerMember st') m"
    using f(6) storable_state by (auto simp: st')
  ultimately have "committable hp st'"
    using f(2,4,5) v by (intro committable_next [OF f(1) v]) (auto simp: st' members_ok_map_state)
  then show ?thesis by (simp add: advanced_def st')
qed

lemma scale_in_final_step:
  assumes inv: "committable hp st" and v: "ts_version st < 2 ^ 63 - 1" and run: "BuildScaleInFinal st = Inr st'"
  shows "advanced hp st st'"
proof -
  note f = committable_facts [OF inv]
  define gone where "gone = mi_address ` set (MembersInState st LEAVING)"
  have st': "st' = (RemoveMembers st gone)\<lparr>ts_version := ts_version st + 1, ts_activeBatch := None\<rparr>"
    and b: "map_option ab_type (ts_activeBatch st) = Some SCALE_IN"
    using run by (auto simp: BuildScaleInFinal_def ValidateBatch_def gone_def Let_def split: if_splits)
  then have "\<forall>m \<in> set (ts_members st). mb_state m \<noteq> JOINING \<and> mb_state m \<noteq> FAILED"
    using f(3) by (auto simp: batch_states_cases)
  moreover have "mb_address m \<in> gone" if "m \<in> set (ts_members st)" "mb_state m = LEAVING" for m
    using that by (auto simp: gone_def MembersInState_def)
  ultimately have "batch_states_ok st'" by (auto simp: st' batch_states_cases stable_state_def RemoveMembers_def)
  then have "committable hp st'"
    using f(2,4-6) v by (intro committable_next [OF f(1) v]) (auto simp: st' RemoveMembers_def members_ok_filter batch_states_cases stable_state_def)
  then show ?thesis by (simp add: advanced_def st')
qed

lemma shutdown_final_step:
  assumes inv: "committable hp st" and v: "ts_version st < 2 ^ 63 - 1" and run: "BuildClusterShutdownFinal st = Inr st'"
  shows "advanced hp st st'"
proof -
  note f = committable_facts [OF inv]
  have st': "st' = st\<lparr>ts_version := ts_version st + 1, ts_members := [], ts_activeBatch := None\<rparr>"
    using run by (auto simp: BuildClusterShutdownFinal_def split: if_splits)
  then have "committable hp st'"
    using f(4,5) v by (intro committable_next [OF f(1) v]) (auto simp: batch_states_cases members_ok_def)
  then show ?thesis by (simp add: advanced_def st')
qed

lemma failure_final_step:
  assumes inv: "committable hp st" and v: "ts_version st < 2 ^ 63 - 1" and run: "BuildFailureFinal st = Inr st'"
  shows "advanced hp st st'"
proof -
  note f = committable_facts [OF inv]
  define gone where "gone = mi_address ` set (MembersInState st FAILED)"
  define kept where "kept = filter (\<lambda>m. mb_address m \<notin> gone) (ts_members st)"
  have live: "mb_state m \<noteq> FAILED" if "m \<in> set kept" for m
    using that by (auto simp: kept_def gone_def MembersInState_def)
  have sub: "set kept \<subseteq> set (ts_members st)" by (auto simp: kept_def)
  define v' where "v' = ts_version st + 1"
  have some: "MembersInState (RemoveMembers st gone) s \<noteq> [] \<longleftrightarrow> (\<exists>m \<in> set kept. mb_state m = s)" for s
    by (auto simp: MembersInState_def RemoveMembers_def kept_def filter_empty_conv)
  obtain ms b where st': "st' = st\<lparr>ts_members := ms, ts_activeBatch := b, ts_version := v'\<rparr>"
    and cases: "ms = [] \<and> b = None
      \<or> ms = kept \<and> (\<exists>m \<in> set kept. mb_state m = JOINING) \<and> b = Some \<lparr>ab_type = SCALE_OUT, ab_epoch = v'\<rparr>
      \<or> ms = kept \<and> (\<exists>m \<in> set kept. mb_state m = LEAVING) \<and> b = Some \<lparr>ab_type = SCALE_IN, ab_epoch = v'\<rparr>
      \<or> ms = kept \<and> \<not> (\<exists>m \<in> set kept. mb_state m = JOINING) \<and> \<not> (\<exists>m \<in> set kept. mb_state m = LEAVING) \<and> b = None"
  proof -
    define committed where "committed = filter (\<lambda>m. mb_state m = ACTIVE \<or> mb_state m = LEAVING \<or> mb_state m = PRE_LEAVING) kept"
    have built: "RemoveMembers st gone = st\<lparr>ts_members := kept\<rparr>" by (simp add: RemoveMembers_def kept_def)
    have run': "st' = (if committed = [] then st\<lparr>ts_members := [], ts_activeBatch := None\<rparr>
        else if \<exists>m \<in> set kept. mb_state m = JOINING then st\<lparr>ts_members := kept, ts_activeBatch := Some \<lparr>ab_type = SCALE_OUT, ab_epoch = v'\<rparr>\<rparr>
        else if \<exists>m \<in> set kept. mb_state m = LEAVING then st\<lparr>ts_members := kept, ts_activeBatch := Some \<lparr>ab_type = SCALE_IN, ab_epoch = v'\<rparr>\<rparr>
        else st\<lparr>ts_members := kept, ts_activeBatch := None\<rparr>)\<lparr>ts_version := v'\<rparr>"
      using run unfolding BuildFailureFinal_def Let_def gone_def [symmetric] some unfolding built
      by (auto simp: committed_def v'_def ValidateBatch_def split: if_splits)
    show thesis
    proof (cases "committed = []")
      case True
      then show thesis using that [of None "[]"] run' by simp
    next
      case False
      then show thesis using that [of _ kept] run' by (simp split: if_splits)
    qed
  qed
  have one: "\<not> ((\<exists>m \<in> set kept. mb_state m = JOINING) \<and> (\<exists>m \<in> set kept. mb_state m = LEAVING))" using f(7) sub by blast
  have "batch_states_ok st'"
    using cases one live by (auto simp: st' batch_states_cases stable_state_def)
  moreover have "set ms \<subseteq> set (ts_members st)" "members_ok ms"
    using cases sub f(2) members_ok_filter [OF f(2)] by (auto simp: kept_def members_ok_def)
  moreover have "\<not> ((\<exists>m \<in> set ms. mb_state m = JOINING) \<and> (\<exists>m \<in> set ms. mb_state m = LEAVING))"
    using cases one by auto
  ultimately have "committable hp st'"
    using f(4-6) v cases by (intro committable_next [OF f(1) v]) (auto simp: st' v'_def)
  then show ?thesis using cases by (auto simp: advanced_def st' v'_def)
qed

lemma restore_state_id:
  "\<forall>x \<in> set ms. mb_identity x = mb_identity m \<longrightarrow> mb_state x = mb_state m \<Longrightarrow> restore_state m ms = ms"
  by (induction ms) auto

lemma preserve_ordinary_id:
  assumes "\<forall>m \<in> set ms. (mb_state m = JOINING \<or> mb_state m = LEAVING) \<and> mb_address m \<notin> failed
     \<longrightarrow> (\<forall>x \<in> set built. mb_identity x = mb_identity m \<longrightarrow> mb_state x = mb_state m)"
  shows "preserve_ordinary failed ms built = built"
proof -
  have "(if (mb_state m = JOINING \<or> mb_state m = LEAVING) \<and> mb_address m \<notin> failed then restore_state m built else built) = built"
    if "m \<in> set ms" for m using assms that restore_state_id [of built m] by meson
  then show ?thesis unfolding preserve_ordinary_def by (induction ms) simp_all
qed

lemma mark_members_id:
  assumes "\<forall>m \<in> set ms. mb_address m \<in> ex \<longrightarrow> mb_state m = s"
  shows "mark_members s ex ms = ms"
  using assms by (auto simp: mark_members_def intro!: map_idI)

lemma selected_member:
  assumes "members_ok ms" "\<forall>i \<in> set ids. \<exists>m \<in> set ms. mb_identity m = i \<and> P m" "m \<in> set ms" "mb_address m \<in> mi_address ` set ids"
  shows "mb_identity m \<in> set ids \<and> P m"
proof -
  from assms(4) obtain i where i: "i \<in> set ids" "mb_address m = mi_address i" by auto
  with assms(2) obtain m' where "m' \<in> set ms" "mb_identity m' = i" "P m'" by blast
  then show ?thesis using same_member [OF assms(1) assms(3), of m'] i by auto
qed

context planning_algorithm
begin

lemma scale_out_plan_step:
  assumes inv: "committable hp st" and v: "ts_version st < 2 ^ 63 - 1"
    and no_leaving: "\<forall>m \<in> set (ts_members st). mb_state m \<noteq> LEAVING \<and> mb_state m \<noteq> FAILED"
    and plan: "ia_PlanScaleOut alg \<lparr>soi_current = RemoveMembers st gone, soi_joining = joining,
        soi_tokensPerMember = ts_tokensPerMember (RemoveMembers st gone)\<rparr> = Inr built"
    and ids: "\<forall>i \<in> set joining. \<exists>m \<in> set (ts_members st). mb_identity m = i"
  shows "advanced hp st (tp_next (AdvanceEpoch st SCALE_OUT built))"
proof -
  note f = committable_facts [OF inv]
  let ?kept = "filter (\<lambda>m. mb_address m \<notin> gone) (ts_members st)"
  obtain new where nxt: "tp_next built = (RemoveMembers st gone)\<lparr>ts_tokensPerMember := ts_tokensPerMember (RemoveMembers st gone),
        ts_members := ts_members (RemoveMembers st gone) @ new\<rparr>"
    and new': "\<forall>m \<in> set new. mb_state m = JOINING \<and> mb_identity m \<in> set joining
        \<and> tokens_rebuildable (ts_tokensPerMember (RemoveMembers st gone)) m"
    and law: "members_ok (ts_members (tp_next built))" "\<exists>m \<in> set (ts_members (tp_next built)). mb_state m = JOINING"
    using scale_out_law [OF plan, unfolded ScaleOutPlanInput.select_convs] by blast
  have kept: "ts_members (tp_next built) = ?kept @ new" "ts_tokensPerMember (tp_next built) = ts_tokensPerMember st"
    by (simp_all add: nxt RemoveMembers_def)
  have ok: "members_ok (?kept @ new)" and j: "\<exists>m \<in> set (?kept @ new). mb_state m = JOINING"
    using law unfolding kept by blast+
  have new: "\<forall>m \<in> set new. mb_state m = JOINING \<and> mb_identity m \<in> set joining \<and> tokens_rebuildable (ts_tokensPerMember st) m"
    using new' by (simp add: RemoveMembers_def)
  let ?st' = "tp_next (AdvanceEpoch st SCALE_OUT built)"
  have fields: "ts_members ?st' = ?kept @ new" "ts_tokensPerMember ?st' = ts_tokensPerMember st" "ts_version ?st' = ts_version st + 1"
    "ts_activeBatch ?st' = Some \<lparr>ab_type = SCALE_OUT, ab_epoch = ts_version st + 1\<rparr>"
    by (simp_all add: AdvanceEpoch_def kept)
  have "batch_states_ok ?st'" using j no_leaving new by (auto simp: batch_states_cases fields)
  moreover have "\<forall>m \<in> set (?kept @ new). \<exists>m' \<in> set (ts_members st). mb_identity m' = mb_identity m"
    using new ids by auto
  moreover have "\<forall>m \<in> set (?kept @ new). member_storable (ts_tokensPerMember st) m"
    using f(6) new by (auto simp: member_storable_def)
  moreover have "\<not> (\<exists>m \<in> set (?kept @ new). mb_state m = LEAVING)" using no_leaving new by auto
  ultimately have "committable hp ?st'"
    using f(4,5) v ok by (intro committable_next [OF f(1) v]) (simp_all add: fields)
  then show ?thesis by (simp add: advanced_def fields)
qed

lemma scale_out_start_step:
  assumes inv: "committable hp st" and v: "ts_version st < 2 ^ 63 - 1" and run: "BuildScaleOutStart alg st joining = Inr plan"
  shows "advanced hp st (tp_next plan)"
proof -
  obtain built where b: "ts_activeBatch st = None" and sel: "ValidateSelected st joining INITIAL = Inr ()"
    and plan: "ia_PlanScaleOut alg \<lparr>soi_current = RemoveMembers st (mi_address ` set joining), soi_joining = joining,
        soi_tokensPerMember = ts_tokensPerMember (RemoveMembers st (mi_address ` set joining))\<rparr> = Inr built"
    and out: "plan = AdvanceEpoch st SCALE_OUT built"
    using run by (auto simp: BuildScaleOutStart_def bind_result_Inr Let_def split: if_splits)
  have "\<forall>m \<in> set (ts_members st). mb_state m \<noteq> LEAVING \<and> mb_state m \<noteq> FAILED"
    using committable_facts(3) [OF inv] b by (auto simp: batch_states_cases stable_state_def)
  moreover have "\<forall>i \<in> set joining. \<exists>m \<in> set (ts_members st). mb_identity m = i" using ValidateSelected_ok [OF sel] by blast
  ultimately show ?thesis using scale_out_plan_step [OF inv v _ plan] out by simp
qed

lemma scale_out_replan_step:
  assumes inv: "committable hp st" and v: "ts_version st < 2 ^ 63 - 1" and run: "BuildScaleOutReplan alg st lost = Inr plan"
  shows "advanced hp st (tp_next plan)"
proof -
  note f = committable_facts [OF inv]
  let ?r = "RemoveMembers st (mi_address ` set lost)" and ?j = "MembersInState (RemoveMembers st (mi_address ` set lost)) JOINING"
  have "map_option ab_type (ts_activeBatch st) = Some SCALE_OUT"
    using run by (auto simp: BuildScaleOutReplan_def ValidateBatch_def bind_result_Inr split: if_splits)
  then have states: "\<forall>m \<in> set (ts_members st). mb_state m \<noteq> LEAVING \<and> mb_state m \<noteq> FAILED"
    using f(3) by (auto simp: batch_states_cases)
  show ?thesis
  proof (cases "?j = []")
    case False
    then obtain built where "ia_PlanScaleOut alg \<lparr>soi_current = ?r, soi_joining = ?j, soi_tokensPerMember = ts_tokensPerMember ?r\<rparr> = Inr built"
      "plan = AdvanceEpoch st SCALE_OUT built"
      using run by (auto simp: BuildScaleOutReplan_def bind_result_Inr Let_def split: if_splits)
    moreover have "\<forall>i \<in> set ?j. \<exists>m \<in> set (ts_members st). mb_identity m = i" by (auto simp: MembersInState_def RemoveMembers_def)
    ultimately show ?thesis using scale_out_plan_step [OF inv v states] by blast
  next
    case True
    then have nxt: "tp_next plan = ?r\<lparr>ts_version := ts_version st + 1, ts_activeBatch := None\<rparr>"
      using run by (auto simp: BuildScaleOutReplan_def bind_result_Inr Let_def split: if_splits)
    have "\<forall>m \<in> set (ts_members ?r). stable_state (mb_state m)"
      using True states by (auto simp: MembersInState_def RemoveMembers_def stable_state_def filter_empty_conv)
    then have "committable hp (tp_next plan)"
      using f(2,4-6) v by (intro committable_next [OF f(1) v])
        (auto simp: nxt RemoveMembers_def members_ok_filter batch_states_cases stable_state_def)
    then show ?thesis by (simp add: advanced_def nxt)
  qed
qed

lemma scale_in_start_step:
  assumes inv: "committable hp st" and v: "ts_version st < 2 ^ 63 - 1" and run: "BuildScaleInStart alg st leaving = Inr plan"
  shows "advanced hp st (tp_next plan)"
proof -
  note f = committable_facts [OF inv]
  let ?g = "\<lambda>m. if mb_state m = PRE_LEAVING \<and> mb_identity m \<in> set leaving then m\<lparr>mb_state := LEAVING\<rparr> else m"
  let ?ms = "map ?g (ts_members st)"
  obtain built where b: "ts_activeBatch st = None" and sel: "ValidateSelected st leaving PRE_LEAVING = Inr ()"
    and plan: "ia_PlanScaleIn alg \<lparr>sii_current = st, sii_leaving = leaving\<rparr> = Inr built"
    and out: "plan = AdvanceEpoch st SCALE_IN (built\<lparr>tp_next := (tp_next built)\<lparr>ts_members := map ?g (ts_members (tp_next built))\<rparr>\<rparr>)"
    using run by (auto simp: BuildScaleInStart_def bind_result_Inr split: if_splits)
  note sel' = ValidateSelected_ok [OF sel]
  have "mark_members PRE_LEAVING (mi_address ` set leaving) (ts_members st) = ts_members st"
    using selected_member [OF f(2), of leaving "\<lambda>m. mb_state m = PRE_LEAVING"] sel' by (intro mark_members_id) blast
  then have fields: "ts_members (tp_next plan) = ?ms" "ts_tokensPerMember (tp_next plan) = ts_tokensPerMember st"
    "ts_version (tp_next plan) = ts_version st + 1"
    "ts_activeBatch (tp_next plan) = Some \<lparr>ab_type = SCALE_IN, ab_epoch = ts_version st + 1\<rparr>"
    using scale_in_law [OF plan] by (simp_all add: out AdvanceEpoch_def)
  have stable: "\<forall>m \<in> set (ts_members st). mb_state m \<noteq> JOINING \<and> mb_state m \<noteq> FAILED"
    using f(3) b by (auto simp: batch_states_cases stable_state_def)
  from sel' obtain i m where i: "i \<in> set leaving" "m \<in> set (ts_members st)" "mb_identity m = i" "mb_state m = PRE_LEAVING"
    by (meson hd_in_set)
  have "?g m \<in> set ?ms" using i(2) unfolding set_map by (rule imageI)
  then have part: "\<exists>m \<in> set ?ms. mb_state m = LEAVING" by (rule bexI [rotated]) (use i in simp)
  have "batch_states_ok (tp_next plan)" using part stable by (auto simp: batch_states_cases fields)
  moreover have "\<forall>m \<in> set ?ms. member_storable (ts_tokensPerMember st) m"
    using f(6) storable_state by auto
  moreover have "\<not> (\<exists>m \<in> set ?ms. mb_state m = JOINING)" using stable by auto
  moreover have "members_ok ?ms" using f(2) by (simp only: members_ok_map_state)
  moreover have "\<forall>m \<in> set ?ms. \<exists>m' \<in> set (ts_members st). mb_identity m' = mb_identity m" by auto
  ultimately have "committable hp (tp_next plan)"
    using f(4,5) v by (intro committable_next [OF f(1) v]) (simp_all add: fields del: set_map)
  then show ?thesis by (simp add: advanced_def fields)
qed

lemma BuildFailure_fields:
  assumes ok: "members_ok (ts_members st)" and run: "BuildFailureStartOrReplan alg st confirmed = Inr plan"
  shows "ts_members (tp_next plan) = map (\<lambda>m. if mb_address m \<in> mi_address ` set confirmed then m\<lparr>mb_state := FAILED\<rparr> else m) (ts_members st)
    \<and> ts_tokensPerMember (tp_next plan) = ts_tokensPerMember st \<and> ts_version (tp_next plan) = ts_version st + 1
    \<and> ts_activeBatch (tp_next plan) = Some \<lparr>ab_type = FAILURE, ab_epoch = ts_version st + 1\<rparr>"
proof -
  let ?failed = "mi_address ` set confirmed" and ?ms = "ts_members st"
  let ?plan = "\<lambda>m. if mb_state m = FAILED then m\<lparr>mb_state := ACTIVE\<rparr> else m"
  have retained: "\<forall>m \<in> set ?ms. mb_state m = FAILED \<longrightarrow> mb_address m \<in> ?failed"
    using run by (auto simp: BuildFailureStartOrReplan_def list_all_iff split: if_splits)
  show ?thesis
  proof (cases "list_ex (\<lambda>m. mb_state m = ACTIVE \<and> mb_address m \<notin> ?failed) ?ms")
    case False
    then show ?thesis using run by (auto simp: BuildFailureStartOrReplan_def AdvanceEpoch_def Let_def split: if_splits)
  next
    case True
    then obtain built where plan: "ia_PlanFailure alg \<lparr>fi_current = st\<lparr>ts_members := map ?plan ?ms\<rparr>, fi_failed = confirmed\<rparr> = Inr built"
      and out: "plan = AdvanceEpoch st FAILURE (built\<lparr>tp_next := (tp_next built)\<lparr>ts_members :=
                  preserve_ordinary ?failed ?ms (ts_members (tp_next built))\<rparr>\<rparr>)"
      using run by (auto simp: BuildFailureStartOrReplan_def bind_result_Inr Let_def split: if_splits)
    have nxt: "tp_next built = st\<lparr>ts_members := mark_members FAILED ?failed (map ?plan ?ms)\<rparr>"
      using failure_law [OF plan] by simp
    have marked: "mark_members FAILED ?failed (map ?plan ?ms) = map (\<lambda>m. if mb_address m \<in> ?failed then m\<lparr>mb_state := FAILED\<rparr> else m) ?ms"
      using retained by (auto simp: mark_members_def)
    have "preserve_ordinary ?failed ?ms (mark_members FAILED ?failed (map ?plan ?ms)) = mark_members FAILED ?failed (map ?plan ?ms)"
      unfolding marked
    proof (intro preserve_ordinary_id ballI impI)
      fix m y
      assume m: "m \<in> set ?ms" "(mb_state m = JOINING \<or> mb_state m = LEAVING) \<and> mb_address m \<notin> ?failed"
        and y: "y \<in> set (map (\<lambda>m. if mb_address m \<in> ?failed then m\<lparr>mb_state := FAILED\<rparr> else m) ?ms)" "mb_identity y = mb_identity m"
      then obtain x where x: "x \<in> set ?ms" "y = (if mb_address x \<in> ?failed then x\<lparr>mb_state := FAILED\<rparr> else x)" by auto
      then have "x = m" using same_member [OF ok x(1) m(1)] y(2) by (simp split: if_splits)
      then show "mb_state y = mb_state m" using x(2) m(2) by simp
    qed
    then show ?thesis by (simp add: out AdvanceEpoch_def nxt marked)
  qed
qed

lemma failure_step:
  assumes inv: "committable hp st" and v: "ts_version st < 2 ^ 63 - 1" and confirmed: "confirmed_ok st confirmed"
    and run: "BuildFailureStartOrReplan alg st confirmed = Inr plan"
  shows "advanced hp st (tp_next plan)"
proof -
  note f = committable_facts [OF inv]
  let ?failed = "mi_address ` set confirmed"
  let ?g = "\<lambda>m. if mb_address m \<in> ?failed then m\<lparr>mb_state := FAILED\<rparr> else m"
  let ?ms = "map ?g (ts_members st)"
  have fields: "ts_members (tp_next plan) = ?ms" "ts_tokensPerMember (tp_next plan) = ts_tokensPerMember st"
    "ts_version (tp_next plan) = ts_version st + 1"
    "ts_activeBatch (tp_next plan) = Some \<lparr>ab_type = FAILURE, ab_epoch = ts_version st + 1\<rparr>"
    using BuildFailure_fields [OF f(2) run] by simp_all
  have sel: "mb_state m \<noteq> INITIAL" if "m \<in> set (ts_members st)" "mb_address m \<in> ?failed" for m
    using selected_member [OF f(2), of confirmed "\<lambda>m. mb_state m \<noteq> INITIAL"] confirmed that by (auto simp: confirmed_ok_def)
  from confirmed obtain i m where i: "i \<in> set confirmed" "m \<in> set (ts_members st)" "mb_identity m = i"
    unfolding confirmed_ok_def by (meson hd_in_set)
  have "?g m \<in> set ?ms" using i(2) unfolding set_map by (rule imageI)
  then have part: "\<exists>m \<in> set ?ms. mb_state m = FAILED" by (rule bexI [rotated]) (use i in auto)
  have "batch_states_ok (tp_next plan)" using part by (simp add: batch_states_cases fields del: set_map)
  moreover have "\<forall>m \<in> set ?ms. member_storable (ts_tokensPerMember st) m"
    using f(6) storable_state sel by auto
  moreover have "\<not> ((\<exists>m \<in> set ?ms. mb_state m = JOINING) \<and> (\<exists>m \<in> set ?ms. mb_state m = LEAVING))" using f(7) by auto
  moreover have "members_ok ?ms" using f(2) by (simp only: members_ok_map_state)
  moreover have "\<forall>m \<in> set ?ms. \<exists>m' \<in> set (ts_members st). mb_identity m' = mb_identity m" by auto
  ultimately have "committable hp (tp_next plan)"
    using f(4,5) v by (intro committable_next [OF f(1) v]) (simp_all add: fields del: set_map)
  then show ?thesis by (simp add: advanced_def fields)
qed

lemma bootstrap_step:
  assumes inv: "committable hp st" and v: "ts_version st < 2 ^ 63 - 1" and run: "BuildBootstrap alg st ready = Inr st'"
  shows "advanced hp st st'"
proof -
  note f = committable_facts [OF inv]
  let ?n = DEFAULT_HASH_RING_TOKENS_PER_MEMBER
  let ?rest = "filter (\<lambda>m. mb_address m \<notin> mi_address ` set ready) (ts_members st)"
  obtain built where none: "ts_activeBatch st = None" "\<forall>m \<in> set (ts_members st). \<not> IsCommittedMemberState (mb_state m)"
    and sel: "ValidateSelected st ready INITIAL = Inr ()"
    and plan: "ia_BuildInitialPlacement alg \<lparr>soi_current = empty_TopologyState, soi_joining = ready, soi_tokensPerMember = ?n\<rparr> = Inr built"
    and st': "st' = (tp_next built)\<lparr>ts_members := ts_members (tp_next built) @ ?rest, ts_version := ts_version st + 1,
             ts_clusterHasInit := (ts_clusterHasInit st \<or> ts_clusterHasInit (tp_next built))\<rparr>"
    and val: "ia_Validate alg st' = Inr ()"
    using run by (auto simp: BuildBootstrap_def bind_result_Inr Let_def list_ex_iff split: if_splits)
  from initial_law [OF plan, unfolded ScaleOutPlanInput.select_convs] obtain ms where
    n: "0 < ?n" "?n \<le> MAX_HASH_RING_TOKENS_PER_MEMBER"
    and nxt: "tp_next built = empty_TopologyState\<lparr>ts_clusterHasInit := True, ts_tokensPerMember := ?n, ts_members := ms\<rparr>"
    and ms: "\<forall>m \<in> set ms. mb_state m = ACTIVE \<and> mb_identity m \<in> set ready \<and> tokens_rebuildable ?n m" by blast
  have fields: "ts_members st' = ms @ ?rest" "ts_tokensPerMember st' = ?n" "ts_version st' = ts_version st + 1" "ts_activeBatch st' = None"
    by (simp_all add: st' nxt empty_TopologyState_def)
  have initial: "mb_state m = INITIAL" if "m \<in> set (ts_members st)" for m
    using f(3) none that by (cases "mb_state m") (auto simp: batch_states_cases stable_state_def IsCommittedMemberState_def)
  have "batch_states_ok st'" using ms initial by (auto simp: batch_states_cases fields stable_state_def)
  moreover have "\<forall>m \<in> set (ms @ ?rest). member_storable ?n m"
    using ms initial f(6) by (auto simp: member_storable_def)
  moreover have "\<forall>m \<in> set (ms @ ?rest). \<exists>m' \<in> set (ts_members st). mb_identity m' = mb_identity m"
    using ms ValidateSelected_ok [OF sel] by auto
  moreover have "members_ok (ms @ ?rest)" using validate_law [OF val] by (simp add: fields)
  moreover have "\<not> (\<exists>m \<in> set (ms @ ?rest). mb_state m = JOINING)" using ms initial by auto
  ultimately have "committable hp st'"
    using n v by (intro committable_next [OF f(1) v]) (simp_all add: fields)
  then show ?thesis by (simp add: advanced_def fields)
qed

lemma builder_step_advances:
  assumes "builder_step alg st st'" "committable hp st" "ts_version st < 2 ^ 63 - 1"
  shows "advanced hp st st'"
  using assms
proof cases
  case (bootstrap ready)
  then show ?thesis using bootstrap_step assms(2,3) by blast
next
  case (scale_out_start joining plan)
  then show ?thesis using scale_out_start_step assms(2,3) by blast
next
  case (scale_out_replan lost plan)
  then show ?thesis using scale_out_replan_step assms(2,3) by blast
next
  case (scale_in_start leaving plan)
  then show ?thesis using scale_in_start_step assms(2,3) by blast
next
  case (failure confirmed plan)
  then show ?thesis using failure_step assms(2,3) by blast
qed (use assms scale_out_final_step scale_in_final_step failure_final_step shutdown_final_step in blast)+

end

subsection \<open>The hash algorithm provides it\<close>

lemma select_all_rebuildable:
  assumes "select_all pl n ids = Inr allocations" "placement_ok pl"
  shows "map fst allocations = map mi_address ids \<and>
    (\<forall>(a, ts, os) \<in> set allocations. tokens_rebuildable n \<lparr>mb_identity = \<lparr>mi_id = i, mi_address = a\<rparr>, mb_state = s,
       mb_tokens = ts, mb_tokenSeedOverrides = os\<rparr>)"
  using assms
proof (induction ids arbitrary: pl allocations)
  case (Cons j ids)
  obtain r pl' where sel: "SelectTokens pl j n = (r, pl')" by (cases "SelectTokens pl j n")
  obtain ts os rest where r: "r = Inr (ts, os)" and rest: "select_all pl' n ids = Inr rest"
    and out: "allocations = (mi_address j, ts, os) # rest"
    using Cons.prems(1) sel by (cases r) (auto simp: bind_result_Inr)
  have pl: "placement_ok pl'" using SelectTokens_ok [OF Cons.prems(2) sel] by simp
  from SelectTokens_contract [OF Cons.prems(2) sel [unfolded r]] Cons.IH [OF rest pl] out show ?case
    by (simp add: tokens_rebuildable_def)
qed simp

lemma BuildInitialPlacement_law:
  assumes "BuildInitialPlacement hp input = Inr plan"
  shows "0 < soi_tokensPerMember input \<and> soi_tokensPerMember input \<le> MAX_HASH_RING_TOKENS_PER_MEMBER
    \<and> (\<exists>ms. tp_next plan = (soi_current input)\<lparr>ts_clusterHasInit := True, ts_tokensPerMember := soi_tokensPerMember input,
          ts_members := ms\<rparr>
         \<and> (\<forall>m \<in> set ms. mb_state m = ACTIVE \<and> mb_identity m \<in> set (soi_joining input)
              \<and> tokens_rebuildable (soi_tokensPerMember input) m))"
proof -
  let ?n = "soi_tokensPerMember input" and ?ids = "sort_key mi_address (soi_joining input)"
  let ?m = "\<lambda>allocations i. \<lparr>mb_identity = i, mb_state = ACTIVE, mb_tokens = fst (allocation_of allocations i),
    mb_tokenSeedOverrides = snd (allocation_of allocations i)\<rparr>"
  obtain allocations balanced where n: "0 < ?n" "?n \<le> MAX_HASH_RING_TOKENS_PER_MEMBER"
    and empty: "ts_members (soi_current input) = []"
    and alloc: "select_all (new_TokenPlacement [] {} balanced) ?n ?ids = Inr allocations"
    and out: "tp_next plan = (soi_current input)\<lparr>ts_clusterHasInit := True, ts_tokensPerMember := ?n,
        ts_members := map (?m allocations) ?ids\<rparr>"
    using assms by (auto simp: BuildInitialPlacement_def AllocateTokens_def bind_result_Inr Let_def split: if_splits)
  note sel = select_all_rebuildable [OF alloc new_placement_ok]
  have "tokens_rebuildable ?n (?m allocations i)" if "i \<in> set (soi_joining input)" for i
  proof -
    have "mi_address i \<in> fst ` set allocations" using sel [of "mi_id i" ACTIVE] that by (metis list.set_map set_sort imageI)
    then obtain ts os where a: "map_of allocations (mi_address i) = Some (ts, os)"
      by (metis map_of_eq_None_iff not_None_eq surj_pair)
    then have "(mi_address i, ts, os) \<in> set allocations" by (rule map_of_SomeD)
    then have "tokens_rebuildable ?n \<lparr>mb_identity = \<lparr>mi_id = mi_id i, mi_address = mi_address i\<rparr>, mb_state = ACTIVE,
        mb_tokens = ts, mb_tokenSeedOverrides = os\<rparr>" using sel [of "mi_id i" ACTIVE] by blast
    then show ?thesis using a by (simp add: allocation_of_def tokens_rebuildable_def)
  qed
  then show ?thesis using n out by (intro conjI exI [of _ "map (?m allocations) ?ids"]) auto
qed

interpretation hash: planning_algorithm "hash_planning hp" for hp
proof
  fix st assume "ia_Validate (hash_planning hp) st = Inr ()"
  then show "members_ok (ts_members st)" by (simp add: hash_planning_def Validate_iff)
next
  fix input plan
  assume "ia_BuildInitialPlacement (hash_planning hp) input = Inr plan"
  then have "BuildInitialPlacement hp input = Inr plan" by (simp add: hash_planning_def)
  then show "0 < soi_tokensPerMember input \<and> soi_tokensPerMember input \<le> MAX_HASH_RING_TOKENS_PER_MEMBER
    \<and> (\<exists>ms. tp_next plan = (soi_current input)\<lparr>ts_clusterHasInit := True, ts_tokensPerMember := soi_tokensPerMember input,
          ts_members := ms\<rparr>
         \<and> (\<forall>m \<in> set ms. mb_state m = ACTIVE \<and> mb_identity m \<in> set (soi_joining input)
              \<and> tokens_rebuildable (soi_tokensPerMember input) m))" by (rule BuildInitialPlacement_law)
next
  fix input plan
  assume "ia_PlanScaleOut (hash_planning hp) input = Inr plan"
  then have plan: "PlanScaleOut hp input = Inr plan" by (simp add: hash_planning_def)
  show "members_ok (ts_members (tp_next plan))
    \<and> (\<exists>new. tp_next plan = (soi_current input)\<lparr>ts_tokensPerMember := soi_tokensPerMember input,
          ts_members := ts_members (soi_current input) @ new\<rparr>
         \<and> (\<forall>m \<in> set new. mb_state m = JOINING \<and> mb_identity m \<in> set (soi_joining input)
              \<and> tokens_rebuildable (soi_tokensPerMember input) m))
    \<and> (\<exists>m \<in> set (ts_members (tp_next plan)). mb_state m = JOINING)"
    by (rule PlanScaleOut_cases [OF plan]) (meson hd_in_set)
next
  fix input_in plan
  assume "ia_PlanScaleIn (hash_planning hp) input_in = Inr plan"
  then show "tp_next plan = (sii_current input_in)\<lparr>ts_members :=
      mark_members PRE_LEAVING (mi_address ` set (sii_leaving input_in)) (ts_members (sii_current input_in))\<rparr>"
    by (auto simp: hash_planning_def PlanScaleIn_def bind_result_Inr Let_def split: if_splits)
next
  fix input_f plan
  assume "ia_PlanFailure (hash_planning hp) input_f = Inr plan"
  then have "ValidateSelectedMembers (fi_current input_f) (fi_failed input_f) = Inr ()" "fi_failed input_f \<noteq> []"
    "tp_next plan = (fi_current input_f)\<lparr>ts_members :=
      mark_members FAILED (mi_address ` set (fi_failed input_f)) (ts_members (fi_current input_f))\<rparr>"
    by (auto simp: hash_planning_def PlanFailure_def bind_result_Inr Let_def split: if_splits)
  then show "tp_next plan = (fi_current input_f)\<lparr>ts_members :=
      mark_members FAILED (mi_address ` set (fi_failed input_f)) (ts_members (fi_current input_f))\<rparr>
    \<and> fi_failed input_f \<noteq> []
    \<and> (\<forall>i \<in> set (fi_failed input_f). \<exists>m \<in> set (ts_members (fi_current input_f)). mb_identity m = i \<and> IsCommittedMemberState (mb_state m))"
    using ValidateSelectedMembers_ok by blast
qed

text \<open>
  C32. Every transition the controller builds can be stored. From a storable topology (accepted by
  canonicalization, INITIAL members without tokens, every other member with tokens that its seed
  overrides rebuild, no scale-out and scale-in at once) each successful operation of the builder on
  the hash algorithm gives a storable topology again: canonicalization accepts it and the codec
  encodes every member. The version grows by one, and an active batch has the new version as epoch.
  A failure is planned for confirmed members that are in the topology and past INITIAL.
\<close>

theorem transitions_stay_storable:
  assumes "builder_step (hash_planning hp) st st'" "committable hp st" "ts_version st < 2 ^ 63 - 1"
  shows "committable hp st' \<and> (\<exists>c. ValidateAndCanonicalizeTopologyState hp st' = Inr c)
    \<and> (\<forall>m \<in> set (ts_members st'). \<exists>pbs. EncodeTokenSeedOverrides m (ts_tokensPerMember st') = Inr pbs)
    \<and> ts_version st' = ts_version st + 1
    \<and> (\<forall>b. ts_activeBatch st' = Some b \<longrightarrow> ab_epoch b = ts_version st')"
proof -
  have adv: "committable hp st'" "ts_version st' = ts_version st + 1"
    "\<forall>b. ts_activeBatch st' = Some b \<longrightarrow> ab_epoch b = ts_version st'"
    using hash.builder_step_advances [OF assms] by (auto simp: advanced_def)
  note f = committable_facts [OF adv(1)]
  show ?thesis using adv f(1) storable_encodes [OF _ f(4,5)] f(6) by (auto simp: canonicalize_eq)
qed

definition builder_demo :: TopologyState where
  "builder_demo = \<lparr>ts_clusterHasInit = True, ts_version = 7,
     ts_members = [
       \<lparr>mb_identity = \<lparr>mi_id = ''0123456789abcdef'', mi_address = ''a:1''\<rparr>, mb_state = ACTIVE,
        mb_tokens = MakeHashRingTokens ''a:1'' [0, 9], mb_tokenSeedOverrides = [\<lparr>so_tokenIndex = 1, so_tokenSeed = 9\<rparr>]\<rparr>,
       \<lparr>mb_identity = \<lparr>mi_id = ''fedcba9876543210'', mi_address = ''b:1''\<rparr>, mb_state = JOINING,
        mb_tokens = MakeHashRingTokens ''b:1'' [0, 0], mb_tokenSeedOverrides = []\<rparr>],
     ts_activeBatch = Some \<lparr>ab_type = SCALE_OUT, ab_epoch = 7\<rparr>, ts_tokensPerMember = 2\<rparr>"

theorem transitions_stay_storable_witness:
  "\<exists>st'. BuildScaleOutFinal builder_demo = Inr st' \<and> builder_step (hash_planning (\<lambda>_. True)) builder_demo st'
     \<and> committable (\<lambda>_. True) builder_demo \<and> committable (\<lambda>_. True) st' \<and> ts_version st' = 8"
proof -
  have "\<exists>c. ValidateAndCanonicalizeTopologyState (\<lambda>_. True) builder_demo = Inr c"
  proof -
    have "\<not> isl (ValidateAndCanonicalizeTopologyState (\<lambda>_. True) builder_demo)" by code_simp
    then show ?thesis by (cases "ValidateAndCanonicalizeTopologyState (\<lambda>_. True) builder_demo") auto
  qed
  then have "topology_wf (\<lambda>_. True) builder_demo" by (auto simp: canonicalize_eq split: if_splits)
  moreover have "list_all (member_storable 2) (ts_members builder_demo)"
    "\<not> list_ex (\<lambda>m. mb_state m = LEAVING) (ts_members builder_demo)" by code_simp+
  ultimately have c: "committable (\<lambda>_. True) builder_demo"
    by (simp add: committable_def list_all_iff list_ex_iff builder_demo_def)
  have "\<not> isl (BuildScaleOutFinal builder_demo)" by code_simp
  then obtain st' where st': "BuildScaleOutFinal builder_demo = Inr st'" by (cases "BuildScaleOutFinal builder_demo") auto
  then have step: "builder_step (hash_planning (\<lambda>_. True)) builder_demo st'" by (rule builder_step.scale_out_final)
  have v: "ts_version builder_demo < 2 ^ 63 - 1" "ts_version builder_demo + 1 = 8" by code_simp+
  from transitions_stay_storable [OF step c v(1)] show ?thesis using st' step c v(2) by auto
qed

end
