(* ===== verification/FailureClassifier.thy ===== *)
theory FailureClassifier
  imports RepositoryCodec
begin

section \<open>Classification of missing members\<close>

text \<open>
  Models src/datasystem/cluster/control/topology_failure_classifier.{h,cpp} with DurationMs of
  src/datasystem/cluster/model/topology_diagnostics.cpp: the timers with which the controller decides
  that a member has been absent for too long. The timers stop while the membership cannot be read.
  Times are nanoseconds of the monotonic clock.
\<close>

datatype MemberLifecycleState =
  LS_UNKNOWN | LS_STARTING | LS_RESTARTING | LS_RECOVERING | LS_READY | LS_EXITING | LS_DOWNGRADE_RESTARTING | LS_FAILED

record MembershipRecord =
  mr_address :: string
  mr_state :: MemberLifecycleState
  mr_timestamp :: int
  mr_hostId :: string

record MemberAbsenceObservation =
  mo_identity :: MemberIdentity
  mo_state :: MemberState
  mo_missingMs :: int

record MemberAbsenceSample =
  ms_identity :: MemberIdentity
  ms_state :: MemberState

record FailureClassification =
  cl_removeInitial :: "MemberIdentity list"
  cl_removeJoining :: "MemberIdentity list"
  cl_confirmedFailure :: "MemberIdentity list"
  cl_newlyMissing :: "MemberAbsenceObservation list"
  cl_restored :: "MemberAbsenceObservation list"
  cl_confirmedMissing :: "MemberAbsenceObservation list"

record TopologyFailureClassifier =
  fc_nodeDeadTimeout :: int \<comment> \<open>seconds\<close>
  fc_missingSince :: "string \<Rightarrow> int option"
  fc_pausedAt :: "int option"

text \<open>\<open>duration_cast\<close> truncates towards zero.\<close>

definition DurationMs :: "int \<Rightarrow> int \<Rightarrow> int" where
  "DurationMs start end' = (let d = end' - start in if d < 0 then - ((- d) div 10 ^ 6) else d div 10 ^ 6)"

definition timeout_ns :: "TopologyFailureClassifier \<Rightarrow> int" where
  "timeout_ns c = fc_nodeDeadTimeout c * 10 ^ 9"

definition new_FailureClassifier :: "int \<Rightarrow> TopologyFailureClassifier" where
  "new_FailureClassifier nodeDeadTimeout =
     \<lparr>fc_nodeDeadTimeout = nodeDeadTimeout, fc_missingSince = Map.empty, fc_pausedAt = None\<rparr>"

definition Resume :: "TopologyFailureClassifier \<Rightarrow> int \<Rightarrow> TopologyFailureClassifier" where
  "Resume c now =
     (case fc_pausedAt c of
        None \<Rightarrow> c
      | Some pausedAt \<Rightarrow>
          let unreadableDuration = now - pausedAt in
          c\<lparr>fc_missingSince := (\<lambda>a. map_option (\<lambda>s. s + unreadableDuration) (fc_missingSince c a)), fc_pausedAt := None\<rparr>)"

definition Pause :: "TopologyFailureClassifier \<Rightarrow> int \<Rightarrow> TopologyFailureClassifier" where
  "Pause c now = (if fc_pausedAt c = None then c\<lparr>fc_pausedAt := Some now\<rparr> else c)"

definition ResetMissing :: "TopologyFailureClassifier \<Rightarrow> string \<Rightarrow> TopologyFailureClassifier" where
  "ResetMissing c address = c\<lparr>fc_missingSince := (fc_missingSince c)(address := None)\<rparr>"

definition Reset :: "TopologyFailureClassifier \<Rightarrow> TopologyFailureClassifier" where
  "Reset c = c\<lparr>fc_missingSince := Map.empty, fc_pausedAt := None\<rparr>"

fun present_addresses :: "string set \<Rightarrow> MembershipRecord list \<Rightarrow> string set result" where
  "present_addresses present [] = Inr present"
| "present_addresses present (r # rs) =
     bind_result (check_fail (mr_address r \<noteq> [] \<and> mr_address r \<notin> present) K_INVALID) (\<lambda>_.
       present_addresses (insert (mr_address r) present) rs)"

definition no_observation :: FailureClassification where
  "no_observation = \<lparr>cl_removeInitial = [], cl_removeJoining = [], cl_confirmedFailure = [], cl_newlyMissing = [],
     cl_restored = [], cl_confirmedMissing = []\<rparr>"

text \<open>One member of the topology; the state is the observation, the retained failures and the timers.\<close>

type_synonym observe_state = "FailureClassification \<times> MemberIdentity list \<times> (string \<Rightarrow> int option)"

definition observe_member :: "int \<Rightarrow> int \<Rightarrow> string set \<Rightarrow> observe_state \<Rightarrow> Member \<Rightarrow> observe_state" where
  "observe_member timeout now present = (\<lambda>(observed, retainedFailed, missingSince) member.
     let identity = mb_identity member; address = mb_address member in
     if mb_state member = FAILED then (observed, retainedFailed @ [identity], missingSince(address := None))
     else if address \<in> present then
       (case missingSince address of
          None \<Rightarrow> (observed, retainedFailed, missingSince)
        | Some since \<Rightarrow>
            (observed\<lparr>cl_restored := cl_restored observed @ [\<lparr>mo_identity = identity, mo_state = mb_state member,
                mo_missingMs = DurationMs since now\<rparr>]\<rparr>, retainedFailed, missingSince(address := None)))
     else if mb_state member = INITIAL then
       (observed\<lparr>cl_removeInitial := cl_removeInitial observed @ [identity]\<rparr>, retainedFailed, missingSince)
     else if mb_state member = JOINING then
       (observed\<lparr>cl_removeJoining := cl_removeJoining observed @ [identity]\<rparr>, retainedFailed, missingSince)
     else
       let inserted = (missingSince address = None);
           since = (case missingSince address of None \<Rightarrow> now | Some s \<Rightarrow> s);
           missingMs = (if inserted then 0 else DurationMs since now);
           absence = \<lparr>mo_identity = identity, mo_state = mb_state member, mo_missingMs = missingMs\<rparr>;
           observed1 = (if inserted then observed\<lparr>cl_newlyMissing := cl_newlyMissing observed @ [absence]\<rparr> else observed);
           observed2 = (if now - since \<ge> timeout
                        then observed1\<lparr>cl_confirmedMissing := cl_confirmedMissing observed1 @ [absence],
                                       cl_confirmedFailure := cl_confirmedFailure observed1 @ [identity]\<rparr>
                        else observed1)
       in (observed2, retainedFailed, missingSince(address \<mapsto> since)))"

definition Observe :: "TopologyFailureClassifier \<Rightarrow> TopologySnapshot \<Rightarrow> MembershipRecord list \<Rightarrow> int
    \<Rightarrow> FailureClassification result \<times> TopologyFailureClassifier" where
  "Observe c topology members now =
     (if fc_nodeDeadTimeout c < 0 then (Inl K_INVALID, c)
      else
        let resumed = Resume c now in
        case present_addresses {} members of
          Inl e \<Rightarrow> (Inl e, resumed)
        | Inr present \<Rightarrow>
            let (observed, retainedFailed, missingSince) =
                  foldl (observe_member (timeout_ns c) now present) (no_observation, [], fc_missingSince resumed)
                    (ts_members (sn_state topology));
                classification =
                  (if cl_confirmedFailure observed \<noteq> []
                   then observed\<lparr>cl_confirmedFailure := sort_key mi_address (cl_confirmedFailure observed @ retainedFailed)\<rparr>
                   else observed);
                kept = (\<lambda>a. if isl (FindMemberByAddress topology a) then None else missingSince a)
            in (Inr classification, resumed\<lparr>fc_missingSince := kept\<rparr>))"

fun sampled_addresses :: "string set \<Rightarrow> MemberAbsenceSample list \<Rightarrow> string set result" where
  "sampled_addresses sampled [] = Inr sampled"
| "sampled_addresses sampled (s # ss) =
     bind_result (check_fail (mi_address (ms_identity s) \<noteq> [] \<and> mi_address (ms_identity s) \<notin> sampled) K_INVALID) (\<lambda>_.
       sampled_addresses (insert (mi_address (ms_identity s)) sampled) ss)"

fun observe_samples :: "int \<Rightarrow> int \<Rightarrow> (string \<Rightarrow> int option) \<Rightarrow> MemberAbsenceSample list
    \<Rightarrow> MemberAbsenceObservation list \<times> (string \<Rightarrow> int option)" where
  "observe_samples timeout now missingSince [] = ([], missingSince)"
| "observe_samples timeout now missingSince (s # ss) =
     (let address = mi_address (ms_identity s);
          inserted = (missingSince address = None);
          since = (case missingSince address of None \<Rightarrow> now | Some t \<Rightarrow> t);
          missingMs = (if inserted then 0 else DurationMs since now);
          (rest, missingSince') = observe_samples timeout now (missingSince(address \<mapsto> since)) ss
      in ((if now - since \<ge> timeout then [\<lparr>mo_identity = ms_identity s, mo_state = ms_state s, mo_missingMs = missingMs\<rparr>] else []) @ rest,
          missingSince'))"

definition ObserveMissingSamples :: "TopologyFailureClassifier \<Rightarrow> MemberAbsenceSample list \<Rightarrow> int
    \<Rightarrow> MemberAbsenceObservation list result \<times> TopologyFailureClassifier" where
  "ObserveMissingSamples c samples now =
     (if fc_nodeDeadTimeout c < 0 then (Inl K_INVALID, c)
      else case sampled_addresses {} samples of
        Inl e \<Rightarrow> (Inl e, c)
      | Inr sampled \<Rightarrow>
          let restricted = c\<lparr>fc_missingSince := (\<lambda>a. if a \<in> sampled then fc_missingSince c a else None)\<rparr>;
              resumed = Resume restricted now;
              (observed, missingSince) = observe_samples (timeout_ns c) now (fc_missingSince resumed) samples
          in (Inr observed, resumed\<lparr>fc_missingSince := missingSince\<rparr>))"

subsection \<open>Absence while the membership is readable\<close>

text \<open>
  The specification of a timer: the time for which an address has been missing, not counting the
  time since the membership became unreadable.
\<close>

definition absence :: "int \<Rightarrow> TopologyFailureClassifier \<Rightarrow> string \<Rightarrow> int option" where
  "absence t c a = map_option (\<lambda>s. (case fc_pausedAt c of None \<Rightarrow> t | Some p \<Rightarrow> p) - s) (fc_missingSince c a)"

definition elapsed :: "int option \<Rightarrow> int" where
  "elapsed d = (case d of None \<Rightarrow> 0 | Some e \<Rightarrow> e)"

definition committed_absent :: "string set \<Rightarrow> Member \<Rightarrow> bool" where
  "committed_absent present m \<longleftrightarrow> IsCommittedMemberState (mb_state m) \<and> mb_address m \<notin> present"

lemma committed_state_iff: "IsCommittedMemberState s \<longleftrightarrow> s \<noteq> FAILED \<and> s \<noteq> INITIAL \<and> s \<noteq> JOINING"
  by (cases s) (simp_all add: IsCommittedMemberState_def)

lemma absence_Resume [simp]: "absence t (Resume c t) = absence t c" "fc_pausedAt (Resume c t) = None"
    "fc_nodeDeadTimeout (Resume c t) = fc_nodeDeadTimeout c"
  by (auto simp: absence_def Resume_def Let_def fun_eq_iff option.map_comp comp_def split: option.splits)

lemma absence_since: "absence t c a = map_option (\<lambda>s. t - s) (fc_missingSince (Resume c t) a)"
  by (auto simp: absence_def Resume_def Let_def option.map_comp comp_def split: option.splits)

lemma absence_Pause: "absence t (Pause c now) = (if fc_pausedAt c = None then absence now c else absence t c)"
  by (auto simp: absence_def Pause_def fun_eq_iff)

lemma absence_running: "fc_pausedAt c = None \<Longrightarrow> absence t' c a = map_option (\<lambda>d. d + (t' - t)) (absence t c a)"
  by (simp add: absence_def option.map_comp comp_def)

lemma absence_ResetMissing: "absence t (ResetMissing c b) a = (if a = b then None else absence t c a)"
  by (simp add: absence_def ResetMissing_def)

lemma present_addresses_ok:
  "present_addresses present rs = Inr present' \<Longrightarrow> present' = present \<union> mr_address ` set rs"
  by (induction rs arbitrary: present) (auto split: if_splits)

definition since_of :: "int \<Rightarrow> (string \<Rightarrow> int option) \<Rightarrow> string \<Rightarrow> int" where
  "since_of now M a = (case M a of None \<Rightarrow> now | Some s \<Rightarrow> s)"

definition timer_after :: "int \<Rightarrow> string set \<Rightarrow> (string \<Rightarrow> int option) \<Rightarrow> Member \<Rightarrow> int option" where
  "timer_after now present M m =
     (if mb_state m = FAILED \<or> mb_address m \<in> present then None
      else if committed_absent present m then Some (since_of now M (mb_address m)) else M (mb_address m))"

definition overdue :: "int \<Rightarrow> int \<Rightarrow> string set \<Rightarrow> (string \<Rightarrow> int option) \<Rightarrow> Member \<Rightarrow> bool" where
  "overdue timeout now present M m \<longleftrightarrow> committed_absent present m \<and> timeout \<le> now - since_of now M (mb_address m)"

lemma observe_member_eq:
  assumes "observe_member timeout now present (obs, ret, M) m = (obs', ret', M')"
  shows "M' = M(mb_address m := timer_after now present M m)
    \<and> ret' = ret @ (if mb_state m = FAILED then [mb_identity m] else [])
    \<and> cl_removeInitial obs' = cl_removeInitial obs @ (if mb_state m = INITIAL \<and> mb_address m \<notin> present then [mb_identity m] else [])
    \<and> cl_removeJoining obs' = cl_removeJoining obs @ (if mb_state m = JOINING \<and> mb_address m \<notin> present then [mb_identity m] else [])
    \<and> cl_confirmedFailure obs' = cl_confirmedFailure obs @ (if overdue timeout now present M m then [mb_identity m] else [])"
  using assms
  by (cases "mb_state m"; cases "M (mb_address m)")
     (auto simp: observe_member_def timer_after_def overdue_def committed_absent_def since_of_def IsCommittedMemberState_def
        Let_def fun_upd_idem split: if_splits)

lemma observe_fold:
  assumes "foldl (observe_member timeout now present) (obs, ret, M) ms = (obs', ret', M')" "distinct (map mb_address ms)"
  shows "(\<forall>m \<in> set ms. M' (mb_address m) = timer_after now present M m) \<and> (\<forall>a. a \<notin> mb_address ` set ms \<longrightarrow> M' a = M a)
    \<and> ret' = ret @ map mb_identity (filter (\<lambda>m. mb_state m = FAILED) ms)
    \<and> cl_removeInitial obs' = cl_removeInitial obs @ map mb_identity (filter (\<lambda>m. mb_state m = INITIAL \<and> mb_address m \<notin> present) ms)
    \<and> cl_removeJoining obs' = cl_removeJoining obs @ map mb_identity (filter (\<lambda>m. mb_state m = JOINING \<and> mb_address m \<notin> present) ms)
    \<and> cl_confirmedFailure obs' = cl_confirmedFailure obs @ map mb_identity (filter (overdue timeout now present M) ms)"
  using assms
proof (induction ms arbitrary: obs ret M)
  case (Cons m ms)
  obtain obs1 ret1 M1 where step: "observe_member timeout now present (obs, ret, M) m = (obs1, ret1, M1)"
    by (metis prod_cases3)
  have rest: "foldl (observe_member timeout now present) (obs1, ret1, M1) ms = (obs', ret', M')" "distinct (map mb_address ms)"
    using Cons.prems step by simp_all
  note e = observe_member_eq [OF step]
  have same: "M1 (mb_address x) = M (mb_address x)" if "x \<in> set ms" for x
    using e Cons.prems(2) that by (auto simp: image_iff)
  have other: "M1 a = M a" if "a \<noteq> mb_address m" for a using e that by simp
  have over: "filter (overdue timeout now present M1) ms = filter (overdue timeout now present M) ms"
    using same by (intro filter_cong) (simp_all add: overdue_def since_of_def)
  have after: "timer_after now present M1 x = timer_after now present M x" if "x \<in> set ms" for x
    using same [OF that] by (simp add: timer_after_def since_of_def)
  note ih = Cons.IH [OF rest, unfolded over]
  have first: "M' (mb_address m) = timer_after now present M m" using ih e Cons.prems(2) by auto
  have "\<forall>x \<in> set (m # ms). M' (mb_address x) = timer_after now present M x" using ih first after by simp
  moreover have "\<forall>a. a \<notin> mb_address ` set (m # ms) \<longrightarrow> M' a = M a" using ih other by simp
  ultimately show ?case using conjunct2 [OF conjunct2 [OF ih]] conjunct2 [OF e] by simp
qed simp

lemma snapshot_addresses:
  assumes "Create hp sha st revision digest hostIds known coordinator = Inr sn"
  shows "distinct (map mb_address (ts_members (sn_state sn)))
    \<and> (isl (FindMemberByAddress sn a) \<longleftrightarrow> a \<notin> mb_address ` set (ts_members (sn_state sn)))"
proof -
  obtain canonical where c: "ValidateAndCanonicalizeTopologyState hp st = Inr canonical" "sn_state sn = canonical"
    "sn_addressIndex sn = zip (map mb_address (ts_members canonical)) [0..<length (ts_members canonical)]"
    using assms by (auto simp: Create_def bind_result_Inr BuildIndexes_def new_TopologySnapshot_def Let_def split: if_splits)
  have "distinct (map mb_address (ts_members canonical))"
    using canonicalize_idem [OF c(1)] by (simp add: strict_sorted_iff)
  moreover have "map_of (sn_addressIndex sn) a = None \<longleftrightarrow> a \<notin> mb_address ` set (ts_members canonical)"
    unfolding c(3) map_of_eq_None_iff by (simp flip: set_map add: map_fst_zip)
  ultimately show ?thesis using c(2) by (auto simp: FindMemberByAddress_def split: option.splits)
qed

text \<open>
  C33. A member is declared failed exactly when it has been absent for the timeout, counting only
  the time in which the membership could be read. On a successful observation the confirmed failures
  are the committed members without a membership record whose readable absence has reached the
  timeout, joined by the members already FAILED when there is a new one, ordered by address; absent INITIAL
  and JOINING members are the ones to remove. The timer of a committed absent member starts or goes
  on, a member that is present, FAILED or gone from the topology loses its timer. After the
  observation timers run with the clock, and a pause freezes them at the moment it begins.
\<close>

theorem absent_members_confirmed_exactly:
  assumes snapshot: "Create hp sha st revision digest hostIds known coordinator = Inr sn"
    and run: "Observe c sn records now = (Inr cl, c')"
  shows "cl_confirmedFailure cl =
      (let new = filter (\<lambda>m. committed_absent (mr_address ` set records) m \<and> timeout_ns c \<le> elapsed (absence now c (mb_address m)))
                   (ts_members (sn_state sn))
       in if new = [] then []
          else sort_key mi_address (map mb_identity (new @ filter (\<lambda>m. mb_state m = FAILED) (ts_members (sn_state sn)))))
    \<and> cl_removeInitial cl = map mb_identity (filter (\<lambda>m. mb_state m = INITIAL \<and> mb_address m \<notin> mr_address ` set records) (ts_members (sn_state sn)))
    \<and> cl_removeJoining cl = map mb_identity (filter (\<lambda>m. mb_state m = JOINING \<and> mb_address m \<notin> mr_address ` set records) (ts_members (sn_state sn)))
    \<and> (\<forall>m \<in> set (ts_members (sn_state sn)). absence now c' (mb_address m) =
         (if mb_state m = FAILED \<or> mb_address m \<in> mr_address ` set records then None
          else if committed_absent (mr_address ` set records) m then Some (elapsed (absence now c (mb_address m)))
          else absence now c (mb_address m)))
    \<and> (\<forall>a. a \<notin> mb_address ` set (ts_members (sn_state sn)) \<longrightarrow> absence now c' a = None)
    \<and> (\<forall>t a. absence t c' a = map_option (\<lambda>d. d + (t - now)) (absence now c' a))
    \<and> (\<forall>t t'. t \<ge> now \<longrightarrow> absence t' (Pause c' t) = absence t c')"
proof -
  define present where "present = mr_address ` set records"
  define M where "M = fc_missingSince (Resume c now)"
  obtain obs ret M' where fold: "foldl (observe_member (timeout_ns c) now present) (no_observation, [], M) (ts_members (sn_state sn)) = (obs, ret, M')"
    by (metis prod_cases3)
  have pres: "present_addresses {} records = Inr present"
    using run present_addresses_ok [of "{}" records] by (auto simp: Observe_def Let_def present_def split: if_splits sum.splits)
  have out: "cl = (if cl_confirmedFailure obs \<noteq> [] then obs\<lparr>cl_confirmedFailure := sort_key mi_address (cl_confirmedFailure obs @ ret)\<rparr> else obs)"
    "c' = (Resume c now)\<lparr>fc_missingSince := (\<lambda>a. if isl (FindMemberByAddress sn a) then None else M' a)\<rparr>"
    using run pres fold by (auto simp: Observe_def Let_def M_def split: if_splits)
  note addr = snapshot_addresses [OF snapshot]
  note f = observe_fold [OF fold conjunct1 [OF addr]]
  have el: "elapsed (absence now c a) = now - since_of now M a" for a
    by (simp add: absence_since M_def elapsed_def since_of_def split: option.splits)
  have over: "overdue (timeout_ns c) now present M = (\<lambda>m. committed_absent present m \<and> timeout_ns c \<le> elapsed (absence now c (mb_address m)))"
    by (simp add: overdue_def el fun_eq_iff)
  have paused: "fc_pausedAt c' = None" by (simp add: out(2))
  have timers: "absence now c' a = (if a \<in> mb_address ` set (ts_members (sn_state sn)) then map_option (\<lambda>s. now - s) (M' a) else None)" for a
    using addr [of a] paused by (simp add: absence_def) (simp add: out(2))
  have before: "absence now c a = map_option (\<lambda>s. now - s) (M a)" for a
    by (simp add: absence_since M_def)
  have members: "absence now c' (mb_address m) =
         (if mb_state m = FAILED \<or> mb_address m \<in> present then None
          else if committed_absent present m then Some (elapsed (absence now c (mb_address m)))
          else absence now c (mb_address m))" if "m \<in> set (ts_members (sn_state sn))" for m
    unfolding el unfolding timers before using f that by (simp add: timer_after_def)
  have failures: "cl_confirmedFailure cl = (let new = filter (overdue (timeout_ns c) now present M) (ts_members (sn_state sn))
       in if new = [] then [] else sort_key mi_address (map mb_identity (new @ filter (\<lambda>m. mb_state m = FAILED) (ts_members (sn_state sn)))))"
    using f by (simp add: out(1) no_observation_def Let_def)
  have removals: "cl_removeInitial cl = map mb_identity (filter (\<lambda>m. mb_state m = INITIAL \<and> mb_address m \<notin> present) (ts_members (sn_state sn)))"
    "cl_removeJoining cl = map mb_identity (filter (\<lambda>m. mb_state m = JOINING \<and> mb_address m \<notin> present) (ts_members (sn_state sn)))"
    using f by (simp_all add: out(1) no_observation_def)
  have outside: "\<forall>a. a \<notin> mb_address ` set (ts_members (sn_state sn)) \<longrightarrow> absence now c' a = None" by (simp add: timers)
  have running: "\<forall>t a. absence t c' a = map_option (\<lambda>d. d + (t - now)) (absence now c' a)"
    using absence_running [OF paused] by blast
  have pause: "\<forall>t t'. t \<ge> now \<longrightarrow> absence t' (Pause c' t) = absence t c'" using paused by (simp add: absence_Pause)
  show ?thesis
    unfolding present_def [symmetric] over [symmetric]
    by (intro conjI failures removals ballI outside running pause) (rule members)
qed

definition absent_demo :: TopologyFailureClassifier where
  "absent_demo = \<lparr>fc_nodeDeadTimeout = 1, fc_missingSince = [''h:2'' \<mapsto> 0], fc_pausedAt = None\<rparr>"

definition present_demo :: "MembershipRecord list" where
  "present_demo = [\<lparr>mr_address = ''h:1'', mr_state = LS_READY, mr_timestamp = 0, mr_hostId = []\<rparr>]"

theorem absent_members_confirmed_exactly_witness:
  "\<exists>sn cl c'. Create (\<lambda>_. True) (\<lambda>_. Inr []) demo_state 1 (replicate 64 CHR ''0'') [] False [] = Inr sn
     \<and> Observe absent_demo sn present_demo (10 ^ 9) = (Inr cl, c')
     \<and> cl_confirmedFailure cl = [demo_id] \<and> absence (10 ^ 9) c' ''h:3'' = Some 0"
proof -
  have can: "ValidateAndCanonicalizeTopologyState (\<lambda>_. True) demo_state = Inr demo_state" by code_simp
  have hex: "IsSha256Hex (replicate 64 CHR ''0'')" by (simp add: IsSha256Hex_def SHA256_HEX_SIZE_def list_all_iff)
  then obtain sn where sn: "Create (\<lambda>_. True) (\<lambda>_. Inr []) demo_state 1 (replicate 64 CHR ''0'') [] False [] = Inr sn"
    by (simp add: Create_def can)
  have state: "ts_members (sn_state sn) = demo_members"
    using sn can hex by (auto simp: Create_def BuildIndexes_def new_TopologySnapshot_def Let_def demo_state_def)
  have "\<exists>cl c'. Observe absent_demo sn present_demo (10 ^ 9) = (Inr cl, c')"
    unfolding Observe_def absent_demo_def present_demo_def Let_def by (simp split: prod.splits)
  then obtain cl c' where run: "Observe absent_demo sn present_demo (10 ^ 9) = (Inr cl, c')" by blast
  note exact = absent_members_confirmed_exactly [OF sn run, unfolded state]
  have "cl_confirmedFailure cl = [demo_id]"
    using conjunct1 [OF exact] by (simp add: demo_members_def demo_id_def present_demo_def absent_demo_def committed_absent_def
        IsCommittedMemberState_def absence_def elapsed_def timeout_ns_def)
  moreover have "absence (10 ^ 9) c' ''h:3'' = Some 0"
    using conjunct1 [OF conjunct2 [OF conjunct2 [OF conjunct2 [OF exact]]], THEN bspec, of "demo_members ! 2"]
    by (simp add: demo_members_def present_demo_def absent_demo_def committed_absent_def IsCommittedMemberState_def absence_def elapsed_def)
  ultimately show ?thesis using sn run by blast
qed

end
