(* ===== verification/Hasher.thy ===== *)
theory Hasher
  imports HashRingToken TopologySnapshot KeyHelper
begin

section \<open>Digests in hexadecimal\<close>

text \<open>
  Models the SHA-256 part of src/datasystem/common/ak_sk/hasher.{h,cpp}: the hexadecimal encoding, the
  digest of a string and the digest of a string map. The SHA-256 function of OpenSSL is the parameter
  \<open>sha256\<close>; None is a failing call. The HMAC, MD5 and Base64 functions are thin wrappers of OpenSSL calls
  and are left out. The theory also holds the prefix codes used to show that digested bytes determine the
  data they were built from.
\<close>

subsection \<open>Operations\<close>

definition SHA256_DIGEST_LENGTH :: nat where "SHA256_DIGEST_LENGTH = 32"
definition UINT_MAX :: nat where "UINT_MAX = 2 ^ 32 - 1"

definition hex_digit :: "nat \<Rightarrow> char" where
  "hex_digit d = char_of (if d < 10 then 48 + d else 87 + d)"

text \<open>The output of the format \<open>%02x\<close> for one byte.\<close>

definition hex_byte :: "char \<Rightarrow> string" where
  "hex_byte c = (let n = of_char c :: nat in [hex_digit (n div 16), hex_digit (n mod 16)])"

text \<open>None when the outputs are left as they were.\<close>

definition HexEncode :: "string \<Rightarrow> string option result" where
  "HexEncode inputData =
     (if inputData = [] then Inr None
      else bind_result (check_fail (\<not> (UINT_MAX - 1) div 2 < length inputData) K_RUNTIME_ERROR) (\<lambda>_.
        Inr (Some (concat (map hex_byte inputData)))))"

text \<open>
  An empty input leaves the size of the string that is built unset, so the code does not determine the
  result; it is written as the empty string here. No caller passes an empty input.
\<close>

definition HexEncodeString :: "string \<Rightarrow> string result" where
  "HexEncodeString inputData = bind_result (HexEncode inputData) (\<lambda>out. Inr (case out of None \<Rightarrow> [] | Some s \<Rightarrow> s))"

definition HashSHA256 :: "(string \<Rightarrow> string option) \<Rightarrow> string \<Rightarrow> string result" where
  "HashSHA256 sha256 data = (case sha256 data of None \<Rightarrow> Inl K_RUNTIME_ERROR | Some digest \<Rightarrow> Inr digest)"

definition GetSha256Hex :: "(string \<Rightarrow> string option) \<Rightarrow> string \<Rightarrow> string result" where
  "GetSha256Hex sha256 str = bind_result (HashSHA256 sha256 str) (\<lambda>digest. HexEncodeString digest)"

definition sized_string :: "string \<Rightarrow> string" where
  "sized_string s = decimal (length s) @ '':'' @ s"

definition map_canonical :: "(string, string) omap \<Rightarrow> string" where
  "map_canonical values' = foldl (\<lambda>canonical (key, value'). canonical @ sized_string key @ sized_string value') [] values'"

definition GetStringMapSha256Hex :: "(string \<Rightarrow> string option) \<Rightarrow> (string, string) omap \<Rightarrow> string result" where
  "GetStringMapSha256Hex sha256 values' = GetSha256Hex sha256 (map_canonical values')"

subsection \<open>Decimal numbers\<close>

lemma decimal_digits: "c \<in> set (decimal n) \<Longrightarrow> 48 \<le> (of_char c :: nat) \<and> (of_char c :: nat) < 58"
proof (induction n rule: decimal.induct)
  case (1 n)
  have digit: "(of_char (char_of (48 + d) :: char) :: nat) = 48 + d" if "d < 10" for d :: nat
    using that by (simp add: of_char_of take_bit_nat_eq_self)
  show ?case
  proof (cases "n < 10")
    case True
    then show ?thesis using 1(2) digit [OF True] by (simp add: decimal.simps [of n])
  next
    case False
    then show ?thesis using 1 digit [of "n mod 10"] by (auto simp: decimal.simps [of n])
  qed
qed

lemma decimal_then:
  assumes "decimal n @ c # r = decimal m @ c # s" "(of_char c :: nat) < 48 \<or> 57 < (of_char c :: nat)"
  shows "decimal n = decimal m \<and> r = s"
proof -
  have fresh: "c \<notin> set (decimal k)" for k
    using decimal_digits [of c k] assms(2) by fastforce
  have "takeWhile (\<lambda>x. x \<noteq> c) (decimal k @ c # q) = decimal k" for k q
    using fresh by (subst takeWhile_append2) auto
  with assms(1) have "decimal n = decimal m" by metis
  with assms(1) show ?thesis by simp
qed

lemma decimal_hd:
  assumes "0 < n"
  shows "decimal n \<noteq> [] \<and> 49 \<le> (of_char (hd (decimal n)) :: nat)"
  using assms
proof (induction n rule: decimal.induct)
  case (1 n)
  show ?case
  proof (cases "n < 10")
    case True
    then show ?thesis using 1(2) by (simp add: decimal.simps [of n] of_char_of take_bit_nat_eq_self)
  next
    case False
    then show ?thesis using 1(1) by (simp add: decimal.simps [of n])
  qed
qed

lemma between_of_char: "between lo hi c \<longleftrightarrow> (of_char lo :: nat) \<le> of_char c \<and> (of_char c :: nat) \<le> of_char hi"
  by (simp add: between_def less_eq_char_def)

subsection \<open>Prefix codes\<close>

text \<open>Codes that can be followed by anything: equal concatenations begin with equal values.\<close>

locale prefix_code =
  fixes enc :: "'a \<Rightarrow> string" and valid :: "'a \<Rightarrow> bool"
  assumes prefix_free: "valid x \<Longrightarrow> valid y \<Longrightarrow> enc x @ r = enc y @ s \<Longrightarrow> x = y \<and> r = s"
begin

lemma list_code:
  assumes "length xs = length ys" "list_all valid xs" "list_all valid ys" "concat (map enc xs) @ r = concat (map enc ys) @ s"
  shows "xs = ys \<and> r = s"
  using assms
proof (induction xs ys rule: list_induct2)
  case (Cons x xs y ys)
  then have "x = y \<and> concat (map enc xs) @ r = concat (map enc ys) @ s"
    using prefix_free [of x y] by simp
  with Cons show ?case by simp
qed simp

lemma fixed_then:
  assumes "valid x" "valid y" "pre @ enc x @ r = pre' @ enc y @ s" "length pre = length pre'"
  shows "pre = pre' \<and> x = y \<and> r = s"
  using assms prefix_free [of x y r s] by simp

end

lemma decimal_inj: "decimal n = decimal m \<Longrightarrow> n = m"
proof (induction n arbitrary: m rule: decimal.induct)
  case (1 n)
  have digit: "char_of (48 + d) = (char_of (48 + e) :: char) \<longleftrightarrow> d = e" if "d < 10" "e < 10" for d e :: nat
    using that by (simp add: char_of_eq_iff of_char_of take_bit_nat_eq_self)
  have nonempty: "decimal k \<noteq> []" "[] \<noteq> decimal k" for k by (subst decimal.simps; simp)+
  show ?case
  proof (cases "n < 10"; cases "m < 10")
    assume "\<not> n < 10" "\<not> m < 10"
    then have "decimal (n div 10) = decimal (m div 10)" "n mod 10 = m mod 10"
      using 1(2) digit by (simp_all add: decimal.simps [of n] decimal.simps [of m])
    then show ?thesis using 1(1) \<open>\<not> n < 10\<close> by (metis div_mult_mod_eq)
  qed (use 1(2) digit nonempty in \<open>auto simp: decimal.simps [of n] decimal.simps [of m]\<close>)
qed

interpretation sized_code: prefix_code sized_string "\<lambda>_. True"
proof
  fix x y r s :: string
  assume "sized_string x @ r = sized_string y @ s"
  then have "decimal (length x) @ CHR '':'' # (x @ r) = decimal (length y) @ CHR '':'' # (y @ s)" by (simp add: sized_string_def)
  from decimal_then [OF this] have "length x = length y" "x @ r = y @ s" by (simp_all add: decimal_inj)
  then show "x = y \<and> r = s" by simp
qed

interpretation entry_code: prefix_code "\<lambda>(key, value'). sized_string key @ sized_string value'" "\<lambda>_. True"
proof
  fix x y :: "string \<times> string" and r s
  assume "(case x of (key, value') \<Rightarrow> sized_string key @ sized_string value') @ r
    = (case y of (key, value') \<Rightarrow> sized_string key @ sized_string value') @ s"
  then have "sized_string (fst x) @ (sized_string (snd x) @ r) = sized_string (fst y) @ (sized_string (snd y) @ s)"
    by (simp add: case_prod_beta)
  from sized_code.prefix_free [OF TrueI TrueI this] sized_code.prefix_free [OF TrueI TrueI, of "snd x" r "snd y" s]
  show "x = y \<and> r = s" by (simp add: prod_eq_iff)
qed

lemma map_canonical_concat: "map_canonical m = concat (map (\<lambda>(key, value'). sized_string key @ sized_string value') m)"
proof -
  have "foldl (\<lambda>c (k, v). c @ sized_string k @ sized_string v) acc m = acc @ concat (map (\<lambda>(k, v). sized_string k @ sized_string v) m)"
    for acc by (induction m arbitrary: acc) auto
  then show ?thesis by (simp add: map_canonical_def)
qed

text \<open>The canonical string determines the map, so equal digests of different maps are collisions of SHA-256.\<close>

lemma sized_nonempty: "sized_string s \<noteq> []"
  by (simp add: sized_string_def)

lemma map_canonical_inj: "map_canonical m = map_canonical m' \<longleftrightarrow> m = m'"
proof
  show "map_canonical m = map_canonical m' \<Longrightarrow> m = m'"
  proof (induction m arbitrary: m')
    case Nil
    then show ?case by (cases m') (auto simp: map_canonical_concat sized_nonempty)
  next
    case (Cons x m)
    show ?case
    proof (cases m')
      case Nil
      with Cons.prems show ?thesis by (auto simp: map_canonical_concat sized_nonempty split: prod.splits)
    next
      case [simp]: (Cons y m2)
      have "x = y \<and> map_canonical m = map_canonical m2"
        using entry_code.prefix_free [OF TrueI TrueI, of x "map_canonical m" y "map_canonical m2"] Cons.prems
        by (simp add: map_canonical_concat)
      then show ?thesis using Cons.IH by simp
    qed
  qed
qed simp

subsection \<open>Hexadecimal digests\<close>

lemma hex_digit_lower: "d < 16 \<Longrightarrow> IsLowerHex (hex_digit d)"
  by (auto simp: hex_digit_def IsLowerHex_def between_of_char of_char_of take_bit_nat_eq_self)

lemma hex_byte_lower: "list_all IsLowerHex (hex_byte c) \<and> length (hex_byte c) = 2"
proof -
  have "(of_char c :: nat) < 256" using nat_of_char_less_256 by blast
  then have "(of_char c :: nat) div 16 < 16" by linarith
  then show ?thesis by (simp add: hex_byte_def Let_def hex_digit_lower)
qed

lemma hex_string: "list_all IsLowerHex (concat (map hex_byte s)) \<and> length (concat (map hex_byte s)) = 2 * length s"
  using hex_byte_lower by (induction s) auto

definition sha256_sized :: "(string \<Rightarrow> string option) \<Rightarrow> bool" where
  "sha256_sized sha256 \<longleftrightarrow> (\<forall>x. \<exists>d. sha256 x = Some d \<and> length d = SHA256_DIGEST_LENGTH)"

lemma GetSha256Hex_ok:
  assumes "sha256_sized sha256"
  obtains h where "GetSha256Hex sha256 x = Inr h" "length h = SHA256_HEX_SIZE" "list_all IsLowerHex h"
proof -
  from assms obtain d where d: "sha256 x = Some d" "length d = SHA256_DIGEST_LENGTH" unfolding sha256_sized_def by metis
  have len: "length d = 32" using d by (simp add: SHA256_DIGEST_LENGTH_def)
  then have "d \<noteq> []" by auto
  with d(1) len have "GetSha256Hex sha256 x = Inr (concat (map hex_byte d))"
    by (simp add: GetSha256Hex_def HashSHA256_def HexEncodeString_def HexEncode_def UINT_MAX_def)
  with hex_string [of d] len that show thesis by (simp add: SHA256_HEX_SIZE_def)
qed

end
