(* ===== verification/TaskMaterializer.thy ===== *)
theory TaskMaterializer
  imports PlanBuilder FailureClassifier Hasher
begin

section \<open>Tasks derived from a plan\<close>

text \<open>
  Models src/datasystem/cluster/control/topology_task_materializer.{h,cpp}: the tasks that carry out
  the owner changes of a plan, their deterministic ids, the notifications of their executors and the
  rebuilding of both from a snapshot. The digest in hexadecimal is the parameter
  \<open>sha256Hex\<close>; the properties take Hasher::GetSha256Hex for it. Log lines are left out.
\<close>

subsection \<open>The bytes that are digested\<close>

definition ID_HASH_CHARS :: nat where "ID_HASH_CHARS = 32"

definition byte_at :: "nat \<Rightarrow> 'a::len word \<Rightarrow> char" where
  "byte_at shift value = char_of (unat (drop_bit shift value AND 0xff))"

definition AppendU64 :: "string \<Rightarrow> u64 \<Rightarrow> string" where
  "AppendU64 seed value = seed @ map (\<lambda>shift. byte_at shift value) [56, 48, 40, 32, 24, 16, 8, 0]"

definition AppendU32 :: "string \<Rightarrow> u32 \<Rightarrow> string" where
  "AppendU32 seed value = seed @ map (\<lambda>shift. byte_at shift value) [24, 16, 8, 0]"

definition AppendString :: "string \<Rightarrow> string \<Rightarrow> string" where
  "AppendString seed value = AppendU64 seed (of_nat (length value)) @ value"

definition AppendIdentity :: "string \<Rightarrow> MemberIdentity option \<Rightarrow> string" where
  "AppendIdentity seed identity =
     (case identity of
        None \<Rightarrow> seed @ [char_of (0 :: nat)]
      | Some i \<Rightarrow> AppendString (AppendString (seed @ [char_of (1 :: nat)]) (mi_id i)) (mi_address i))"

definition range_key :: "TokenRange \<Rightarrow> u32 \<times> u32" where
  "range_key r = (rng_from r, rng_end r)"

definition AppendRanges :: "string \<Rightarrow> TokenRange list \<Rightarrow> string" where
  "AppendRanges seed ranges =
     (let sorted' = sort_key range_key ranges
      in foldl (\<lambda>s r. AppendU32 (AppendU32 s (rng_from r)) (rng_end r)) (AppendU64 seed (of_nat (length sorted'))) sorted')"

definition DigestPrefix :: "(string \<Rightarrow> string result) \<Rightarrow> string \<Rightarrow> string" where
  "DigestPrefix sha256Hex seed = (case sha256Hex seed of Inl _ \<Rightarrow> [] | Inr digest \<Rightarrow> take ID_HASH_CHARS digest)"

definition ToRanges :: "TopologyTaskRange list \<Rightarrow> TokenRange list" where
  "ToRanges taskRanges = map ttr_range taskRanges"

definition CanonicalizeRanges :: "TopologyTaskRange list \<Rightarrow> TopologyTaskRange list" where
  "CanonicalizeRanges ranges = sort_key (\<lambda>r. range_key (ttr_range r)) ranges"

subsection \<open>Checks on a plan\<close>

definition MatchesSnapshot :: "TopologySnapshot \<Rightarrow> TopologyState \<Rightarrow> bool" where
  "MatchesSnapshot latest next' \<longleftrightarrow>
     ts_version (sn_state latest) = ts_version next' \<and> ts_clusterHasInit (sn_state latest) = ts_clusterHasInit next'
     \<and> ts_tokensPerMember (sn_state latest) = ts_tokensPerMember next'
     \<and> (ts_activeBatch (sn_state latest) \<noteq> None) = (ts_activeBatch next' \<noteq> None)
     \<and> ts_activeBatch (sn_state latest) = ts_activeBatch next'
     \<and> length (ts_members (sn_state latest)) = length (ts_members next')
     \<and> list_all2 (\<lambda>left right. mb_identity left = mb_identity right \<and> mb_state left = mb_state right)
         (ts_members (sn_state latest)) (ts_members next')"

fun check_ranges :: "u32 option \<Rightarrow> TokenRange list \<Rightarrow> unit result" where
  "check_ranges prev [] = Inr ()"
| "check_ranges prev (r # rs) =
     bind_result (check_fail (rng_from r \<le> rng_end r) K_INVALID) (\<lambda>_.
     bind_result (check_fail (case prev of None \<Rightarrow> True | Some e \<Rightarrow> e < rng_from r) K_INVALID) (\<lambda>_.
       check_ranges (Some (rng_end r)) rs))"

definition change_states_ok :: "TopologyChangeType \<Rightarrow> Member \<Rightarrow> Member \<Rightarrow> bool" where
  "change_states_ok type source target =
     (case type of
        SCALE_OUT \<Rightarrow> IsCommittedMemberState (mb_state source) \<and> mb_state target = JOINING
      | FAILURE \<Rightarrow> mb_state source = FAILED \<and> mb_state target = ACTIVE
      | SCALE_IN \<Rightarrow> mb_state source = LEAVING \<and> IsAdmittedScaleInMigrationTargetState (mb_state target))"

definition ValidateOwnerChange :: "TopologySnapshot \<Rightarrow> TopologyChangeType \<Rightarrow> TopologyOwnerChange \<Rightarrow> unit result" where
  "ValidateOwnerChange latest type change =
     (case oc_source change of
        None \<Rightarrow> Inl K_INVALID
      | Some changeSource \<Rightarrow>
          bind_result (check_fail (oc_ranges change \<noteq> []) K_INVALID) (\<lambda>_.
          bind_result (FindMemberByAddress latest (mi_address changeSource)) (\<lambda>source.
          bind_result (FindMemberByAddress latest (mi_address (oc_target change))) (\<lambda>target.
          bind_result (check_fail (mb_identity source = changeSource \<and> mb_identity target = oc_target change) K_INVALID) (\<lambda>_.
          bind_result (check_fail (change_states_ok type source target) K_INVALID) (\<lambda>_.
            check_ranges None (sort_key range_key (oc_ranges change))))))))"

subsection \<open>Tasks\<close>

fun chunks :: "nat \<Rightarrow> 'a list \<Rightarrow> 'a list list" where
  "chunks size' xs = (if xs = [] \<or> size' = 0 then [] else take size' xs # chunks size' (drop size' xs))"

definition change_source :: "TopologyOwnerChange \<Rightarrow> string" where
  "change_source change = (case oc_source change of Some s \<Rightarrow> mi_address s | None \<Rightarrow> [])"

definition chunk_task :: "TopologyChangeType \<Rightarrow> u64 \<Rightarrow> TopologyOwnerChange \<Rightarrow> TokenRange list \<Rightarrow> TopologyTask" where
  "chunk_task type epoch change ranges =
     (if type = FAILURE then
        let executor = mi_address (oc_target change) in
        DeleteTask \<lparr>dt_taskId = [], dt_epoch = epoch, dt_executorAddress = executor, dt_failedAddress = change_source change,
          dt_recoveryRanges = CanonicalizeRanges (map (\<lambda>r. \<lparr>ttr_ownerAddress = executor, ttr_range = r, ttr_finished = False\<rparr>) ranges)\<rparr>
      else
        let executor = change_source change in
        MigrateTask \<lparr>mt_taskId = [], mt_type = type, mt_epoch = epoch, mt_executorAddress = executor,
          mt_targetAddress = mi_address (oc_target change),
          mt_sourceRanges = CanonicalizeRanges (map (\<lambda>r. \<lparr>ttr_ownerAddress = executor, ttr_range = r, ttr_finished = False\<rparr>) ranges)\<rparr>)"

definition AppendTaskChunks :: "TopologyChangeType \<Rightarrow> u64 \<Rightarrow> TopologyOwnerChange \<Rightarrow> TopologyTask list \<Rightarrow> TopologyTask list" where
  "AppendTaskChunks type epoch change tasks =
     tasks @ map (chunk_task type epoch change) (chunks MAX_TOPOLOGY_TASK_RANGES (sort_key range_key (oc_ranges change)))"

fun kind_byte :: "TopologyTaskKind \<Rightarrow> nat" where
  "kind_byte MIGRATE = 0"
| "kind_byte DELETE_MEMBER = 1"

fun type_byte :: "TopologyChangeType \<Rightarrow> nat" where
  "type_byte SCALE_OUT = 0"
| "type_byte SCALE_IN = 1"
| "type_byte FAILURE = 2"

fun phase_byte :: "TopologyCallbackPhase \<Rightarrow> nat" where
  "phase_byte PH_SCALE_OUT = 0"
| "phase_byte PH_SCALE_IN = 1"
| "phase_byte PH_SCALE_IN_CLEANUP = 2"
| "phase_byte PH_FAILURE = 3"

fun task_seed :: "TopologyTask \<Rightarrow> string" where
  "task_seed (MigrateTask t) =
     AppendRanges (AppendString (AppendString (AppendU64 [char_of (kind_byte MIGRATE), char_of (type_byte (mt_type t))] (mt_epoch t))
       (mt_executorAddress t)) (mt_targetAddress t)) (ToRanges (mt_sourceRanges t))"
| "task_seed (DeleteTask t) =
     AppendRanges (AppendString (AppendString (AppendU64 [char_of (kind_byte DELETE_MEMBER), char_of (type_byte FAILURE)] (dt_epoch t))
       (dt_executorAddress t)) (dt_failedAddress t)) (ToRanges (dt_recoveryRanges t))"

fun task_prefix :: "TopologyTask \<Rightarrow> string" where
  "task_prefix (MigrateTask t) = ''m-e'' @ decimal (unat (mt_epoch t)) @ ''-''"
| "task_prefix (DeleteTask t) = ''d-e'' @ decimal (unat (dt_epoch t)) @ ''-''"

definition BuildTaskId :: "(string \<Rightarrow> string result) \<Rightarrow> TopologyTask \<Rightarrow> string" where
  "BuildTaskId sha256Hex task = task_prefix task @ DigestPrefix sha256Hex (task_seed task)"

record ExpectedDerivedState =
  ed_tasks :: "TopologyTask list"
  ed_notifiesByAddress :: "(string, TopologyTaskNotify) omap"
  ed_notifyRecipients :: "string list"
  ed_canonicalRestartNotify :: string

fun set_task_id :: "string \<Rightarrow> TopologyTask \<Rightarrow> TopologyTask" where
  "set_task_id i (MigrateTask t) = MigrateTask (t\<lparr>mt_taskId := i\<rparr>)"
| "set_task_id i (DeleteTask t) = DeleteTask (t\<lparr>dt_taskId := i\<rparr>)"

fun task_id :: "TopologyTask \<Rightarrow> string" where
  "task_id (MigrateTask t) = mt_taskId t"
| "task_id (DeleteTask t) = dt_taskId t"

fun task_executor :: "TopologyTask \<Rightarrow> string" where
  "task_executor (MigrateTask t) = mt_executorAddress t"
| "task_executor (DeleteTask t) = dt_executorAddress t"

fun collect_tasks :: "TopologySnapshot \<Rightarrow> TopologyChangeType \<Rightarrow> u64 \<Rightarrow> TopologyTask list \<Rightarrow> TopologyOwnerChange list
    \<Rightarrow> TopologyTask list result" where
  "collect_tasks latest type epoch tasks [] = Inr tasks"
| "collect_tasks latest type epoch tasks (change # changes) =
     bind_result (ValidateOwnerChange latest type change) (\<lambda>_.
       collect_tasks latest type epoch (AppendTaskChunks type epoch change tasks) changes)"

fun assign_ids :: "(string \<Rightarrow> string result) \<Rightarrow> TopologyTask list \<Rightarrow> TopologyTask list result" where
  "assign_ids sha256Hex [] = Inr []"
| "assign_ids sha256Hex (task # tasks) =
     (let taskId = BuildTaskId sha256Hex task in
      bind_result (check_fail (length taskId > ID_HASH_CHARS) K_RUNTIME_ERROR) (\<lambda>_.
      bind_result (assign_ids sha256Hex tasks) (\<lambda>rest. Inr (set_task_id taskId task # rest))))"

definition empty_notify :: TopologyTaskNotify where
  "empty_notify = \<lparr>tn_activeBatch = None, tn_taskIds = [], tn_restartTimestampsByAddress = []\<rparr>"

definition add_notify :: "TopologyChangeType \<Rightarrow> u64 \<Rightarrow> (string, TopologyTaskNotify) omap \<Rightarrow> TopologyTask \<Rightarrow> (string, TopologyTaskNotify) omap" where
  "add_notify type epoch notifies task =
     (let notify = (case map_of notifies (task_executor task) of None \<Rightarrow> empty_notify | Some n \<Rightarrow> n)
      in omap_set (task_executor task) (notify\<lparr>tn_activeBatch := Some \<lparr>ab_type = type, ab_epoch = epoch\<rparr>,
           tn_taskIds := tn_taskIds notify @ [task_id task]\<rparr>) notifies)"

definition BuildExpected :: "(string \<Rightarrow> string result) \<Rightarrow> TopologySnapshot \<Rightarrow> TopologyPlan \<Rightarrow> ExpectedDerivedState result" where
  "BuildExpected sha256Hex latest plan =
     (case ts_activeBatch (sn_state latest) of
        None \<Rightarrow> Inl K_INVALID
      | Some batch \<Rightarrow>
          bind_result (check_fail (MatchesSnapshot latest (tp_next plan)) K_INVALID) (\<lambda>_.
          bind_result (collect_tasks latest (ab_type batch) (ab_epoch batch) [] (tp_ownerChanges plan)) (\<lambda>tasks.
          bind_result (assign_ids sha256Hex tasks) (\<lambda>named.
            let ordered = sort_key task_id named;
                notifies = foldl (add_notify (ab_type batch) (ab_epoch batch)) [] ordered
            in Inr \<lparr>ed_tasks = ordered, ed_notifiesByAddress = notifies, ed_notifyRecipients = map fst notifies,
                    ed_canonicalRestartNotify = []\<rparr>))))"

definition selected_state :: "TopologyChangeType \<Rightarrow> MemberState" where
  "selected_state type = (case type of SCALE_OUT \<Rightarrow> JOINING | SCALE_IN \<Rightarrow> LEAVING | FAILURE \<Rightarrow> FAILED)"

definition RebuildPlan :: "TopologySnapshot \<Rightarrow> IPlanningAlgorithm \<Rightarrow> TopologyPlan result" where
  "RebuildPlan latest algorithm =
     (case ts_activeBatch (sn_state latest) of
        None \<Rightarrow> Inl K_INVALID
      | Some batch \<Rightarrow>
          let type = ab_type batch; state = sn_state latest; wanted = selected_state type;
              chosen = map mb_identity (filter (\<lambda>m. mb_state m = wanted) (ts_members state));
              current = state\<lparr>ts_members := map (\<lambda>m. if mb_state m = wanted \<and> wanted = FAILED
                                                     then m\<lparr>mb_state := ACTIVE\<rparr> else m) (ts_members state)\<rparr>
          in bind_result (check_fail (chosen \<noteq> []) K_INVALID) (\<lambda>_.
             if type = FAILURE \<and> \<not> list_ex (\<lambda>m. mb_state m = ACTIVE) (ts_members state)
             then Inr \<lparr>tp_next = state, tp_ownerChanges = []\<rparr>
             else
               bind_result
                 (case type of
                    SCALE_OUT \<Rightarrow> ia_PlanScaleOut algorithm \<lparr>soi_current = current, soi_joining = chosen,
                                  soi_tokensPerMember = ts_tokensPerMember current\<rparr>
                  | SCALE_IN \<Rightarrow> ia_PlanScaleIn algorithm \<lparr>sii_current = current, sii_leaving = chosen\<rparr>
                  | FAILURE \<Rightarrow> ia_PlanFailure algorithm \<lparr>fi_current = current, fi_failed = chosen\<rparr>) (\<lambda>plan.
                 Inr (plan\<lparr>tp_next := state\<rparr>))))"

fun restart_facts_of :: "MembershipRecord list \<Rightarrow> string list \<Rightarrow> (string, int) omap \<Rightarrow> (string list \<times> (string, int) omap) result" where
  "restart_facts_of [] recipients restarts = Inr (recipients, restarts)"
| "restart_facts_of (r # rs) recipients restarts =
     bind_result (check_fail (mr_address r \<noteq> []) K_INVALID) (\<lambda>_.
       if mr_state r = LS_RESTARTING then
         bind_result (check_fail (mr_timestamp r > 0) K_INVALID) (\<lambda>_.
           restart_facts_of rs (recipients @ [mr_address r]) (omap_set (mr_address r) (mr_timestamp r) restarts))
       else restart_facts_of rs (recipients @ [mr_address r]) restarts)"

definition empty_expected :: ExpectedDerivedState where
  "empty_expected = \<lparr>ed_tasks = [], ed_notifiesByAddress = [], ed_notifyRecipients = [], ed_canonicalRestartNotify = []\<rparr>"

definition RebuildExpected :: "(string \<Rightarrow> string result) \<Rightarrow> (string \<Rightarrow> bool) \<Rightarrow> (TaskNotifyPb \<Rightarrow> string option) \<Rightarrow> TopologySnapshot
    \<Rightarrow> IPlanningAlgorithm \<Rightarrow> MembershipRecord list \<Rightarrow> bool \<Rightarrow> ExpectedDerivedState result" where
  "RebuildExpected sha256Hex hostPortOk serialize latest algorithm memberships includeRestartFacts =
     bind_result
       (if ts_activeBatch (sn_state latest) \<noteq> None
        then bind_result (RebuildPlan latest algorithm) (\<lambda>plan. BuildExpected sha256Hex latest plan)
        else Inr empty_expected) (\<lambda>built.
       if \<not> includeRestartFacts then Inr built
       else
         bind_result (restart_facts_of memberships (ed_notifyRecipients built) []) (\<lambda>(recipients, restarts).
         bind_result (EncodeNotify hostPortOk serialize (empty_notify\<lparr>tn_restartTimestampsByAddress := restarts\<rparr>)) (\<lambda>encoded.
           Inr (built\<lparr>ed_notifyRecipients := remdups_adj (sort recipients), ed_canonicalRestartNotify := encoded\<rparr>))))"

text \<open>\<open>std::binary_search\<close> on the sorted recipients is membership.\<close>

definition BuildEncodedNotifyFor :: "(string \<Rightarrow> bool) \<Rightarrow> (TaskNotifyPb \<Rightarrow> string option) \<Rightarrow> ExpectedDerivedState \<Rightarrow> string \<Rightarrow> string result" where
  "BuildEncodedNotifyFor hostPortOk serialize expected address =
     bind_result (check_fail (address \<in> set (ed_notifyRecipients expected)) K_INVALID) (\<lambda>_.
       ComposeNotify hostPortOk serialize
         (case map_of (ed_notifiesByAddress expected) address of None \<Rightarrow> empty_notify | Some n \<Rightarrow> n)
         (ed_canonicalRestartNotify expected))"

record TopologyExecutionFence =
  ef_taskId :: string
  ef_taskKind :: TopologyTaskKind
  ef_batchType :: TopologyChangeType
  ef_batchEpoch :: u64
  ef_phase :: TopologyCallbackPhase
  ef_executor :: MemberIdentity
  ef_source :: "MemberIdentity option"
  ef_target :: "MemberIdentity option"
  ef_failed :: "MemberIdentity option"
  ef_ranges :: "TokenRange list"

definition BuildBusinessOperationId :: "(string \<Rightarrow> string result) \<Rightarrow> TopologyCallbackPhase \<Rightarrow> TopologyExecutionFence \<Rightarrow> string" where
  "BuildBusinessOperationId sha256Hex phase fence =
     (let source = (if phase = PH_FAILURE then None else ef_source fence)
      in ''op-'' @ DigestPrefix sha256Hex (AppendRanges (AppendIdentity (AppendIdentity (AppendIdentity
           [char_of (phase_byte phase)] source) (ef_target fence)) (ef_failed fence)) (ef_ranges fence)))"

subsection \<open>The digested bytes determine the task\<close>

lemma byte_at_eq: "byte_at k v = byte_at k w \<longleftrightarrow> take_bit 8 (drop_bit k v) = take_bit 8 (drop_bit k w)"
proof -
  have mask: "(0xff :: 'a::len word) = mask 8" by (simp add: mask_eq_exp_minus_1)
  have lt: "unat (take_bit 8 x) < 256" for x :: "'a word"
    by (simp add: unsigned_take_bit_eq take_bit_nat_less_exp [of 8, simplified])
  have "char_of (unat (take_bit 8 (drop_bit k v))) = char_of (unat (take_bit 8 (drop_bit k w)))
      \<longleftrightarrow> unat (take_bit 8 (drop_bit k v)) = unat (take_bit 8 (drop_bit k w))"
    using lt by (simp add: char_of_eq_iff of_char_of take_bit_nat_eq_self)
  moreover have "unat x = unat y \<longleftrightarrow> x = y" for x y :: "'a word" by (metis unsigned_word_eqI)
  ultimately show ?thesis unfolding byte_at_def mask take_bit_eq_mask [symmetric] by (simp only:)
qed

lemma bytes_determine:
  fixes v w :: "'a::len word"
  assumes "\<And>i. i < LENGTH('a) div 8 \<Longrightarrow> byte_at (8 * i) v = byte_at (8 * i) w" "LENGTH('a) mod 8 = 0"
  shows "v = w"
proof (rule bit_word_eqI)
  fix n assume n: "n < LENGTH('a)"
  then have i: "n div 8 < LENGTH('a) div 8" using assms(2) by (simp add: div_less_iff_less_mult minus_mod_eq_div_mult [symmetric])
  then have "bit (take_bit 8 (drop_bit (8 * (n div 8)) v)) (n mod 8) = bit (take_bit 8 (drop_bit (8 * (n div 8)) w)) (n mod 8)"
    using assms(1) [OF i] unfolding byte_at_eq by simp
  then show "bit v n = bit w n" by (simp add: bit_take_bit_iff bit_drop_bit_eq)
qed

interpretation u64_code: prefix_code "AppendU64 []" "\<lambda>_. True"
proof
  fix x y :: u64 and r s
  assume "AppendU64 [] x @ r = AppendU64 [] y @ s"
  then have eq: "\<forall>k \<in> {0, 8, 16, 24, 32, 40, 48, 56}. byte_at k x = byte_at k y" and rest: "r = s" by (simp_all add: AppendU64_def)
  have "byte_at (8 * i) x = byte_at (8 * i) y" if "i < LENGTH(64) div 8" for i
  proof -
    have "i < 8" using that by simp
    then consider "i = 0" | "i = 1" | "i = 2" | "i = 3" | "i = 4" | "i = 5" | "i = 6" | "i = 7" by linarith
    then show ?thesis using eq by cases simp_all
  qed
  then show "x = y \<and> r = s" using bytes_determine [of x y] rest by simp
qed

interpretation u32_code: prefix_code "AppendU32 []" "\<lambda>_. True"
proof
  fix x y :: u32 and r s
  assume "AppendU32 [] x @ r = AppendU32 [] y @ s"
  then have eq: "\<forall>k \<in> {0, 8, 16, 24}. byte_at k x = byte_at k y" and rest: "r = s" by (simp_all add: AppendU32_def)
  have "byte_at (8 * i) x = byte_at (8 * i) y" if "i < LENGTH(32) div 8" for i
  proof -
    have "i < 4" using that by simp
    then consider "i = 0" | "i = 1" | "i = 2" | "i = 3" by linarith
    then show ?thesis using eq by cases simp_all
  qed
  then show "x = y \<and> r = s" using bytes_determine [of x y] rest by simp
qed

lemma append_normal:
  "AppendU64 seed v = seed @ AppendU64 [] v" "AppendU32 seed w = seed @ AppendU32 [] w" "AppendString seed x = seed @ AppendString [] x"
  by (simp_all add: AppendU64_def AppendU32_def AppendString_def)

lemma of_nat_u64_inj:
  assumes "n < 2 ^ 64" "m < 2 ^ 64"
  shows "(of_nat n :: u64) = of_nat m \<longleftrightarrow> n = m"
proof -
  have "unat (of_nat n :: u64) = n" "unat (of_nat m :: u64) = m" using assms by (simp_all add: unat_of_nat)
  then show ?thesis by metis
qed

interpretation string_code: prefix_code "AppendString []" "\<lambda>s. length s < 2 ^ 64"
proof
  fix x y r s :: string
  assume len: "length x < 2 ^ 64" "length y < 2 ^ 64" and eq: "AppendString [] x @ r = AppendString [] y @ s"
  have "AppendU64 [] (of_nat (length x)) @ (x @ r) = AppendU64 [] (of_nat (length y)) @ (y @ s)"
    using eq by (simp add: AppendString_def)
  from u64_code.prefix_free [OF TrueI TrueI this] have "length x = length y" "x @ r = y @ s"
    using of_nat_u64_inj [OF len] by simp_all
  then show "x = y \<and> r = s" by simp
qed

definition range_bytes :: "TokenRange \<Rightarrow> string" where
  "range_bytes r = AppendU32 [] (rng_from r) @ AppendU32 [] (rng_end r)"

interpretation range_code: prefix_code range_bytes "\<lambda>_. True"
proof
  fix x y :: TokenRange and r s
  assume "range_bytes x @ r = range_bytes y @ s"
  then have "AppendU32 [] (rng_from x) @ (AppendU32 [] (rng_end x) @ r) = AppendU32 [] (rng_from y) @ (AppendU32 [] (rng_end y) @ s)"
    by (simp add: range_bytes_def)
  from u32_code.prefix_free [OF TrueI TrueI this] u32_code.prefix_free [of "rng_end x" r "rng_end y" s]
  show "x = y \<and> r = s" by (auto intro: TokenRange.equality)
qed

lemma AppendRanges_normal:
  "AppendRanges seed rs = seed @ AppendU64 [] (of_nat (length rs)) @ concat (map range_bytes (sort_key range_key rs))"
proof -
  have "foldl (\<lambda>s r. AppendU32 (AppendU32 s (rng_from r)) (rng_end r)) seed' xs = seed' @ concat (map range_bytes xs)" for seed' xs
  proof (induction xs arbitrary: seed')
    case (Cons r xs)
    then show ?case using append_normal(2) [of "AppendU32 seed' (rng_from r)"] append_normal(2) [of seed']
      by (simp add: range_bytes_def)
  qed simp
  then show ?thesis by (simp add: AppendRanges_def append_normal(1) [of seed])
qed

lemma range_key_inj: "inj range_key"
  by (auto simp: inj_def range_key_def intro: TokenRange.equality)

lemma sort_ranges_eq: "sort_key range_key xs = sort_key range_key ys \<longleftrightarrow> mset xs = mset ys"
proof
  assume "mset xs = mset ys"
  then show "sort_key range_key xs = sort_key range_key ys"
    using range_key_inj by (intro sort_key_inj_key_eq) (auto intro: inj_on_subset)
qed (metis mset_sort)

interpretation ranges_code: prefix_code "AppendRanges []" "\<lambda>rs. length rs < 2 ^ 64 \<and> sort_key range_key rs = rs"
proof
  fix x y :: "TokenRange list" and r s
  assume x: "length x < 2 ^ 64 \<and> sort_key range_key x = x" and y: "length y < 2 ^ 64 \<and> sort_key range_key y = y"
    and eq: "AppendRanges [] x @ r = AppendRanges [] y @ s"
  have "AppendU64 [] (of_nat (length x)) @ (concat (map range_bytes x) @ r) = AppendU64 [] (of_nat (length y)) @ (concat (map range_bytes y) @ s)"
    using eq x y by (simp add: AppendRanges_normal)
  from u64_code.prefix_free [OF TrueI TrueI this] have "length x = length y" "concat (map range_bytes x) @ r = concat (map range_bytes y) @ s"
    using of_nat_u64_inj x y by auto
  then show "x = y \<and> r = s" by (intro range_code.list_code) (simp_all add: list_all_iff)
qed

fun task_peer :: "TopologyTask \<Rightarrow> string" where
  "task_peer (MigrateTask t) = mt_targetAddress t"
| "task_peer (DeleteTask t) = dt_failedAddress t"

fun task_ranges :: "TopologyTask \<Rightarrow> TopologyTaskRange list" where
  "task_ranges (MigrateTask t) = mt_sourceRanges t"
| "task_ranges (DeleteTask t) = dt_recoveryRanges t"

fun task_type :: "TopologyTask \<Rightarrow> TopologyChangeType" where
  "task_type (MigrateTask t) = mt_type t"
| "task_type (DeleteTask t) = FAILURE"

fun task_epoch :: "TopologyTask \<Rightarrow> u64" where
  "task_epoch (MigrateTask t) = mt_epoch t"
| "task_epoch (DeleteTask t) = dt_epoch t"

definition task_content :: "TopologyTask
    \<Rightarrow> TopologyTaskKind \<times> TopologyChangeType \<times> u64 \<times> string \<times> string \<times> TokenRange multiset" where
  "task_content t = (TaskKind t, task_type t, task_epoch t, task_executor t, task_peer t, mset (ToRanges (task_ranges t)))"

definition task_sized :: "TopologyTask \<Rightarrow> bool" where
  "task_sized t \<longleftrightarrow> length (task_executor t) < 2 ^ 64 \<and> length (task_peer t) < 2 ^ 64 \<and> length (task_ranges t) < 2 ^ 64"

lemma AppendRanges_sorted: "AppendRanges seed rs = seed @ AppendRanges [] (sort_key range_key rs)"
  by (simp add: AppendRanges_normal sort_key_id_if_sorted)

lemma task_seed_normal:
  "task_seed t = [char_of (kind_byte (TaskKind t)), char_of (type_byte (task_type t))] @ AppendU64 [] (task_epoch t)
     @ AppendString [] (task_executor t) @ AppendString [] (task_peer t)
     @ AppendRanges [] (sort_key range_key (ToRanges (task_ranges t)))"
proof -
  have norm: "AppendRanges (AppendString (AppendString (AppendU64 pre e) a) b) rs
      = pre @ AppendU64 [] e @ AppendString [] a @ AppendString [] b @ AppendRanges [] (sort_key range_key rs)" for pre e a b rs
    by (subst AppendRanges_sorted, subst append_normal(3) [of "AppendString (AppendU64 pre e) a"],
        subst append_normal(3) [of "AppendU64 pre e"], subst append_normal(1) [of pre], simp)
  show ?thesis by (cases t) (simp_all only: task_seed.simps norm TaskKind.simps task_type.simps task_epoch.simps
      task_executor.simps task_peer.simps task_ranges.simps)
qed

lemma kind_byte_inj: "char_of (kind_byte k) = (char_of (kind_byte k') :: char) \<longleftrightarrow> k = k'"
  by (cases k; cases k') (simp_all add: char_of_eq_iff)

lemma type_byte_inj: "char_of (type_byte k) = (char_of (type_byte k') :: char) \<longleftrightarrow> k = k'"
  by (cases k; cases k') (simp_all add: char_of_eq_iff)

lemma task_seed_inj:
  assumes "task_sized t" "task_sized t'"
  shows "task_seed t = task_seed t' \<longleftrightarrow> task_content t = task_content t'"
proof
  let ?rs = "\<lambda>t. sort_key range_key (ToRanges (task_ranges t))"
  assume "task_seed t = task_seed t'"
  then have head: "TaskKind t = TaskKind t'" "task_type t = task_type t'"
    and e: "AppendU64 [] (task_epoch t) @ (AppendString [] (task_executor t) @ AppendString [] (task_peer t) @ AppendRanges [] (?rs t))
      = AppendU64 [] (task_epoch t') @ (AppendString [] (task_executor t') @ AppendString [] (task_peer t') @ AppendRanges [] (?rs t'))"
    using kind_byte_inj type_byte_inj by (simp_all add: task_seed_normal)
  from u64_code.prefix_free [OF TrueI TrueI e] have epoch: "task_epoch t = task_epoch t'"
    and s: "AppendString [] (task_executor t) @ (AppendString [] (task_peer t) @ AppendRanges [] (?rs t))
      = AppendString [] (task_executor t') @ (AppendString [] (task_peer t') @ AppendRanges [] (?rs t'))" by simp_all
  have ex: "task_executor t = task_executor t'"
    and p: "AppendString [] (task_peer t) @ AppendRanges [] (?rs t) = AppendString [] (task_peer t') @ AppendRanges [] (?rs t')"
    using string_code.prefix_free [OF _ _ s] assms by (simp_all add: task_sized_def)
  have peer: "task_peer t = task_peer t'" and r: "AppendRanges [] (?rs t) @ [] = AppendRanges [] (?rs t') @ []"
    using string_code.prefix_free [OF _ _ p] assms by (simp_all add: task_sized_def)
  have "length (?rs x) < 2 ^ 64 \<and> sort_key range_key (?rs x) = ?rs x" if "task_sized x" for x
    using that by (simp add: task_sized_def ToRanges_def sort_key_id_if_sorted)
  from ranges_code.prefix_free [OF this [OF assms(1)] this [OF assms(2)] r] have "?rs t = ?rs t'" by (rule conjunct1)
  then show "task_content t = task_content t'"
    using head epoch ex peer by (simp add: task_content_def sort_ranges_eq)
next
  assume same: "task_content t = task_content t'"
  then have "sort_key range_key (ToRanges (task_ranges t)) = sort_key range_key (ToRanges (task_ranges t'))"
    unfolding sort_ranges_eq by (simp add: task_content_def)
  with same show "task_seed t = task_seed t'" by (simp add: task_seed_normal task_content_def)
qed

lemma BuildTaskId_digest:
  assumes "BuildTaskId sha256Hex t = BuildTaskId sha256Hex t'"
  shows "DigestPrefix sha256Hex (task_seed t) = DigestPrefix sha256Hex (task_seed t')"
  using assms decimal_then [of _ "CHR ''-''"] by (cases t; cases t') (fastforce simp: BuildTaskId_def)+

subsection \<open>The tasks carry out the plan\<close>

definition task_move :: "TopologyTask \<Rightarrow> string \<times> string" where
  "task_move t = (case t of MigrateTask _ \<Rightarrow> (task_executor t, task_peer t) | DeleteTask _ \<Rightarrow> (task_peer t, task_executor t))"

definition task_moves :: "TopologyTask \<Rightarrow> ((string \<times> string) \<times> TokenRange) list" where
  "task_moves t = map (\<lambda>r. (task_move t, r)) (ToRanges (task_ranges t))"

definition change_moves :: "TopologyOwnerChange \<Rightarrow> ((string \<times> string) \<times> TokenRange) list" where
  "change_moves c = map (\<lambda>r. ((change_source c, mi_address (oc_target c)), r)) (oc_ranges c)"

definition task_char :: "TopologyTask \<Rightarrow> char" where
  "task_char t = (case t of MigrateTask _ \<Rightarrow> CHR ''m'' | DeleteTask _ \<Rightarrow> CHR ''d'')"

declare chunks.simps [simp del]

lemma concat_chunks: "0 < n \<Longrightarrow> concat (chunks n xs) = xs"
  by (induction n xs rule: chunks.induct) (subst chunks.simps, simp)

lemma chunk_properties:
  "ys \<in> set (chunks n xs) \<Longrightarrow> ys \<noteq> [] \<and> length ys \<le> n \<and> set ys \<subseteq> set xs \<and> (sorted_wrt P xs \<longrightarrow> sorted_wrt P ys)"
proof (induction n xs rule: chunks.induct)
  case (1 n xs)
  from "1.prems" have ne: "\<not> (xs = [] \<or> n = 0)" by (subst (asm) chunks.simps) (auto split: if_splits)
  with "1.prems" consider "ys = take n xs" | "ys \<in> set (chunks n (drop n xs))" by (subst (asm) chunks.simps) auto
  then show ?case
  proof cases
    case 1
    then show ?thesis using ne by (auto intro: sorted_wrt_take dest: in_set_takeD)
  next
    case 2
    with "1.IH" [OF ne 2] show ?thesis by (auto intro: sorted_wrt_drop dest: in_set_dropD)
  qed
qed

definition range_before :: "TokenRange \<Rightarrow> TokenRange \<Rightarrow> bool" where
  "range_before r r' \<longleftrightarrow> rng_end r < rng_from r'"

lemma check_ranges_ordered:
  "check_ranges prev rs = Inr () \<Longrightarrow>
     (\<forall>r \<in> set rs. rng_from r \<le> rng_end r \<and> (\<forall>e. prev = Some e \<longrightarrow> e < rng_from r)) \<and> sorted_wrt range_before rs"
proof (induction rs arbitrary: prev)
  case (Cons r rs)
  then have le: "rng_from r \<le> rng_end r" and prev: "\<forall>e. prev = Some e \<longrightarrow> e < rng_from r" and rest: "check_ranges (Some (rng_end r)) rs = Inr ()"
    by (auto simp: bind_result_Inr split: option.splits if_splits)
  with Cons.IH [OF rest] show ?case by (auto simp: range_before_def)
qed simp

lemma ordered_ranges_canonical:
  assumes "sorted_wrt range_before rs" "\<forall>r \<in> set rs. rng_from r \<le> rng_end r \<and> (\<forall>e. prev = Some e \<longrightarrow> e < rng_from r)"
  shows "canonical_ranges executor prev (map (\<lambda>r. \<lparr>ttr_ownerAddress = executor, ttr_range = r, ttr_finished = f\<rparr>) rs)"
  using assms
proof (induction rs arbitrary: prev)
  case (Cons r rs)
  then show ?case by (auto simp: range_before_def split: option.splits)
qed simp

lemma ordered_ranges_sorted:
  assumes "sorted_wrt range_before rs" "\<forall>r \<in> set rs. rng_from r \<le> rng_end r"
  shows "sort_key range_key rs = rs"
proof (rule sort_key_id_if_sorted)
  show "sorted (map range_key rs)"
    using assms
  proof (induction rs)
    case (Cons r rs)
    have "rng_from r < rng_from r'" if "r' \<in> set rs" for r'
      using Cons.prems that le_less_trans [of "rng_from r" "rng_end r" "rng_from r'"] by (simp add: range_before_def)
    with Cons show ?case by (auto simp: range_key_def)
  qed simp
qed

lemma ordered_change_ranges:
  assumes "ValidateOwnerChange latest type change = Inr ()" "ys \<in> set (chunks n (sort_key range_key (oc_ranges change)))"
  shows "ys \<noteq> [] \<and> length ys \<le> n \<and> sorted_wrt range_before ys \<and> (\<forall>r \<in> set ys. rng_from r \<le> rng_end r)"
proof -
  have "check_ranges None (sort_key range_key (oc_ranges change)) = Inr ()"
    using assms(1) by (auto simp: ValidateOwnerChange_def bind_result_Inr split: option.splits if_splits)
  from check_ranges_ordered [OF this] chunk_properties [OF assms(2), of range_before] show ?thesis by auto
qed

lemma CanonicalizeRanges_ordered:
  assumes "sorted_wrt range_before ys" "\<forall>r \<in> set ys. rng_from r \<le> rng_end r"
  shows "CanonicalizeRanges (map (\<lambda>r. \<lparr>ttr_ownerAddress = a, ttr_range = r, ttr_finished = f\<rparr>) ys)
    = map (\<lambda>r. \<lparr>ttr_ownerAddress = a, ttr_range = r, ttr_finished = f\<rparr>) ys"
proof -
  from ordered_ranges_sorted [OF assms] have "sorted (map range_key ys)" by (metis sorted_sort_key)
  then show ?thesis unfolding CanonicalizeRanges_def by (intro sort_key_id_if_sorted) (simp add: comp_def)
qed

definition task_well_formed :: "TopologyChangeType \<Rightarrow> u64 \<Rightarrow> TopologyTask \<Rightarrow> bool" where
  "task_well_formed type epoch t \<longleftrightarrow> task_type t = type \<and> task_epoch t = epoch \<and> (TaskKind t = DELETE_MEMBER) = (type = FAILURE)
     \<and> task_ranges t \<noteq> [] \<and> length (task_ranges t) \<le> MAX_TOPOLOGY_TASK_RANGES
     \<and> canonical_ranges (task_executor t) None (task_ranges t)"

lemma chunk_task_well_formed:
  assumes "ValidateOwnerChange latest type change = Inr ()"
    "ys \<in> set (chunks MAX_TOPOLOGY_TASK_RANGES (sort_key range_key (oc_ranges change)))"
  shows "task_well_formed type epoch (chunk_task type epoch change ys)
    \<and> task_moves (chunk_task type epoch change ys) = map (\<lambda>r. ((change_source change, mi_address (oc_target change)), r)) ys"
proof -
  note ys = ordered_change_ranges [OF assms]
  then have "canonical_ranges a None (map (\<lambda>r. \<lparr>ttr_ownerAddress = a, ttr_range = r, ttr_finished = False\<rparr>) ys)" for a
    by (intro ordered_ranges_canonical) auto
  with ys show ?thesis
    by (simp add: task_well_formed_def chunk_task_def CanonicalizeRanges_ordered task_moves_def task_move_def ToRanges_def comp_def Let_def)
qed

lemma collect_tasks_ok:
  assumes "collect_tasks latest type epoch tasks changes = Inr out"
  shows "(\<forall>c \<in> set changes. ValidateOwnerChange latest type c = Inr ())
    \<and> out = tasks @ concat (map (\<lambda>c. AppendTaskChunks type epoch c []) changes)"
  using assms
proof (induction changes arbitrary: tasks)
  case (Cons c changes)
  from Cons.prems have c: "ValidateOwnerChange latest type c = Inr ()"
    and rest: "collect_tasks latest type epoch (AppendTaskChunks type epoch c tasks) changes = Inr out" by (auto simp: bind_result_Inr)
  from Cons.IH [OF rest] c show ?case by (simp add: AppendTaskChunks_def)
qed simp

lemma assign_ids_ok: "assign_ids sha256Hex tasks = Inr named \<Longrightarrow> named = map (\<lambda>t. set_task_id (BuildTaskId sha256Hex t) t) tasks"
  by (induction tasks arbitrary: named) (auto simp: bind_result_Inr Let_def split: if_splits)

lemma set_task_id_fields [simp]:
  "task_id (set_task_id i t) = i" "BuildTaskId sha256Hex (set_task_id i t) = BuildTaskId sha256Hex t"
  "task_moves (set_task_id i t) = task_moves t" "task_well_formed type epoch (set_task_id i t) = task_well_formed type epoch t"
  by (cases t; simp add: BuildTaskId_def task_moves_def task_move_def task_well_formed_def)+

lemma change_chunks_moves:
  assumes "ValidateOwnerChange latest type c = Inr ()"
  shows "mset (concat (map task_moves (AppendTaskChunks type epoch c []))) = mset (change_moves c)"
proof -
  let ?f = "\<lambda>r. ((change_source c, mi_address (oc_target c)), r)" and ?cs = "chunks MAX_TOPOLOGY_TASK_RANGES (sort_key range_key (oc_ranges c))"
  have "concat (map task_moves (AppendTaskChunks type epoch c [])) = concat (map (map ?f) ?cs)"
    using chunk_task_well_formed [OF assms] by (auto simp: AppendTaskChunks_def intro!: arg_cong [of _ _ concat])
  also have "\<dots> = map ?f (sort_key range_key (oc_ranges c))"
    by (simp add: map_concat [symmetric] concat_chunks MAX_TOPOLOGY_TASK_RANGES_def)
  finally show ?thesis by (simp add: change_moves_def)
qed

lemma valid_task_id:
  assumes "0 < n" "length d = TASK_DIGEST_SIZE" "list_all IsLowerHex d" "k = CHR ''m'' \<or> k = CHR ''d''"
  shows "IsValidTaskId ([k, CHR ''-'', CHR ''e''] @ decimal n @ CHR ''-'' # d)"
proof -
  have digits: "list_all (between CHR ''0'' CHR ''9'') (decimal n)"
    using decimal_digits [of _ n] by (fastforce simp: list_all_iff between_of_char)
  have "between CHR ''1'' CHR ''9'' (hd (decimal n))" "decimal n \<noteq> []"
    using decimal_hd [OF assms(1)] decimal_digits [of "hd (decimal n)" n] by (simp_all add: between_of_char)
  moreover have "takeWhile (\<lambda>c. c \<noteq> CHR ''-'') (decimal n @ CHR ''-'' # d) = decimal n"
    using digits by (subst takeWhile_append2) (auto simp: list_all_iff between_of_char)
  moreover have "0 < length (decimal n)" using calculation(2) by simp
  ultimately show ?thesis using assms digits
    by (auto simp: IsValidTaskId_def Let_def starts_with_def TASK_KIND_PREFIX_SIZE_def MIN_TASK_ID_SIZE_def numeral_3_eq_3 Suc_le_eq)
qed

lemma notifies_of_tasks:
  "omap_ok (foldl (add_notify type epoch) [] ts)
   \<and> fst ` set (foldl (add_notify type epoch) [] ts) = task_executor ` set ts
   \<and> map_of (foldl (add_notify type epoch) [] ts) a =
       (let mine = filter (\<lambda>t. task_executor t = a) ts
        in if mine = [] then None
           else Some \<lparr>tn_activeBatch = Some \<lparr>ab_type = type, ab_epoch = epoch\<rparr>, tn_taskIds = map task_id mine,
                      tn_restartTimestampsByAddress = []\<rparr>)"
proof (induction ts arbitrary: a rule: rev_induct)
  case (snoc t ts)
  show ?case using snoc [of a] snoc [of "task_executor t"]
    by (auto simp: add_notify_def Let_def fst_set_omap_set empty_notify_def)
qed simp

lemma BuildExpected_ok:
  assumes "BuildExpected sha256Hex latest plan = Inr expected" "ts_activeBatch (sn_state latest) = Some b"
  obtains tasks where "\<forall>c \<in> set (tp_ownerChanges plan). ValidateOwnerChange latest (ab_type b) c = Inr ()"
    "tasks = concat (map (\<lambda>c. AppendTaskChunks (ab_type b) (ab_epoch b) c []) (tp_ownerChanges plan))"
    "ed_tasks expected = sort_key task_id (map (\<lambda>t. set_task_id (BuildTaskId sha256Hex t) t) tasks)"
    "ed_notifiesByAddress expected = foldl (add_notify (ab_type b) (ab_epoch b)) [] (ed_tasks expected)"
    "ed_notifyRecipients expected = map fst (ed_notifiesByAddress expected)"
proof -
  from assms obtain tasks named where c: "collect_tasks latest (ab_type b) (ab_epoch b) [] (tp_ownerChanges plan) = Inr tasks"
    and a: "assign_ids sha256Hex tasks = Inr named"
    and e: "expected = \<lparr>ed_tasks = sort_key task_id named,
        ed_notifiesByAddress = foldl (add_notify (ab_type b) (ab_epoch b)) [] (sort_key task_id named),
        ed_notifyRecipients = map fst (foldl (add_notify (ab_type b) (ab_epoch b)) [] (sort_key task_id named)),
        ed_canonicalRestartNotify = []\<rparr>"
    by (auto simp: BuildExpected_def bind_result_Inr Let_def split: if_splits)
  with collect_tasks_ok [OF c] assign_ids_ok [OF a] that [of tasks] show thesis by simp
qed

lemma collected_tasks:
  assumes "\<forall>c \<in> set changes. ValidateOwnerChange latest type c = Inr ()"
    "tasks = concat (map (\<lambda>c. AppendTaskChunks type epoch c []) changes)"
  shows "mset (concat (map task_moves tasks)) = mset (concat (map change_moves changes))
    \<and> (\<forall>t \<in> set tasks. task_well_formed type epoch t)"
  unfolding assms(2) using assms(1)
proof (induction changes)
  case (Cons c changes)
  have "task_well_formed type epoch t" if "t \<in> set (AppendTaskChunks type epoch c [])" for t
    using that chunk_task_well_formed Cons.prems by (fastforce simp: AppendTaskChunks_def)
  moreover have "mset (concat (map task_moves (AppendTaskChunks type epoch c []))) = mset (change_moves c)"
    using Cons.prems by (intro change_chunks_moves [of latest]) simp
  ultimately show ?case using Cons by auto
qed simp

lemma built_ids_valid:
  assumes "sha256_sized sha256" "0 < task_epoch t"
  shows "ValidateTaskContext (BuildTaskId (GetSha256Hex sha256) t) (task_char t) (task_epoch t) = Inr ()"
proof -
  obtain h where h: "GetSha256Hex sha256 (task_seed t) = Inr h" "length h = SHA256_HEX_SIZE" "list_all IsLowerHex h"
    using GetSha256Hex_ok [OF assms(1)] by metis
  then have d: "length (DigestPrefix (GetSha256Hex sha256) (task_seed t)) = TASK_DIGEST_SIZE"
    "list_all IsLowerHex (DigestPrefix (GetSha256Hex sha256) (task_seed t))"
    by (auto simp: DigestPrefix_def ID_HASH_CHARS_def TASK_DIGEST_SIZE_def SHA256_HEX_SIZE_def list_all_iff dest: in_set_takeD)
  have id: "BuildTaskId (GetSha256Hex sha256) t = [task_char t, CHR ''-'', CHR ''e''] @ decimal (unat (task_epoch t))
      @ CHR ''-'' # DigestPrefix (GetSha256Hex sha256) (task_seed t)"
    by (cases t) (simp_all add: BuildTaskId_def task_char_def)
  have "0 < unat (task_epoch t)" using assms(2) by (simp add: word_less_nat_alt)
  moreover have "task_char t = CHR ''m'' \<or> task_char t = CHR ''d''" by (cases t) (simp_all add: task_char_def)
  ultimately have "IsValidTaskId (BuildTaskId (GetSha256Hex sha256) t)" unfolding id using valid_task_id d by blast
  then show ?thesis by (simp add: ValidateTaskContext_def ValidateTaskId_def TaskKey_def id starts_with_def)
qed

lemma omap_keys_sorted_list: "omap_ok m \<Longrightarrow> map fst m = sorted_list_of_set (fst ` set m)"
  using sorted_list_of_set.idem_if_sorted_distinct [of "map fst m"] by (simp add: omap_ok_def strict_sorted_iff)

lemma assign_ids_total:
  assumes "sha256_sized sha256"
  shows "assign_ids (GetSha256Hex sha256) tasks = Inr (map (\<lambda>t. set_task_id (BuildTaskId (GetSha256Hex sha256) t) t) tasks)"
proof (induction tasks)
  case (Cons t tasks)
  obtain h where "GetSha256Hex sha256 (task_seed t) = Inr h" "length h = SHA256_HEX_SIZE"
    using GetSha256Hex_ok [OF assms] by metis
  then have "length (DigestPrefix (GetSha256Hex sha256) (task_seed t)) = ID_HASH_CHARS"
    by (simp add: DigestPrefix_def ID_HASH_CHARS_def SHA256_HEX_SIZE_def)
  moreover have "0 < length (task_prefix t)" by (cases t) simp_all
  ultimately have "length (BuildTaskId (GetSha256Hex sha256) t) > ID_HASH_CHARS" by (simp add: BuildTaskId_def)
  with Cons show ?case by (simp add: Let_def)
qed simp

lemma collect_tasks_total:
  "\<forall>c \<in> set changes. ValidateOwnerChange latest type c = Inr () \<Longrightarrow> \<exists>out. collect_tasks latest type epoch tasks changes = Inr out"
  by (induction changes arbitrary: tasks) auto

lemma BuildExpected_accepts:
  assumes "sha256_sized sha256" "ts_activeBatch (sn_state latest) = Some b"
  shows "(\<exists>expected. BuildExpected (GetSha256Hex sha256) latest plan = Inr expected) \<longleftrightarrow>
    MatchesSnapshot latest (tp_next plan) \<and> (\<forall>c \<in> set (tp_ownerChanges plan). ValidateOwnerChange latest (ab_type b) c = Inr ())"
proof
  assume "\<exists>expected. BuildExpected (GetSha256Hex sha256) latest plan = Inr expected"
  then obtain expected where e: "BuildExpected (GetSha256Hex sha256) latest plan = Inr expected" ..
  then have "MatchesSnapshot latest (tp_next plan)"
    by (auto simp: BuildExpected_def assms(2) split: if_splits)
  with BuildExpected_ok [OF e assms(2)]
  show "MatchesSnapshot latest (tp_next plan) \<and> (\<forall>c \<in> set (tp_ownerChanges plan). ValidateOwnerChange latest (ab_type b) c = Inr ())"
    by blast
next
  assume ok: "MatchesSnapshot latest (tp_next plan) \<and> (\<forall>c \<in> set (tp_ownerChanges plan). ValidateOwnerChange latest (ab_type b) c = Inr ())"
  then obtain out where "collect_tasks latest (ab_type b) (ab_epoch b) [] (tp_ownerChanges plan) = Inr out"
    using collect_tasks_total by blast
  with ok assms show "\<exists>expected. BuildExpected (GetSha256Hex sha256) latest plan = Inr expected"
    by (simp add: BuildExpected_def assign_ids_total Let_def)
qed

text \<open>
  C34. The tasks derived from a plan carry out exactly the plan. With SHA-256 returning 32 bytes and a batch of
  positive epoch, BuildExpected succeeds exactly when the plan matches the snapshot and every owner change passes
  its checks. The tasks then move, for every source and target, precisely the ranges of the owner changes, none
  lost and none twice; each task has the type and epoch of the batch, between 1 and 4096 ranges that are in
  order, disjoint and owned by its executor, and the id that BuildTaskId computes for it, which the codec accepts.
  Tasks come in order of their ids; the notification of an address lists the ids of exactly its tasks in this
  order, and the recipients are the executors in order of their address.
\<close>

theorem tasks_carry_out_plan:
  assumes sha: "sha256_sized sha256" and batch: "ts_activeBatch (sn_state latest) = Some b" and epoch: "0 < ab_epoch b"
  shows "((\<exists>expected. BuildExpected (GetSha256Hex sha256) latest plan = Inr expected) \<longleftrightarrow>
      MatchesSnapshot latest (tp_next plan) \<and> (\<forall>c \<in> set (tp_ownerChanges plan). ValidateOwnerChange latest (ab_type b) c = Inr ()))
    \<and> (\<forall>expected. BuildExpected (GetSha256Hex sha256) latest plan = Inr expected \<longrightarrow>
        mset (concat (map task_moves (ed_tasks expected))) = mset (concat (map change_moves (tp_ownerChanges plan)))
      \<and> (\<forall>t \<in> set (ed_tasks expected). task_well_formed (ab_type b) (ab_epoch b) t
          \<and> task_id t = BuildTaskId (GetSha256Hex sha256) t
          \<and> ValidateTaskContext (task_id t) (task_char t) (ab_epoch b) = Inr ())
      \<and> sorted (map task_id (ed_tasks expected))
      \<and> (\<forall>a. map_of (ed_notifiesByAddress expected) a =
          (let mine = filter (\<lambda>t. task_executor t = a) (ed_tasks expected)
           in if mine = [] then None
              else Some \<lparr>tn_activeBatch = Some b, tn_taskIds = map task_id mine, tn_restartTimestampsByAddress = []\<rparr>))
      \<and> ed_notifyRecipients expected = sorted_list_of_set (task_executor ` set (ed_tasks expected)))"
proof (intro conjI allI impI)
  show "(\<exists>expected. BuildExpected (GetSha256Hex sha256) latest plan = Inr expected) \<longleftrightarrow>
      MatchesSnapshot latest (tp_next plan) \<and> (\<forall>c \<in> set (tp_ownerChanges plan). ValidateOwnerChange latest (ab_type b) c = Inr ())"
    by (rule BuildExpected_accepts [OF sha batch])
next
  fix expected a
  assume built: "BuildExpected (GetSha256Hex sha256) latest plan = Inr expected"
  obtain tasks where
    tasks: "\<forall>c \<in> set (tp_ownerChanges plan). ValidateOwnerChange latest (ab_type b) c = Inr ()"
      "tasks = concat (map (\<lambda>c. AppendTaskChunks (ab_type b) (ab_epoch b) c []) (tp_ownerChanges plan))"
    and ed: "ed_tasks expected = sort_key task_id (map (\<lambda>t. set_task_id (BuildTaskId (GetSha256Hex sha256) t) t) tasks)"
    and nf: "ed_notifiesByAddress expected = foldl (add_notify (ab_type b) (ab_epoch b)) [] (ed_tasks expected)"
    and rc: "ed_notifyRecipients expected = map fst (ed_notifiesByAddress expected)"
    by (rule BuildExpected_ok [OF built batch])
  note collected = collected_tasks [OF tasks]
  have eta: "\<lparr>ab_type = ab_type b, ab_epoch = ab_epoch b\<rparr> = b" by simp
  have "mset (concat (map task_moves (ed_tasks expected))) = mset (concat (map task_moves tasks))"
    by (simp add: ed mset_concat_map image_mset.compositionality comp_def)
  with collected show "mset (concat (map task_moves (ed_tasks expected))) = mset (concat (map change_moves (tp_ownerChanges plan)))"
    by simp
  show "sorted (map task_id (ed_tasks expected))" by (simp add: ed)
  show "map_of (ed_notifiesByAddress expected) a = (let mine = filter (\<lambda>t. task_executor t = a) (ed_tasks expected)
      in if mine = [] then None
         else Some \<lparr>tn_activeBatch = Some b, tn_taskIds = map task_id mine, tn_restartTimestampsByAddress = []\<rparr>)"
    using conjunct2 [OF conjunct2 [OF notifies_of_tasks [of "ab_type b" "ab_epoch b" "ed_tasks expected" a]]] unfolding nf eta .
  show "ed_notifyRecipients expected = sorted_list_of_set (task_executor ` set (ed_tasks expected))"
    using notifies_of_tasks [of "ab_type b" "ab_epoch b" "ed_tasks expected"] by (simp add: rc nf omap_keys_sorted_list)
  show "\<forall>t \<in> set (ed_tasks expected). task_well_formed (ab_type b) (ab_epoch b) t \<and> task_id t = BuildTaskId (GetSha256Hex sha256) t
      \<and> ValidateTaskContext (task_id t) (task_char t) (ab_epoch b) = Inr ()"
  proof
    fix t assume "t \<in> set (ed_tasks expected)"
    then have wf: "task_well_formed (ab_type b) (ab_epoch b) t" and id: "task_id t = BuildTaskId (GetSha256Hex sha256) t"
      using collected by (auto simp: ed)
    then show "task_well_formed (ab_type b) (ab_epoch b) t \<and> task_id t = BuildTaskId (GetSha256Hex sha256) t
        \<and> ValidateTaskContext (task_id t) (task_char t) (ab_epoch b) = Inr ()"
      using built_ids_valid [OF sha, of t] epoch by (simp add: task_well_formed_def)
  qed
qed

definition leaving_snapshot :: TopologySnapshot where
  "leaving_snapshot = BuildIndexes (new_TopologySnapshot (demo_state\<lparr>ts_members := (demo_members)[1 := (demo_members ! 1)\<lparr>mb_state := LEAVING\<rparr>],
     ts_activeBatch := Some \<lparr>ab_type = SCALE_IN, ab_epoch = 8\<rparr>\<rparr>) 1 [] [])"

definition leaving_plan :: TopologyPlan where
  "leaving_plan = \<lparr>tp_next = sn_state leaving_snapshot,
     tp_ownerChanges = [\<lparr>oc_source = Some demo_id, oc_target = mb_identity (demo_members ! 0), oc_ranges = [\<lparr>rng_from = 101, rng_end = 200\<rparr>]\<rparr>]\<rparr>"

definition zero_sha :: "string \<Rightarrow> string option" where
  "zero_sha x = Some (replicate SHA256_DIGEST_LENGTH (CHR 0x00))"

lemma zero_sha_sized: "sha256_sized zero_sha"
  by (simp add: sha256_sized_def zero_sha_def)

theorem tasks_carry_out_plan_witness:
  "\<exists>expected. BuildExpected (GetSha256Hex zero_sha) leaving_snapshot leaving_plan = Inr expected
     \<and> mset (concat (map task_moves (ed_tasks expected))) = {#((''h:2'', ''h:1''), \<lparr>rng_from = 101, rng_end = 200\<rparr>)#}
     \<and> ed_notifyRecipients expected = sorted_list_of_set (task_executor ` set (ed_tasks expected))"
proof -
  have batch: "ts_activeBatch (sn_state leaving_snapshot) = Some \<lparr>ab_type = SCALE_IN, ab_epoch = 8\<rparr>" by code_simp
  have epoch: "0 < ab_epoch \<lparr>ab_type = SCALE_IN, ab_epoch = 8\<rparr>" by simp
  note carried = tasks_carry_out_plan [OF zero_sha_sized batch epoch, of leaving_plan]
  have "MatchesSnapshot leaving_snapshot (tp_next leaving_plan)" by code_simp
  moreover have "list_all (\<lambda>c. ValidateOwnerChange leaving_snapshot SCALE_IN c = Inr ()) (tp_ownerChanges leaving_plan)" by code_simp
  ultimately obtain expected where e: "BuildExpected (GetSha256Hex zero_sha) leaving_snapshot leaving_plan = Inr expected"
    using iffD2 [OF conjunct1 [OF carried]] by (auto simp: list_all_iff)
  have "concat (map change_moves (tp_ownerChanges leaving_plan)) = [((''h:2'', ''h:1''), \<lparr>rng_from = 101, rng_end = 200\<rparr>)]" by code_simp
  with conjunct2 [OF carried, rule_format, OF e] e show ?thesis by simp
qed

text \<open>
  C35. Task ids identify tasks. For two tasks whose strings and range lists fit the 64-bit length fields, equal
  content (kind, type, epoch, executor, target or failed member, and ranges in any order) gives the same id. And
  the same id means equal content, unless two different byte strings have the same truncated SHA-256 digest: the
  bytes that are digested leave no ambiguity between the fields.
\<close>

theorem task_ids_identify_tasks:
  assumes "task_sized t" "task_sized t'"
  shows "(task_content t = task_content t' \<longrightarrow> BuildTaskId (GetSha256Hex sha256) t = BuildTaskId (GetSha256Hex sha256) t')
    \<and> (BuildTaskId (GetSha256Hex sha256) t = BuildTaskId (GetSha256Hex sha256) t' \<longrightarrow>
         task_content t = task_content t'
         \<or> task_seed t \<noteq> task_seed t'
           \<and> DigestPrefix (GetSha256Hex sha256) (task_seed t) = DigestPrefix (GetSha256Hex sha256) (task_seed t'))"
proof (intro conjI impI)
  assume same: "task_content t = task_content t'"
  moreover from same have "task_prefix t = task_prefix t'" by (cases t; cases t') (auto simp: task_content_def)
  ultimately show "BuildTaskId (GetSha256Hex sha256) t = BuildTaskId (GetSha256Hex sha256) t'"
    using task_seed_inj [OF assms] by (simp add: BuildTaskId_def)
next
  assume "BuildTaskId (GetSha256Hex sha256) t = BuildTaskId (GetSha256Hex sha256) t'"
  from BuildTaskId_digest [OF this] task_seed_inj [OF assms]
  show "task_content t = task_content t' \<or> task_seed t \<noteq> task_seed t'
      \<and> DigestPrefix (GetSha256Hex sha256) (task_seed t) = DigestPrefix (GetSha256Hex sha256) (task_seed t')" by blast
qed

definition swapped_task :: "TokenRange list \<Rightarrow> TopologyTask" where
  "swapped_task rs = MigrateTask \<lparr>mt_taskId = [], mt_type = SCALE_OUT, mt_epoch = 3, mt_executorAddress = ''h:1'', mt_targetAddress = ''h:2'',
     mt_sourceRanges = map (\<lambda>r. \<lparr>ttr_ownerAddress = ''h:1'', ttr_range = r, ttr_finished = False\<rparr>) rs\<rparr>"

theorem task_ids_identify_tasks_witness:
  "BuildTaskId (GetSha256Hex zero_sha) (swapped_task [\<lparr>rng_from = 1, rng_end = 2\<rparr>, \<lparr>rng_from = 5, rng_end = 9\<rparr>])
   = BuildTaskId (GetSha256Hex zero_sha) (swapped_task [\<lparr>rng_from = 5, rng_end = 9\<rparr>, \<lparr>rng_from = 1, rng_end = 2\<rparr>])"
proof -
  let ?t = "swapped_task [\<lparr>rng_from = 1, rng_end = 2\<rparr>, \<lparr>rng_from = 5, rng_end = 9\<rparr>]"
  let ?t' = "swapped_task [\<lparr>rng_from = 5, rng_end = 9\<rparr>, \<lparr>rng_from = 1, rng_end = 2\<rparr>]"
  have "task_sized ?t" "task_sized ?t'" by (simp_all add: task_sized_def swapped_task_def)
  note conjunct1 [OF task_ids_identify_tasks [OF this, of zero_sha]]
  moreover have "task_content ?t = task_content ?t'" by (simp add: task_content_def swapped_task_def ToRanges_def)
  ultimately show ?thesis by (rule mp)
qed

end
