(* ===== verification/EvictionList.thy ===== *)
theory EvictionList
  imports DS_Prelude "HOL-Library.Multiset"
begin

section \<open>The clock eviction list of a worker\<close>

text \<open>
  Models the clock strategy of src/datasystem/worker/object_cache/eviction_list.{h,cpp}. The doubly linked
  list is a list of nodes with stable identities, which stand for the iterators that the index table and the
  hand \<open>oldest_\<close> hold; None is \<open>list_.end()\<close>. Counters are 8-bit words. One operation runs at a time, as
  under the accessor of its key and the list lock, so each compare-and-swap loop is one update. The heat
  strategy (floating-point heat values and the heat table, which stays empty under the clock strategy) and the
  handling of failed allocations are left out.
\<close>

subsection \<open>State\<close>

type_synonym counter8 = "8 word"

record Node =
  nd_objectKey :: string
  nd_curCounter :: counter8
  nd_maxCounter :: counter8

type_synonym iter = nat

record EvictionList =
  el_list :: "(iter \<times> Node) list"
  el_oldest :: "iter option"
  el_indexTable :: "(string, iter) omap"
  el_nextIter :: iter

definition new_EvictionList :: EvictionList where
  "new_EvictionList = \<lparr>el_list = [], el_oldest = None, el_indexTable = [], el_nextIter = 0\<rparr>"

subsection \<open>Operations of the linked list\<close>

definition list_begin :: "(iter \<times> Node) list \<Rightarrow> iter option" where
  "list_begin l = (case l of [] \<Rightarrow> None | p # _ \<Rightarrow> Some (fst p))"

definition list_next :: "(iter \<times> Node) list \<Rightarrow> iter \<Rightarrow> iter option" where
  "list_next l i = (case dropWhile (\<lambda>p. fst p \<noteq> i) l of [] \<Rightarrow> None | _ # rest \<Rightarrow> list_begin rest)"

definition list_erase :: "(iter \<times> Node) list \<Rightarrow> iter \<Rightarrow> (iter \<times> Node) list" where
  "list_erase l i = filter (\<lambda>p. fst p \<noteq> i) l"

fun list_modify :: "iter \<Rightarrow> (Node \<Rightarrow> Node) \<Rightarrow> (iter \<times> Node) list \<Rightarrow> (iter \<times> Node) list" where
  "list_modify i f [] = []"
| "list_modify i f (p # l) = (if fst p = i then (i, f (snd p)) # l else p # list_modify i f l)"

definition list_emplace :: "(iter \<times> Node) list \<Rightarrow> iter option \<Rightarrow> iter \<times> Node \<Rightarrow> (iter \<times> Node) list" where
  "list_emplace l pos p = (case pos of None \<Rightarrow> l @ [p]
     | Some i \<Rightarrow> takeWhile (\<lambda>q. fst q \<noteq> i) l @ p # dropWhile (\<lambda>q. fst q \<noteq> i) l)"

subsection \<open>Operations of the eviction list\<close>

definition SnapshotNode :: "Node \<Rightarrow> Node" where
  "SnapshotNode node = node\<lparr>nd_curCounter := min (nd_curCounter node) (nd_maxCounter node)\<rparr>"

definition emplace_back :: "Node \<Rightarrow> EvictionList \<Rightarrow> EvictionList" where
  "emplace_back node el =
     (let i = el_nextIter el; l = el_list el @ [(i, node)]
      in el\<lparr>el_list := l, el_oldest := (if length l = 1 then list_begin l else el_oldest el),
            el_indexTable := omap_set (nd_objectKey node) i (el_indexTable el), el_nextIter := i + 1\<rparr>)"

definition bump_counter :: "Node \<Rightarrow> Node" where
  "bump_counter node =
     (if nd_curCounter node < nd_maxCounter node then node\<lparr>nd_curCounter := nd_curCounter node + 1\<rparr> else node)"

definition Add :: "string \<Rightarrow> counter8 \<Rightarrow> EvictionList \<Rightarrow> EvictionList" where
  "Add objectKey counter el =
     (case map_of (el_indexTable el) objectKey of
        Some i \<Rightarrow> el\<lparr>el_list := list_modify i bump_counter (el_list el)\<rparr>
      | None \<Rightarrow> emplace_back \<lparr>nd_objectKey = objectKey, nd_curCounter = counter, nd_maxCounter = counter\<rparr> el)"

definition EraseInternal :: "string \<Rightarrow> EvictionList \<Rightarrow> Node result \<times> EvictionList" where
  "EraseInternal objectKey el =
     (case map_of (el_indexTable el) objectKey of
        None \<Rightarrow> (Inl K_NOT_FOUND, el)
      | Some i \<Rightarrow>
          let snapshot = SnapshotNode (the (map_of (el_list el) i));
              l = list_erase (el_list el) i;
              oldest = (case el_oldest el of
                          None \<Rightarrow> None
                        | Some o' \<Rightarrow> if nd_objectKey (the (map_of (el_list el) o')) = objectKey
                                    then (case list_next (el_list el) o' of None \<Rightarrow> list_begin l | Some j \<Rightarrow> Some j)
                                    else Some o')
          in (Inr snapshot, el\<lparr>el_list := l, el_oldest := oldest,
                el_indexTable := omap_erase objectKey (el_indexTable el)\<rparr>))"

definition Erase :: "string \<Rightarrow> EvictionList \<Rightarrow> unit result \<times> EvictionList" where
  "Erase objectKey el = (case EraseInternal objectKey el of (r, el') \<Rightarrow> (bind_result r (\<lambda>_. Inr ()), el'))"

definition Extract :: "string \<Rightarrow> EvictionList \<Rightarrow> Node result \<times> EvictionList" where
  "Extract objectKey el = EraseInternal objectKey el"

definition Restore :: "Node \<Rightarrow> EvictionList \<Rightarrow> EvictionList" where
  "Restore snapshot el =
     (case map_of (el_indexTable el) (nd_objectKey snapshot) of
        Some _ \<Rightarrow> el
      | None \<Rightarrow>
          let i = el_nextIter el; l = list_emplace (el_list el) (el_oldest el) (i, snapshot)
          in el\<lparr>el_list := l, el_oldest := (if length l = 1 then Some i else el_oldest el),
                el_indexTable := omap_set (nd_objectKey snapshot) i (el_indexTable el), el_nextIter := i + 1\<rparr>)"

definition merge_counters :: "Node \<Rightarrow> Node \<Rightarrow> Node" where
  "merge_counters snapshot node =
     (let maxCounter = max (nd_maxCounter node) (max (nd_maxCounter snapshot) (nd_curCounter snapshot))
      in node\<lparr>nd_maxCounter := maxCounter, nd_curCounter := min maxCounter (max (nd_curCounter node) (nd_curCounter snapshot))\<rparr>)"

definition InsertClockSnapshot :: "Node \<Rightarrow> EvictionList \<Rightarrow> bool \<times> EvictionList" where
  "InsertClockSnapshot snapshot el =
     (case map_of (el_indexTable el) (nd_objectKey snapshot) of
        Some i \<Rightarrow> (False, el\<lparr>el_list := list_modify i (merge_counters snapshot) (el_list el)\<rparr>)
      | None \<Rightarrow> (True, emplace_back snapshot el))"

definition Size :: "EvictionList \<Rightarrow> nat" where
  "Size el = length (el_list el)"

definition Exist :: "string \<Rightarrow> EvictionList \<Rightarrow> bool" where
  "Exist objectKey el \<longleftrightarrow> map_of (el_indexTable el) objectKey \<noteq> None"

text \<open>One turn of the loop of FindEvictCandidate: the counter under the hand is decreased and the hand moves on.\<close>

definition advance_hand :: "iter \<Rightarrow> EvictionList \<Rightarrow> EvictionList" where
  "advance_hand i el =
     (let l = list_modify i (\<lambda>n. n\<lparr>nd_curCounter := nd_curCounter n - 1\<rparr>) (el_list el)
      in el\<lparr>el_list := l, el_oldest := (case list_next l i of None \<Rightarrow> list_begin l | Some j \<Rightarrow> Some j)\<rparr>)"

definition counter_sum :: "EvictionList \<Rightarrow> nat" where
  "counter_sum el = (\<Sum>p \<leftarrow> el_list el. unat (nd_curCounter (snd p)))"

text \<open>None when the hand points to no node.\<close>

function find_loop :: "EvictionList \<Rightarrow> (string \<times> EvictionList) option" where
  "find_loop el =
     (case el_oldest el of
        None \<Rightarrow> None
      | Some i \<Rightarrow>
          (case map_of (el_list el) i of
             None \<Rightarrow> None
           | Some node \<Rightarrow> if nd_curCounter node = 0 then Some (nd_objectKey node, el) else find_loop (advance_hand i el)))"
  by pat_completeness auto

lemma counter_sum_modify:
  assumes "map_of l i = Some node" "unat (nd_curCounter (f node)) < unat (nd_curCounter node)"
  shows "(\<Sum>p \<leftarrow> list_modify i f l. unat (nd_curCounter (snd p))) < (\<Sum>p \<leftarrow> l. unat (nd_curCounter (snd p)))"
  using assms by (induction l) (auto split: if_splits)

lemma counter_dec: "c \<noteq> 0 \<Longrightarrow> unat (c - 1 :: counter8) = unat c - 1 \<and> 0 < unat c"
  by (simp add: unat_minus_one word_neq_0_conv unat_gt_0)

termination find_loop
proof (relation "measure counter_sum")
  fix el :: EvictionList and i node
  assume "el_oldest el = Some i" and node: "map_of (el_list el) i = Some node" and pos: "nd_curCounter node \<noteq> 0"
  then have "unat (nd_curCounter (node\<lparr>nd_curCounter := nd_curCounter node - 1\<rparr>)) < unat (nd_curCounter node)"
    using counter_dec [OF pos] by simp
  from counter_sum_modify [where f = "\<lambda>n. n\<lparr>nd_curCounter := nd_curCounter n - 1\<rparr>", OF node this]
  show "(advance_hand i el, el) \<in> measure counter_sum" by (simp add: counter_sum_def advance_hand_def Let_def)
qed simp

declare find_loop.simps [simp del]

definition FindEvictCandidate :: "EvictionList \<Rightarrow> (string result \<times> EvictionList) option" where
  "FindEvictCandidate el =
     (if el_list el = [] then Some (Inl K_RUNTIME_ERROR, el)
      else map_option (\<lambda>(key, el'). (Inr key, el')) (find_loop el))"

definition GetObjectInfo :: "string \<Rightarrow> EvictionList \<Rightarrow> Node result" where
  "GetObjectInfo objectKey el =
     (case map_of (el_indexTable el) objectKey of
        None \<Rightarrow> Inl K_NOT_FOUND
      | Some i \<Rightarrow> Inr (SnapshotNode (the (map_of (el_list el) i))))"

definition GetOldestObjectInfo :: "EvictionList \<Rightarrow> Node result" where
  "GetOldestObjectInfo el =
     bind_result (check_fail (el_list el \<noteq> []) K_RUNTIME_ERROR) (\<lambda>_.
       Inr (SnapshotNode (the (map_of (el_list el) (the (el_oldest el))))))"

text \<open>The scan of GetObjectsInfoFromOldest: at most \<open>n\<close> nodes, from \<open>i\<close> to the node before \<open>oldest_\<close>.\<close>

fun scan_nodes :: "EvictionList \<Rightarrow> nat \<Rightarrow> iter \<Rightarrow> Node list" where
  "scan_nodes el 0 i = []"
| "scan_nodes el (Suc n) i =
     SnapshotNode (the (map_of (el_list el) i)) #
       (let following = (case list_next (el_list el) i of None \<Rightarrow> list_begin (el_list el) | Some j \<Rightarrow> Some j)
        in if following = el_oldest el then [] else scan_nodes el n (the following))"

definition GetObjectsInfoFromOldest :: "nat \<Rightarrow> EvictionList \<Rightarrow> Node list" where
  "GetObjectsInfoFromOldest maxScanCount el =
     (if maxScanCount = 0 \<or> el_list el = [] then [] else scan_nodes el maxScanCount (the (el_oldest el)))"

definition ValidateMembership :: "EvictionList \<Rightarrow> unit result" where
  "ValidateMembership el =
     bind_result (check_fail (length (el_indexTable el) = length (el_list el)) K_RUNTIME_ERROR) (\<lambda>_.
       check_fail (list_all (\<lambda>p. map_of (el_indexTable el) (nd_objectKey (snd p)) \<noteq> None) (el_list el)) K_RUNTIME_ERROR)"

subsection \<open>Well-formed lists and the order of the sweep\<close>

definition el_wf :: "EvictionList \<Rightarrow> bool" where
  "el_wf el \<longleftrightarrow> distinct (map fst (el_list el)) \<and> distinct (map (nd_objectKey \<circ> snd) (el_list el))
     \<and> (\<forall>p \<in> set (el_list el). fst p < el_nextIter el \<and> nd_curCounter (snd p) \<le> nd_maxCounter (snd p))
     \<and> omap_ok (el_indexTable el)
     \<and> (\<forall>k i. map_of (el_indexTable el) k = Some i \<longleftrightarrow> (\<exists>n. (i, n) \<in> set (el_list el) \<and> nd_objectKey n = k))
     \<and> (case el_oldest el of None \<Rightarrow> el_list el = [] | Some i \<Rightarrow> i \<in> fst ` set (el_list el))"

text \<open>The nodes from the hand to the end of the list come before those from the start of the list to the hand.\<close>

definition unswept :: "EvictionList \<Rightarrow> Node list" where
  "unswept el = (case el_oldest el of None \<Rightarrow> [] | Some i \<Rightarrow> map snd (dropWhile (\<lambda>p. fst p \<noteq> i) (el_list el)))"

definition swept :: "EvictionList \<Rightarrow> Node list" where
  "swept el = (case el_oldest el of None \<Rightarrow> [] | Some i \<Rightarrow> map snd (takeWhile (\<lambda>p. fst p \<noteq> i) (el_list el)))"

definition sweep :: "EvictionList \<Rightarrow> Node list" where
  "sweep el = unswept el @ swept el"

lemma hand_split:
  assumes "el_wf el" "el_list el \<noteq> []"
  obtains A i x B where "el_list el = A @ (i, x) # B" "el_oldest el = Some i" "i \<notin> fst ` set A" "i \<notin> fst ` set B"
proof -
  from assms obtain i where i: "el_oldest el = Some i" "i \<in> fst ` set (el_list el)" by (auto simp: el_wf_def split: option.splits)
  then obtain x where "(i, x) \<in> set (el_list el)" by auto
  then obtain A B where "el_list el = A @ (i, x) # B" by (meson split_list)
  with that i assms show thesis by (auto simp: el_wf_def)
qed

lemma split_at:
  assumes "i \<notin> fst ` set A"
  shows "takeWhile (\<lambda>p. fst p \<noteq> i) (A @ (i, x) # B) = A" "dropWhile (\<lambda>p. fst p \<noteq> i) (A @ (i, x) # B) = (i, x) # B"
  using assms by (auto simp: takeWhile_append dropWhile_append)

lemma parts_at:
  assumes "el_list el = A @ (i, x) # B" "el_oldest el = Some i" "i \<notin> fst ` set A"
  shows "unswept el = x # map snd B \<and> swept el = map snd A"
  using assms by (simp add: unswept_def swept_def split_at)

lemma modify_at:
  assumes "i \<notin> fst ` set A"
  shows "list_modify i f (A @ (i, x) # B) = A @ (i, f x) # B"
  using assms by (induction A) auto

lemma next_at:
  assumes "i \<notin> fst ` set A"
  shows "list_next (A @ (i, x) # B) i = list_begin B"
  using assms by (simp add: list_next_def split_at)

lemma el_wfD:
  assumes "el_wf el"
  shows "distinct (map fst (el_list el))" "distinct (map (nd_objectKey \<circ> snd) (el_list el))" "omap_ok (el_indexTable el)"
    "\<And>p. p \<in> set (el_list el) \<Longrightarrow> fst p < el_nextIter el \<and> nd_curCounter (snd p) \<le> nd_maxCounter (snd p)"
    "\<And>k i. map_of (el_indexTable el) k = Some i \<longleftrightarrow> (\<exists>n. (i, n) \<in> set (el_list el) \<and> nd_objectKey n = k)"
    "case el_oldest el of None \<Rightarrow> el_list el = [] | Some i \<Rightarrow> i \<in> fst ` set (el_list el)"
  using assms by (auto simp: el_wf_def)

lemma wf_same_keys:
  assumes "el_wf el" and "map fst l = map fst (el_list el)" "map (nd_objectKey \<circ> snd) l = map (nd_objectKey \<circ> snd) (el_list el)"
    "\<forall>p \<in> set l. nd_curCounter (snd p) \<le> nd_maxCounter (snd p)" "case j of None \<Rightarrow> l = [] | Some i \<Rightarrow> i \<in> fst ` set l"
  shows "el_wf (el\<lparr>el_list := l, el_oldest := j\<rparr>)"
proof -
  have len: "length l = length (el_list el)" using assms(2) by (metis length_map)
  have at: "fst (l ! q) = fst (el_list el ! q)" "nd_objectKey (snd (l ! q)) = nd_objectKey (snd (el_list el ! q))"
    if "q < length l" for q
    using that len arg_cong [OF assms(2), of "\<lambda>m. m ! q"] arg_cong [OF assms(3), of "\<lambda>m. m ! q"] by simp_all
  have same: "(\<exists>n. (i, n) \<in> set l \<and> nd_objectKey n = k) \<longleftrightarrow> (\<exists>n. (i, n) \<in> set (el_list el) \<and> nd_objectKey n = k)" for i k
    unfolding in_set_conv_nth using len at by (metis fst_conv prod.collapse snd_conv)
  have ids: "fst ` set l = fst ` set (el_list el)" using assms(2) by (metis set_map)
  have "fst p < el_nextIter el" if "p \<in> set l" for p
  proof -
    from that ids obtain q where "q \<in> set (el_list el)" "fst p = fst q" by (metis imageE image_eqI)
    then show ?thesis using el_wfD(4) [OF assms(1)] by simp
  qed
  with el_wfD [OF assms(1)] same assms show ?thesis unfolding el_wf_def by (simp split: option.splits)
qed

text \<open>One turn of the hand: the first node of the sweep moves to its end with its counter decreased.\<close>

lemma advance_sweep:
  assumes "el_wf el" "sweep el = x # xs" "el_oldest el = Some i" "nd_curCounter x \<noteq> 0"
  shows "el_wf (advance_hand i el) \<and> sweep (advance_hand i el) = xs @ [x\<lparr>nd_curCounter := nd_curCounter x - 1\<rparr>]
    \<and> map fst (el_list (advance_hand i el)) = map fst (el_list el) \<and> el_list (advance_hand i el) \<noteq> []
    \<and> el_indexTable (advance_hand i el) = el_indexTable el \<and> map_of (el_list el) i = Some x"
proof -
  have "el_list el \<noteq> []" using assms el_wfD(6) [OF assms(1)] by auto
  then obtain A j y B where l: "el_list el = A @ (j, y) # B" "el_oldest el = Some j" "j \<notin> fst ` set A" "j \<notin> fst ` set B"
    using hand_split [OF assms(1)] by metis
  with assms(3) have [simp]: "j = i" by simp
  from parts_at [OF l(1-3)] assms(2) have y [simp]: "y = x" and xs: "xs = map snd B @ map snd A" by (simp_all add: sweep_def)
  let ?x = "x\<lparr>nd_curCounter := nd_curCounter x - 1\<rparr>"
  let ?l = "A @ (i, ?x) # B" and ?n = "case list_begin B of None \<Rightarrow> list_begin (A @ (i, ?x) # B) | Some k \<Rightarrow> Some k"
  have adv: "advance_hand i el = el\<lparr>el_list := ?l, el_oldest := ?n\<rparr>"
    using l by (simp add: advance_hand_def Let_def modify_at next_at)
  have "nd_curCounter x - 1 \<le> nd_maxCounter x"
    using el_wfD(4) [OF assms(1), of "(i, x)"] l counter_dec [OF assms(4)]
    by (auto simp: word_le_nat_alt intro: order_trans [OF diff_le_self])
  then have wf: "el_wf (advance_hand i el)"
    unfolding adv using l el_wfD(4) [OF assms(1)]
    by (intro wf_same_keys [OF assms(1)]) (auto simp: list_begin_def split: list.splits)
  have dist: "distinct (map fst ?l)" using el_wfD(1) [OF assms(1)] l by simp
  have "sweep (advance_hand i el) = map snd B @ map snd A @ [?x]"
  proof (cases B)
    case [simp]: Nil
    show ?thesis
    proof (cases A)
      case Nil
      then show ?thesis using parts_at [of "advance_hand i el" "[]" i ?x "[]"] by (simp add: adv list_begin_def sweep_def)
    next
      case (Cons a A')
      then show ?thesis using parts_at [of "advance_hand i el" "[]" "fst a" "snd a" "A' @ [(i, ?x)]"]
        by (simp add: adv list_begin_def sweep_def)
    qed
  next
    case (Cons b B')
    then show ?thesis using parts_at [of "advance_hand i el" "A @ [(i, ?x)]" "fst b" "snd b" B'] dist
      by (auto simp: adv list_begin_def sweep_def)
  qed
  moreover have "map_of (el_list el) i = Some x" using l by (simp add: map_add_Some_iff map_of_eq_None_iff)
  ultimately show ?thesis using wf l xs adv by simp
qed

subsection \<open>The victim of a sweep\<close>

definition dec_counter :: "nat \<Rightarrow> Node \<Rightarrow> Node" where
  "dec_counter k n = n\<lparr>nd_curCounter := nd_curCounter n - of_nat k\<rparr>"

abbreviation cnt :: "Node \<Rightarrow> nat" where
  "cnt n \<equiv> unat (nd_curCounter n)"

text \<open>
  The reference: with \<open>m\<close> the smallest counter, the victim is the first node of the sweep whose counter is \<open>m\<close>.
  The hand has passed every node \<open>m\<close> times, and the nodes before the victim once more.
\<close>

definition clock_victim :: "Node list \<Rightarrow> Node list" where
  "clock_victim ns =
     (let m = Min (cnt ` set ns)
      in map (dec_counter m) (dropWhile (\<lambda>n. cnt n \<noteq> m) ns) @ map (dec_counter (m + 1)) (takeWhile (\<lambda>n. cnt n \<noteq> m) ns))"

lemma dec_counter_add [simp]: "dec_counter k (dec_counter j n) = dec_counter (j + k) n" "dec_counter 0 n = n"
  by (simp_all add: dec_counter_def algebra_simps)

lemma cnt_dec1: "nd_curCounter x \<noteq> 0 \<Longrightarrow> cnt (dec_counter 1 x) = cnt x - 1 \<and> 0 < cnt x"
  using counter_dec by (simp add: dec_counter_def)

lemma clock_victim_found: "nd_curCounter x = 0 \<Longrightarrow> clock_victim (x # xs) = x # xs"
proof -
  assume "nd_curCounter x = 0"
  then have "Min (cnt ` set (x # xs)) = 0" by (intro Min_eqI) auto
  with \<open>nd_curCounter x = 0\<close> show ?thesis by (simp add: clock_victim_def Let_def map_idI)
qed

lemma clock_victim_min:
  assumes "n \<in> set ns" "cnt n = m" "\<And>n. n \<in> set ns \<Longrightarrow> m \<le> cnt n"
  shows "clock_victim ns = map (dec_counter m) (dropWhile (\<lambda>n. cnt n \<noteq> m) ns) @ map (dec_counter (m + 1)) (takeWhile (\<lambda>n. cnt n \<noteq> m) ns)"
proof -
  have "Min (cnt ` set ns) = m" using assms by (intro Min_eqI) auto
  then show ?thesis by (simp add: clock_victim_def)
qed

lemma clock_victim_step:
  assumes pos: "nd_curCounter x \<noteq> 0"
  shows "clock_victim (xs @ [dec_counter 1 x]) = clock_victim (x # xs)"
proof -
  let ?ys = "xs @ [dec_counter 1 x]"
  note dec = cnt_dec1 [OF pos]
  obtain m w where m: "w \<in> set (x # xs)" "cnt w = m" "\<And>n. n \<in> set (x # xs) \<Longrightarrow> m \<le> cnt n"
    using ex_min_if_finite [of "cnt ` set (x # xs)"] by (force simp: not_less)
  show ?thesis
  proof (cases "cnt x = m")
    case True
    have low: "m - 1 < cnt n" if "n \<in> set xs" for n using m(3) [of n] that dec True by auto
    then have split': "takeWhile (\<lambda>n. cnt n \<noteq> m - 1) ?ys = xs" "dropWhile (\<lambda>n. cnt n \<noteq> m - 1) ?ys = [dec_counter 1 x]"
      using dec True by (subst takeWhile_append2 dropWhile_append2; fastforce)+
    have "clock_victim ?ys = map (dec_counter (m - 1)) (dropWhile (\<lambda>n. cnt n \<noteq> m - 1) ?ys)
        @ map (dec_counter (m - 1 + 1)) (takeWhile (\<lambda>n. cnt n \<noteq> m - 1) ?ys)"
      using low dec True by (intro clock_victim_min [of "dec_counter 1 x"]) (auto intro: less_imp_le)
    with split' clock_victim_min [of x "x # xs" m] m(3) True dec show ?thesis by simp
  next
    case False
    with m have w: "w \<in> set xs" by auto
    have "m \<le> cnt (dec_counter 1 x)" using m(3) [of x] False dec by simp
    then have "clock_victim ?ys = map (dec_counter m) (dropWhile (\<lambda>n. cnt n \<noteq> m) ?ys) @ map (dec_counter (m + 1)) (takeWhile (\<lambda>n. cnt n \<noteq> m) ?ys)"
      using w m by (intro clock_victim_min [of w]) auto
    moreover have "takeWhile (\<lambda>n. cnt n \<noteq> m) ?ys = takeWhile (\<lambda>n. cnt n \<noteq> m) xs"
      "dropWhile (\<lambda>n. cnt n \<noteq> m) ?ys = dropWhile (\<lambda>n. cnt n \<noteq> m) xs @ [dec_counter 1 x]"
      using w m(2) by (auto intro!: takeWhile_append1 dropWhile_append1)
    ultimately show ?thesis using clock_victim_min [OF m] False by simp
  qed
qed

lemma sweep_nonempty: "el_wf el \<Longrightarrow> el_list el \<noteq> [] \<Longrightarrow> \<exists>i x xs. el_oldest el = Some i \<and> sweep el = x # xs \<and> map_of (el_list el) i = Some x"
  by (erule (1) hand_split) (auto simp: parts_at sweep_def map_add_Some_iff map_of_eq_None_iff)

lemma find_loop_victim:
  assumes "el_wf el" "el_list el \<noteq> []"
  shows "\<exists>el'. find_loop el = Some (nd_objectKey (hd (sweep el')), el') \<and> el_wf el' \<and> sweep el' = clock_victim (sweep el)
    \<and> map fst (el_list el') = map fst (el_list el) \<and> el_indexTable el' = el_indexTable el"
  using assms
proof (induction el rule: find_loop.induct)
  case (1 el)
  obtain i x xs where i: "el_oldest el = Some i" and sw: "sweep el = x # xs" and x: "map_of (el_list el) i = Some x"
    using sweep_nonempty [OF "1.prems"] by blast
  show ?case
  proof (cases "nd_curCounter x = 0")
    case True
    with i x sw "1.prems" show ?thesis by (subst find_loop.simps) (simp add: clock_victim_found)
  next
    case False
    note adv = advance_sweep [OF "1.prems"(1) sw i False]
    have "x\<lparr>nd_curCounter := nd_curCounter x - 1\<rparr> = dec_counter 1 x" by (simp add: dec_counter_def)
    with adv clock_victim_step [OF False, of xs] sw have "clock_victim (sweep (advance_hand i el)) = clock_victim (sweep el)" by simp
    with "1.IH" [OF i x False] adv i x False show ?thesis by (subst find_loop.simps) auto
  qed
qed

lemma clock_victim_zero:
  assumes "ns \<noteq> []"
  shows "nd_curCounter (hd (clock_victim ns)) = 0"
proof -
  obtain n where n: "n \<in> set ns" "cnt n = Min (cnt ` set ns)" using Min_in [of "cnt ` set ns"] assms by fastforce
  then have "dropWhile (\<lambda>x. cnt x \<noteq> Min (cnt ` set ns)) ns \<noteq> []" by (auto simp: dropWhile_eq_Nil_conv)
  then obtain v vs where v: "dropWhile (\<lambda>x. cnt x \<noteq> Min (cnt ` set ns)) ns = v # vs" by (meson neq_Nil_conv)
  with hd_dropWhile [of "\<lambda>x. cnt x \<noteq> Min (cnt ` set ns)" ns] have "Min (cnt ` set ns) = cnt v" by simp
  with v show ?thesis by (simp add: clock_victim_def Let_def dec_counter_def)
qed

subsection \<open>The effect of the operations on the sweep\<close>

lemma modify_by_key:
  assumes "distinct (map fst l)" "distinct (map (nd_objectKey \<circ> snd) l)" "(i, n) \<in> set l" "nd_objectKey n = k"
  shows "list_modify i f l = map (\<lambda>p. (fst p, if nd_objectKey (snd p) = k then f (snd p) else snd p)) l"
  using assms
proof (induction l)
  case (Cons p l)
  have unique: "map (\<lambda>p. (fst p, if nd_objectKey (snd p) = k then f (snd p) else snd p)) l = l"
    if "nd_objectKey (snd p) = k"
    using Cons.prems(2) that by (intro map_idI) (force simp: image_iff)
  show ?case
  proof (cases "fst p = i")
    case True
    then have "(i, n) \<notin> set l" using Cons.prems(1) by (metis distinct.simps(2) fst_conv image_eqI list.simps(9) set_map)
    with Cons.prems(3) have "p = (i, n)" by simp
    with unique Cons.prems show ?thesis by simp
  next
    case False
    with Cons.prems have "(i, n) \<in> set l" by auto
    moreover have "nd_objectKey (snd p) \<noteq> k" using Cons.prems(2,4) \<open>(i, n) \<in> set l\<close> by force
    ultimately show ?thesis using Cons False by simp
  qed
qed simp

lemma parts_modify:
  assumes "el_list el' = map (\<lambda>p. (fst p, g (snd p))) (el_list el)" "el_oldest el' = el_oldest el"
  shows "unswept el' = map g (unswept el)" "swept el' = map g (swept el)"
  using assms by (auto simp: unswept_def swept_def dropWhile_map takeWhile_map comp_def split: option.splits)

lemma modify_sweep:
  assumes wf: "el_wf el" and i: "map_of (el_indexTable el) k = Some i" and f: "\<And>n. nd_objectKey (f n) = nd_objectKey n"
    "\<And>n. nd_curCounter n \<le> nd_maxCounter n \<Longrightarrow> nd_curCounter (f n) \<le> nd_maxCounter (f n)"
  defines "g \<equiv> \<lambda>n. if nd_objectKey n = k then f n else n"
  shows "el_wf (el\<lparr>el_list := list_modify i f (el_list el)\<rparr>)"
    "unswept (el\<lparr>el_list := list_modify i f (el_list el)\<rparr>) = map g (unswept el)"
    "swept (el\<lparr>el_list := list_modify i f (el_list el)\<rparr>) = map g (swept el)"
proof -
  from i el_wfD(5) [OF wf] obtain n where n: "(i, n) \<in> set (el_list el)" "nd_objectKey n = k" by blast
  have l: "list_modify i f (el_list el) = map (\<lambda>p. (fst p, g (snd p))) (el_list el)"
    unfolding g_def by (rule modify_by_key [OF el_wfD(1,2) [OF wf] n])
  show "unswept (el\<lparr>el_list := list_modify i f (el_list el)\<rparr>) = map g (unswept el)"
    "swept (el\<lparr>el_list := list_modify i f (el_list el)\<rparr>) = map g (swept el)"
    using l by (intro parts_modify; simp)+
  have "el_wf (el\<lparr>el_list := list_modify i f (el_list el), el_oldest := el_oldest el\<rparr>)"
    using el_wfD(4,6) [OF wf] f by (intro wf_same_keys [OF wf]) (auto simp: l g_def image_image split: option.splits)
  then show "el_wf (el\<lparr>el_list := list_modify i f (el_list el)\<rparr>)" by simp
qed

lemma fresh_key:
  assumes "el_wf el" "map_of (el_indexTable el) k = None"
  shows "\<forall>p \<in> set (el_list el). nd_objectKey (snd p) \<noteq> k"
  using el_wfD(5) [OF assms(1), of k] assms(2) by force

text \<open>A new node under a fresh identity, anywhere in the list.\<close>

lemma wf_insert:
  fixes n :: Node
  assumes "el_wf el" "map_of (el_indexTable el) (nd_objectKey n) = None" "nd_curCounter n \<le> nd_maxCounter n"
    "mset l = add_mset (el_nextIter el, n) (mset (el_list el))" "case j of None \<Rightarrow> False | Some i \<Rightarrow> i \<in> fst ` set l"
  shows "el_wf (el\<lparr>el_list := l, el_oldest := j, el_indexTable := omap_set (nd_objectKey n) (el_nextIter el) (el_indexTable el),
      el_nextIter := el_nextIter el + 1\<rparr>)"
proof -
  note wf = el_wfD [OF assms(1)] and fresh = fresh_key [OF assms(1,2)]
  have set_l: "set l = insert (el_nextIter el, n) (set (el_list el))" using arg_cong [OF assms(4), of set_mset] by simp
  have "distinct (map fst l) \<longleftrightarrow> distinct (map fst ((el_nextIter el, n) # el_list el))"
    "distinct (map (nd_objectKey \<circ> snd) l) \<longleftrightarrow> distinct (map (nd_objectKey \<circ> snd) ((el_nextIter el, n) # el_list el))"
    using assms(4) by (intro mset_eq_imp_distinct_iff; simp)+
  then have "distinct (map fst l)" "distinct (map (nd_objectKey \<circ> snd) l)" using wf(1,2,4) fresh by force+
  moreover have "map_of (omap_set (nd_objectKey n) (el_nextIter el) (el_indexTable el)) k = Some i
      \<longleftrightarrow> (\<exists>m. (i, m) \<in> set l \<and> nd_objectKey m = k)" for k i
    using wf(3,5) fresh by (auto simp: set_l)
  moreover have "\<forall>p \<in> set l. fst p < el_nextIter el + 1 \<and> nd_curCounter (snd p) \<le> nd_maxCounter (snd p)"
    using wf(4) assms(3) by (auto simp: set_l less_Suc_eq)
  ultimately show ?thesis using wf(3) assms(5) unfolding el_wf_def by (simp split: option.splits)
qed

lemma emplace_back_sweep:
  fixes n :: Node
  assumes "el_wf el" "map_of (el_indexTable el) (nd_objectKey n) = None" "nd_curCounter n \<le> nd_maxCounter n"
  shows "el_wf (emplace_back n el)" "unswept (emplace_back n el) = unswept el @ [n]" "swept (emplace_back n el) = swept el"
proof -
  let ?l = "el_list el @ [(el_nextIter el, n)]"
  show "el_wf (emplace_back n el)"
    unfolding emplace_back_def Let_def
    by (rule wf_insert [OF assms]) (use el_wfD(6) [OF assms(1)] in \<open>auto simp: list_begin_def split: option.splits list.splits\<close>)
  have "unswept (emplace_back n el) = unswept el @ [n] \<and> swept (emplace_back n el) = swept el"
  proof (cases "el_list el = []")
    case True
    with el_wfD(6) [OF assms(1)] have "el_oldest el = None" by (simp split: option.splits)
    with True parts_at [of "emplace_back n el" "[]" "el_nextIter el" n "[]"] show ?thesis
      by (simp add: emplace_back_def Let_def list_begin_def unswept_def swept_def)
  next
    case False
    then obtain A i x B where l: "el_list el = A @ (i, x) # B" "el_oldest el = Some i" "i \<notin> fst ` set A"
      using hand_split [OF assms(1)] by metis
    with parts_at [OF this] parts_at [of "emplace_back n el" A i x "B @ [(el_nextIter el, n)]"] show ?thesis
      by (simp add: emplace_back_def Let_def)
  qed
  then show "unswept (emplace_back n el) = unswept el @ [n]" "swept (emplace_back n el) = swept el" by simp_all
qed

lemma Restore_sweep:
  fixes n :: Node
  assumes "el_wf el" "map_of (el_indexTable el) (nd_objectKey n) = None" "nd_curCounter n \<le> nd_maxCounter n"
  shows "el_wf (Restore n el)" "sweep (Restore n el) = sweep el @ [n]"
proof -
  show "sweep (Restore n el) = sweep el @ [n]"
  proof (cases "el_list el = []")
    case True
    with el_wfD(6) [OF assms(1)] have "el_oldest el = None" by (simp split: option.splits)
    with True assms parts_at [of "Restore n el" "[]" "el_nextIter el" n "[]"] show ?thesis
      by (simp add: Restore_def Let_def list_emplace_def unswept_def swept_def sweep_def)
  next
    case False
    then obtain A i x B where l: "el_list el = A @ (i, x) # B" "el_oldest el = Some i" "i \<notin> fst ` set A"
      using hand_split [OF assms(1)] by metis
    moreover have "el_nextIter el \<noteq> i" using el_wfD(4) [OF assms(1), of "(i, x)"] l by simp
    ultimately show ?thesis
      using parts_at [OF l] parts_at [of "Restore n el" "A @ [(el_nextIter el, n)]" i x B] assms
      by (simp add: Restore_def Let_def list_emplace_def split_at sweep_def)
  qed
  let ?l = "list_emplace (el_list el) (el_oldest el) (el_nextIter el, n)"
  have r: "Restore n el = el\<lparr>el_list := ?l, el_oldest := (if length ?l = 1 then Some (el_nextIter el) else el_oldest el),
      el_indexTable := omap_set (nd_objectKey n) (el_nextIter el) (el_indexTable el), el_nextIter := el_nextIter el + 1\<rparr>"
    using assms(2) by (simp add: Restore_def Let_def)
  have ms: "mset ?l = add_mset (el_nextIter el, n) (mset (el_list el))"
    unfolding list_emplace_def
    by (simp split: option.splits) (metis mset_append takeWhile_dropWhile_id union_code)
  have "set ?l = insert (el_nextIter el, n) (set (el_list el))" using arg_cong [OF ms, of set_mset] by simp
  moreover have "length ?l = Suc (length (el_list el))" using arg_cong [OF ms, of size] by simp
  ultimately show "el_wf (Restore n el)"
    unfolding r using el_wfD(6) [OF assms(1)] by (intro wf_insert [OF assms ms]) (auto split: option.splits)
qed

lemma map_of_member: "el_wf el \<Longrightarrow> (i, n) \<in> set (el_list el) \<Longrightarrow> map_of (el_list el) i = Some n"
  by (rule map_of_is_SomeI [OF el_wfD(1)])

lemma same_node:
  assumes "el_wf el" "(i, n) \<in> set (el_list el)" "(j, m) \<in> set (el_list el)"
  shows "nd_objectKey n = nd_objectKey m \<longleftrightarrow> i = j"
proof
  assume same: "nd_objectKey n = nd_objectKey m"
  have "inj_on (nd_objectKey \<circ> snd) (set (el_list el))" using el_wfD(2) [OF assms(1)] by (simp add: distinct_map)
  from inj_onD [OF this, of "(i, n)" "(j, m)"] same assms show "i = j" by simp
next
  assume "i = j"
  with map_of_member [OF assms(1,2)] map_of_member [OF assms(1,3)] show "nd_objectKey n = nd_objectKey m" by simp
qed

lemma wf_erase:
  assumes "el_wf el" "(i, n) \<in> set (el_list el)" "nd_objectKey n = k" "case j of None \<Rightarrow> list_erase (el_list el) i = [] | Some o' \<Rightarrow> o' \<in> fst ` set (list_erase (el_list el) i)"
  shows "el_wf (el\<lparr>el_list := list_erase (el_list el) i, el_oldest := j, el_indexTable := omap_erase k (el_indexTable el)\<rparr>)"
proof -
  note wf = el_wfD [OF assms(1)]
  have "(\<exists>m. (o', m) \<in> set (list_erase (el_list el) i) \<and> nd_objectKey m = q)
      \<longleftrightarrow> q \<noteq> k \<and> (\<exists>m. (o', m) \<in> set (el_list el) \<and> nd_objectKey m = q)" for q o'
    unfolding list_erase_def using assms(3) by simp (metis same_node [OF assms(1,2)])
  then have "map_of (omap_erase k (el_indexTable el)) q = Some o' \<longleftrightarrow> (\<exists>m. (o', m) \<in> set (list_erase (el_list el) i) \<and> nd_objectKey m = q)" for q o'
    using wf(5) [of q o'] by simp
  with wf assms(4) show ?thesis
    unfolding el_wf_def by (auto simp: list_erase_def distinct_map_filter split: option.splits)
qed

lemma erase_filter:
  assumes "el_wf el" "(i, n) \<in> set (el_list el)"
  shows "list_erase (el_list el) i = filter (\<lambda>p. nd_objectKey (snd p) \<noteq> nd_objectKey n) (el_list el)"
  unfolding list_erase_def using same_node [OF assms] by (intro filter_cong) (auto, metis+)

lemma EraseInternal_sweep:
  assumes wf: "el_wf el" and i: "(i, n) \<in> set (el_list el)" "nd_objectKey n = k"
  shows "\<exists>el'. EraseInternal k el = (Inr (SnapshotNode n), el') \<and> el_wf el' \<and> sweep el' = filter (\<lambda>m. nd_objectKey m \<noteq> k) (sweep el)"
proof -
  have ne: "el_list el \<noteq> []" using i by auto
  obtain A o' x B where l: "el_list el = A @ (o', x) # B" "el_oldest el = Some o'" "o' \<notin> fst ` set A" "o' \<notin> fst ` set B"
    using hand_split [OF wf ne] by metis
  have idx: "map_of (el_indexTable el) k = Some i" using el_wfD(5) [OF wf] i by blast
  have o: "map_of (el_list el) o' = Some x" and key: "nd_objectKey x = k \<longleftrightarrow> i = o'"
    using map_of_member [OF wf, of o' x] same_node [OF wf i(1), of o' x] l i by auto
  have nx: "list_next (el_list el) o' = list_begin B" using l by (simp add: next_at)
  let ?j = "if i = o' then (case list_begin B of None \<Rightarrow> list_begin (list_erase (el_list el) i) | Some j \<Rightarrow> Some j) else Some o'"
  let ?el = "el\<lparr>el_list := list_erase (el_list el) i, el_oldest := ?j, el_indexTable := omap_erase k (el_indexTable el)\<rparr>"
  have run: "EraseInternal k el = (Inr (SnapshotNode n), ?el)"
    using idx o key l(2) nx map_of_member [OF wf i(1)] by (simp add: EraseInternal_def Let_def)
  let ?f = "filter (\<lambda>p. nd_objectKey (snd p) \<noteq> k)"
  have er: "list_erase (el_list el) i = ?f (el_list el)" using erase_filter [OF wf i(1)] i(2) by simp
  have flt: "map snd (?f ps) = filter (\<lambda>m. nd_objectKey m \<noteq> k) (map snd ps)" for ps :: "(iter \<times> Node) list"
    by (induction ps) auto
  have old: "sweep el = x # map snd B @ map snd A" using parts_at [OF l(1-3)] by (simp add: sweep_def)
  show ?thesis
  proof (cases "i = o'")
    case False
    have "el_wf ?el" using False l by (intro wf_erase [OF wf i]) (auto simp: list_erase_def)
    moreover have "?f (el_list el) = ?f A @ (o', x) # ?f B" using False key l by simp
    ultimately show ?thesis using parts_at [of ?el "?f A" o' x "?f B"] False run er old l key
      by (force simp: sweep_def flt)
  next
    case [simp]: True
    have "filter (\<lambda>p. fst p \<noteq> o') ps = ps" if "o' \<notin> fst ` set ps" for ps :: "(iter \<times> Node) list"
      using that by (force simp: filter_id_conv)
    then have e: "list_erase (el_list el) o' = A @ B" using l by (simp add: list_erase_def)
    have dist: "distinct (map fst (A @ B))" using el_wfD(1) [OF wf] l by simp
    have "set (A @ B) = set (?f (el_list el))" using er e by simp
    then have others: "\<forall>p \<in> set A \<union> set B. nd_objectKey (snd p) \<noteq> k" by auto
    have keep: "filter (\<lambda>m. nd_objectKey m \<noteq> k) (map snd (B @ A)) = map snd (B @ A)"
      using others by (auto simp: filter_id_conv)
    have "el_wf ?el" by (intro wf_erase [OF wf i]) (auto simp: e list_begin_def split: list.splits)
    moreover have "sweep ?el = map snd (B @ A)"
    proof (cases B)
      case Nil
      then show ?thesis using parts_at [of ?el "[]" "fst (hd A)" "snd (hd A)" "tl A"]
        by (cases A) (auto simp: e list_begin_def sweep_def unswept_def swept_def)
    next
      case (Cons b B')
      then show ?thesis using parts_at [of ?el A "fst b" "snd b" B'] dist by (auto simp: e list_begin_def sweep_def)
    qed
    ultimately show ?thesis using run keep old key by auto
  qed
qed

subsection \<open>Scanning\<close>

lemma following_at:
  assumes wf: "el_wf el" and l: "el_list el = A @ (o', x) # B" "el_oldest el = Some o'"
    and ring: "((o', x) # B) @ A = P @ (i, y) # S"
  shows "(case list_next (el_list el) i of None \<Rightarrow> list_begin (el_list el) | Some j \<Rightarrow> Some j)
    = (if S = [] then el_oldest el else list_begin S)"
proof -
  have fresh: "i \<notin> fst ` set X" if "el_list el = X @ (i, y) # Y" for X Y
    using el_wfD(1) [OF wf] that by simp
  from ring consider U where "(o', x) # B = P @ (i, y) # U" "S = U @ A" | V where "A = V @ (i, y) # S"
    by (auto simp: append_eq_append_conv2 append_eq_Cons_conv Cons_eq_append_conv)
  then show ?thesis
  proof cases
    case 1
    have e: "el_list el = (A @ P) @ (i, y) # U" using l(1) 1(1) by simp
    then have "list_next (el_list el) i = list_begin U" using next_at [OF fresh [OF e], of y U] by simp
    moreover have "list_begin (el_list el) = (if A = [] then Some o' else list_begin A)"
      unfolding l(1) list_begin_def by (cases A) simp_all
    ultimately show ?thesis using 1(2) l(2) by (cases U; cases A) (simp_all add: list_begin_def)
  next
    case 2
    then have e: "el_list el = V @ (i, y) # (S @ (o', x) # B)" using l(1) by simp
    then have "list_next (el_list el) i = list_begin (S @ (o', x) # B)" using next_at [OF fresh [OF e]] by simp
    then show ?thesis using l(2) by (cases S) (simp_all add: list_begin_def)
  qed
qed

lemma scan_from_oldest:
  assumes wf: "el_wf el" and l: "el_list el = A @ (o', x) # B" "el_oldest el = Some o'"
  shows "((o', x) # B) @ A = P @ (i, y) # S \<Longrightarrow> scan_nodes el n i = map (SnapshotNode \<circ> snd) (take n ((i, y) # S))"
proof (induction n arbitrary: P i y S)
  case (Suc n)
  have "(i, y) \<in> set (((o', x) # B) @ A)" unfolding Suc.prems by simp
  then have y: "map_of (el_list el) i = Some y" using l(1) by (intro map_of_member [OF wf]) auto
  note step = following_at [OF wf l Suc.prems]
  show ?case
  proof (cases S)
    case Nil
    with y step show ?thesis by (simp add: Let_def)
  next
    case (Cons p S')
    have "distinct (map fst (((o', x) # B) @ A))" using el_wfD(1) [OF wf] l(1) by auto
    then have "distinct (map fst (P @ (i, y) # p # S'))" unfolding Suc.prems Cons .
    moreover have "o' = fst (hd (P @ (i, y) # p # S'))" using Suc.prems Cons by (metis append_Cons fst_conv list.sel(1))
    ultimately have "fst p \<noteq> o'" by (cases P) auto
    moreover have "((o', x) # B) @ A = (P @ [(i, y)]) @ (fst p, snd p) # S'" using Suc.prems Cons by simp
    note Suc.IH [OF this]
    ultimately show ?thesis using y step Cons l(2) by (simp add: Let_def list_begin_def)
  qed
qed simp

lemma scan_sweep:
  assumes "el_wf el"
  shows "GetObjectsInfoFromOldest n el = map SnapshotNode (take n (sweep el))"
proof (cases "el_list el = []")
  case True
  with el_wfD(6) [OF assms] show ?thesis by (simp add: GetObjectsInfoFromOldest_def sweep_def unswept_def swept_def split: option.splits)
next
  case False
  then obtain A i x B where l: "el_list el = A @ (i, x) # B" "el_oldest el = Some i" "i \<notin> fst ` set A"
    using hand_split [OF assms] by metis
  from scan_from_oldest [OF assms l(1,2), of "[]" i x "B @ A" n] parts_at [OF l] l(2) False show ?thesis
    using take_map [of n snd "(i, x) # B @ A"] by (auto simp: GetObjectsInfoFromOldest_def sweep_def simp flip: map_map)
qed

subsection \<open>Runs\<close>

datatype evict_op = OpAdd string counter8 | OpErase string | OpRestore Node | OpInsert Node | OpFind

fun evict_op_ok :: "evict_op \<Rightarrow> bool" where
  "evict_op_ok (OpRestore n) \<longleftrightarrow> nd_curCounter n \<le> nd_maxCounter n"
| "evict_op_ok (OpInsert n) \<longleftrightarrow> nd_curCounter n \<le> nd_maxCounter n"
| "evict_op_ok _ \<longleftrightarrow> True"

fun evict_step :: "EvictionList \<Rightarrow> evict_op \<Rightarrow> EvictionList" where
  "evict_step el (OpAdd k c) = Add k c el"
| "evict_step el (OpErase k) = snd (Erase k el)"
| "evict_step el (OpRestore n) = Restore n el"
| "evict_step el (OpInsert n) = snd (InsertClockSnapshot n el)"
| "evict_step el OpFind = (case FindEvictCandidate el of None \<Rightarrow> el | Some (_, el') \<Rightarrow> el')"

lemma counter_updates [simp]:
  "nd_objectKey (bump_counter n) = nd_objectKey n" "nd_objectKey (merge_counters m n) = nd_objectKey n"
  "nd_curCounter n \<le> nd_maxCounter n \<Longrightarrow> nd_curCounter (bump_counter n) \<le> nd_maxCounter (bump_counter n)"
  "nd_curCounter n \<le> nd_maxCounter n \<Longrightarrow> nd_curCounter (merge_counters m n) \<le> nd_maxCounter (merge_counters m n)"
  by (auto simp: bump_counter_def merge_counters_def Let_def inc_le)

lemma Add_existing:
  assumes "el_wf el" "map_of (el_indexTable el) k = Some i"
  shows "el_wf (Add k c el)" "unswept (Add k c el) = map (\<lambda>n. if nd_objectKey n = k then bump_counter n else n) (unswept el)"
    "swept (Add k c el) = map (\<lambda>n. if nd_objectKey n = k then bump_counter n else n) (swept el)"
  using modify_sweep [OF assms, of bump_counter] assms(2) by (simp_all add: Add_def)

lemma Insert_existing:
  assumes "el_wf el" "map_of (el_indexTable el) (nd_objectKey m) = Some i"
  shows "el_wf (snd (InsertClockSnapshot m el))"
    "sweep (snd (InsertClockSnapshot m el)) = map (\<lambda>n. if nd_objectKey n = nd_objectKey m then merge_counters m n else n) (sweep el)"
  using modify_sweep [OF assms, of "merge_counters m"] assms(2) by (simp_all add: InsertClockSnapshot_def sweep_def)

lemma evict_step_wf:
  assumes "el_wf el" "evict_op_ok p"
  shows "el_wf (evict_step el p)"
proof (cases p)
  case (OpAdd k c)
  then show ?thesis using Add_existing(1) [OF assms(1)] emplace_back_sweep(1) [OF assms(1)]
    by (cases "map_of (el_indexTable el) k") (auto simp: Add_def)
next
  case (OpErase k)
  show ?thesis
  proof (cases "map_of (el_indexTable el) k")
    case (Some i)
    then obtain n where "(i, n) \<in> set (el_list el)" "nd_objectKey n = k" using el_wfD(5) [OF assms(1)] by blast
    from EraseInternal_sweep [OF assms(1) this] OpErase show ?thesis by (auto simp: Erase_def)
  qed (use OpErase assms in \<open>simp add: Erase_def EraseInternal_def\<close>)
next
  case (OpRestore n)
  then show ?thesis using Restore_sweep(1) [OF assms(1), of n] assms
    by (cases "map_of (el_indexTable el) (nd_objectKey n)") (auto simp: Restore_def)
next
  case (OpInsert n)
  then show ?thesis using Insert_existing(1) [OF assms(1), of n] emplace_back_sweep(1) [OF assms(1), of n] assms
    by (cases "map_of (el_indexTable el) (nd_objectKey n)") (auto simp: InsertClockSnapshot_def)
next
  case OpFind
  then show ?thesis using find_loop_victim [OF assms(1)] assms(1) by (auto simp: FindEvictCandidate_def)
qed

lemma evict_run_wf: "list_all evict_op_ok ops \<Longrightarrow> el_wf (foldl evict_step new_EvictionList ops)"
proof (induction ops rule: rev_induct)
  case Nil
  show ?case by (simp add: el_wf_def new_EvictionList_def)
next
  case (snoc p ops)
  then show ?case by (simp add: evict_step_wf)
qed

lemma found_in_sweep:
  assumes "el_wf el" "(i, n) \<in> set (el_list el)"
  shows "n \<in> set (sweep el)"
proof -
  have "el_list el \<noteq> []" using assms(2) by auto
  then obtain A j x B where "el_list el = A @ (j, x) # B" "el_oldest el = Some j" "j \<notin> fst ` set A"
    using hand_split [OF assms(1)] by metis
  with parts_at [OF this] assms(2) show ?thesis by (force simp: sweep_def)
qed

lemma wf_membership:
  assumes "el_wf el"
  shows "ValidateMembership el = Inr () \<and> (Exist k el \<longleftrightarrow> k \<in> nd_objectKey ` set (sweep el)) \<and> Size el = length (sweep el)"
proof -
  note wf = el_wfD [OF assms]
  have "fst ` set (el_indexTable el) = (nd_objectKey \<circ> snd) ` set (el_list el)"
  proof -
    have "k \<in> fst ` set (el_indexTable el) \<longleftrightarrow> (\<exists>i n. (i, n) \<in> set (el_list el) \<and> nd_objectKey n = k)" for k
      using wf(5) by (metis map_of_eq_None_iff not_None_eq)
    then show ?thesis by (intro set_eqI) (simp add: image_iff Bex_def, metis prod.collapse snd_conv)
  qed
  moreover have "distinct (map fst (el_indexTable el))" by (rule omap_ok_distinct [OF wf(3)])
  ultimately have len: "length (el_indexTable el) = length (el_list el)"
    using wf(2) by (metis distinct_card length_map set_map)
  have sw: "set (sweep el) = snd ` set (el_list el) \<and> length (sweep el) = length (el_list el)"
  proof (cases "el_list el = []")
    case False
    then obtain A i x B where "el_list el = A @ (i, x) # B" "el_oldest el = Some i" "i \<notin> fst ` set A"
      using hand_split [OF assms] by metis
    then show ?thesis using parts_at by (auto simp: sweep_def)
  qed (auto simp: sweep_def unswept_def swept_def split: option.splits)
  have ex: "Exist k el \<longleftrightarrow> (\<exists>i n. (i, n) \<in> set (el_list el) \<and> nd_objectKey n = k)" for k
    unfolding Exist_def using wf(5) by (metis not_None_eq)
  have "map_of (el_indexTable el) (nd_objectKey (snd p)) \<noteq> None" if "p \<in> set (el_list el)" for p
    using ex [of "nd_objectKey (snd p)"] that unfolding Exist_def by (metis prod.collapse)
  then have "ValidateMembership el = Inr ()" using len by (simp add: ValidateMembership_def list_all_iff)
  moreover have "Exist k el \<longleftrightarrow> k \<in> nd_objectKey ` set (sweep el)" 
    unfolding ex conjunct1 [OF sw] image_image by (auto simp: image_iff Bex_def)
  ultimately show ?thesis using sw by (simp add: Size_def)
qed

text \<open>
  C36. The clock hand picks the first least-used object and always finds one. After any sequence of Add, Erase,
  Restore, InsertOrMerge and FindEvictCandidate calls that leaves the list non-empty, FindEvictCandidate
  terminates with the key of a stored object: with m the smallest counter, the first object of the sweep whose
  counter is m. Every counter has then been decreased by m, and once more for the objects the hand passed before
  the victim, and the next sweep starts at the victim.
\<close>

theorem eviction_victim_exact:
  assumes "list_all evict_op_ok ops" and el: "el = foldl evict_step new_EvictionList ops" and "Size el \<noteq> 0"
  shows "\<exists>el'. FindEvictCandidate el = Some (Inr (nd_objectKey (hd (sweep el'))), el')
    \<and> sweep el' = clock_victim (sweep el) \<and> nd_curCounter (hd (sweep el')) = 0
    \<and> Exist (nd_objectKey (hd (sweep el'))) el \<and> ValidateMembership el' = Inr ()"
proof -
  have wf: "el_wf el" unfolding el by (rule evict_run_wf [OF assms(1)])
  have ne: "el_list el \<noteq> []" using assms(3) by (simp add: Size_def)
  obtain el' where r: "find_loop el = Some (nd_objectKey (hd (sweep el')), el')" and wf': "el_wf el'"
    and sw: "sweep el' = clock_victim (sweep el)" and ix: "el_indexTable el' = el_indexTable el"
    and ids: "map fst (el_list el') = map fst (el_list el)" using find_loop_victim [OF wf ne] by blast
  have "el_list el' \<noteq> []" using ids ne by (metis map_is_Nil_conv)
  then obtain i x xs where "el_oldest el' = Some i" and x: "sweep el' = x # xs" using sweep_nonempty [OF wf'] by blast
  have "Exist (nd_objectKey (hd (sweep el'))) el'" using wf_membership [OF wf'] x by simp
  then have "Exist (nd_objectKey (hd (sweep el'))) el" by (simp add: Exist_def ix)
  moreover have "nd_curCounter (hd (sweep el')) = 0"
    unfolding sw using sweep_nonempty [OF wf ne] by (intro clock_victim_zero) auto
  ultimately show ?thesis using r ne sw wf_membership [OF wf'] by (auto simp: FindEvictCandidate_def)
qed

definition busy_list :: "evict_op list" where
  "busy_list = [OpAdd ''a'' 2, OpAdd ''b'' 1, OpAdd ''c'' 1]"

theorem eviction_victim_exact_witness:
  "\<exists>el'. FindEvictCandidate (foldl evict_step new_EvictionList busy_list) = Some (Inr ''b'', el')
     \<and> map (\<lambda>n. (nd_objectKey n, nd_curCounter n)) (sweep el') = [(''b'', 0), (''c'', 0), (''a'', 0)]"
proof -
  let ?el = "foldl evict_step new_EvictionList busy_list"
  have ok: "list_all evict_op_ok busy_list" by (simp add: busy_list_def)
  have "Size ?el \<noteq> 0" by code_simp
  with eviction_victim_exact [OF ok refl] obtain el' where
    r: "FindEvictCandidate ?el = Some (Inr (nd_objectKey (hd (sweep el'))), el')" and sw: "sweep el' = clock_victim (sweep ?el)" by blast
  have "map (\<lambda>n. (nd_objectKey n, nd_curCounter n)) (clock_victim (sweep ?el)) = [(''b'', 0), (''c'', 0), (''a'', 0)]"
    by code_simp
  then show ?thesis using r sw by (cases "sweep el'") auto
qed



end
