(* ===== verification/DataLimiter.thy ===== *)
theory DataLimiter
  imports DS_Prelude
begin

section \<open>Bandwidth limits of a worker\<close>

text \<open>
  Models src/datasystem/worker/object_cache/limiter/data_limiter.{h,cpp}: the token bucket that throttles the
  senders of a worker and the receiver side that advertises a rate to each sending worker. Sizes and rates are
  64-bit words, as in the code, and clock readings are arguments. WaitAllow sleeps on a condition variable and so
  releases its mutex; what a call does between two sleeps is one step, and the steps of several calls interleave.
  Fault injection and log lines are left out, and so is the timer queue, whose callback is the operation
  ClearExpiredRate.
\<close>

subsection \<open>The token bucket\<close>

definition S2MS :: u64 where "S2MS = 1000"
definition CANCEL_POLL_MS :: u64 where "CANCEL_POLL_MS = 10"
definition RATE_SMOOTHING_DIVISOR :: u64 where "RATE_SMOOTHING_DIVISOR = 2"

definition UINT64_MAX :: u64 where "UINT64_MAX = 0xFFFFFFFFFFFFFFFF"

record DataLimiter =
  dl_rate :: u64
  dl_tokens :: u64
  dl_timestamp :: u64
  dl_maxTokenSize :: u64

definition new_DataLimiter :: "u64 \<Rightarrow> u64 \<Rightarrow> u64 \<Rightarrow> DataLimiter" where
  "new_DataLimiter rate maxTokenSize now =
     \<lparr>dl_rate = rate, dl_tokens = rate, dl_timestamp = now, dl_maxTokenSize = maxTokenSize\<rparr>"

definition refilled_tokens :: "u64 \<Rightarrow> DataLimiter \<Rightarrow> u64" where
  "refilled_tokens elapsed dl =
     (let product = (if dl_rate dl \<le> UINT64_MAX div (if elapsed = 0 then 1 else elapsed) then dl_rate dl * elapsed else UINT64_MAX);
          newTokens = product div S2MS + 1
      in if newTokens + dl_tokens dl > dl_tokens dl then newTokens + dl_tokens dl else UINT64_MAX)"

definition Refill :: "u64 \<Rightarrow> DataLimiter \<Rightarrow> DataLimiter" where
  "Refill now dl =
     (let tokens = refilled_tokens (now - dl_timestamp dl) dl
      in dl\<lparr>dl_tokens := (if tokens > dl_maxTokenSize dl then dl_maxTokenSize dl else tokens), dl_timestamp := now\<rparr>)"

definition UpdateRate :: "u64 \<Rightarrow> DataLimiter \<Rightarrow> DataLimiter" where
  "UpdateRate rate dl = dl\<lparr>dl_rate := rate\<rparr>"

definition WaitMilliseconds :: "u64 \<Rightarrow> DataLimiter \<Rightarrow> u64" where
  "WaitMilliseconds requiredSize dl =
     (if requiredSize \<le> dl_tokens dl then 0
      else if dl_rate dl = 0 then UINT64_MAX
      else (requiredSize - dl_tokens dl) * S2MS div dl_rate dl + 1)"

definition EstimateWaitMilliseconds :: "u64 \<Rightarrow> u64 \<Rightarrow> DataLimiter \<Rightarrow> u64 \<times> DataLimiter" where
  "EstimateWaitMilliseconds now requiredSize dl = (let dl' = Refill now dl in (WaitMilliseconds requiredSize dl', dl'))"

definition IsRemoteBusyNode :: "DataLimiter \<Rightarrow> bool" where
  "IsRemoteBusyNode dl \<longleftrightarrow> dl_rate dl = 0"

text \<open>The local variables of a call of WaitAllow.\<close>

record waiter =
  wt_requiredSize :: u64
  wt_cancellable :: bool
  wt_maxWaitMs :: u64
  wt_originalMax :: u64
  wt_needRestore :: bool
  wt_waitedMs :: u64

datatype turn = Granted | Refused | Sleeping waiter

definition enter_wait :: "u64 \<Rightarrow> bool \<Rightarrow> u64 \<Rightarrow> DataLimiter \<Rightarrow> waiter \<times> DataLimiter" where
  "enter_wait requiredSize cancellable maxWaitMs dl =
     (let need = requiredSize > dl_maxTokenSize dl
      in (\<lparr>wt_requiredSize = requiredSize, wt_cancellable = cancellable, wt_maxWaitMs = maxWaitMs,
           wt_originalMax = dl_maxTokenSize dl, wt_needRestore = need, wt_waitedMs = 0\<rparr>,
          if need then dl\<lparr>dl_maxTokenSize := requiredSize\<rparr> else dl))"

definition restore_max :: "waiter \<Rightarrow> DataLimiter \<Rightarrow> DataLimiter" where
  "restore_max w dl = (if wt_needRestore w then dl\<lparr>dl_maxTokenSize := wt_originalMax w\<rparr> else dl)"

definition consume :: "waiter \<Rightarrow> DataLimiter \<Rightarrow> DataLimiter" where
  "consume w dl = restore_max w (dl\<lparr>dl_tokens := dl_tokens dl - wt_requiredSize w\<rparr>)"

text \<open>What a call does from the head of its loop to its return or its next sleep.\<close>

definition wait_turn :: "bool \<Rightarrow> u64 \<Rightarrow> waiter \<Rightarrow> DataLimiter \<Rightarrow> turn \<times> DataLimiter" where
  "wait_turn cancelled now w dl =
     (if \<not> dl_tokens dl < wt_requiredSize w then (Granted, consume w dl)
      else if wt_cancellable w \<and> cancelled then (Refused, restore_max w dl)
      else if wt_waitedMs w \<ge> wt_maxWaitMs w then (Refused, restore_max w dl)
      else
        let dl' = Refill now dl
        in if dl_tokens dl' < wt_requiredSize w then
             let waitMs = min (WaitMilliseconds (wt_requiredSize w) dl') (wt_maxWaitMs w - wt_waitedMs w);
                 waitMs' = (if wt_cancellable w then min waitMs CANCEL_POLL_MS else waitMs)
             in (Sleeping (w\<lparr>wt_waitedMs := wt_waitedMs w + waitMs'\<rparr>), dl')
           else (Granted, consume w dl'))"

subsection \<open>The advertised rate\<close>

definition WINDOW_NS :: nat where "WINDOW_NS = 10 ^ 9"

record TimestampedData =
  td_timestamp :: nat
  td_bytes :: u64

record MigrateDataRateLimiter =
  rl_window :: "TimestampedData list"
  rl_maxBandwidth :: u64
  rl_currentBandwidth :: u64

definition new_MigrateDataRateLimiter :: "u64 \<Rightarrow> MigrateDataRateLimiter" where
  "new_MigrateDataRateLimiter maxBandwidthBytes = \<lparr>rl_window = [], rl_maxBandwidth = maxBandwidthBytes, rl_currentBandwidth = 0\<rparr>"

fun prune_window :: "nat \<Rightarrow> TimestampedData list \<Rightarrow> u64 \<Rightarrow> TimestampedData list \<times> u64" where
  "prune_window now [] current = ([], current)"
| "prune_window now (d # window) current =
     (if td_timestamp d + WINDOW_NS < now then prune_window now window (current - td_bytes d) else (d # window, current))"

definition PruneExpiredLocked :: "nat \<Rightarrow> MigrateDataRateLimiter \<Rightarrow> MigrateDataRateLimiter" where
  "PruneExpiredLocked now rl =
     (case prune_window now (rl_window rl) (rl_currentBandwidth rl) of
        (window, current) \<Rightarrow> rl\<lparr>rl_window := window, rl_currentBandwidth := current\<rparr>)"

definition SlidingWindowUpdateRate :: "nat \<Rightarrow> u64 \<Rightarrow> MigrateDataRateLimiter \<Rightarrow> MigrateDataRateLimiter" where
  "SlidingWindowUpdateRate now bytesReceived rl =
     PruneExpiredLocked now (rl\<lparr>rl_window := rl_window rl @ [\<lparr>td_timestamp = now, td_bytes = bytesReceived\<rparr>],
       rl_currentBandwidth := rl_currentBandwidth rl + bytesReceived\<rparr>)"

definition GetAvailableBandwidth :: "nat \<Rightarrow> MigrateDataRateLimiter \<Rightarrow> u64 \<times> MigrateDataRateLimiter" where
  "GetAvailableBandwidth now rl =
     (let rl' = PruneExpiredLocked now rl
      in (if rl_currentBandwidth rl' \<ge> rl_maxBandwidth rl' then 0 else rl_maxBandwidth rl' - rl_currentBandwidth rl', rl'))"

record RateRecord =
  rr_rate :: u64
  rr_timestampMs :: nat

record MigrateDataRateController =
  rc_rateTable :: "(string, RateRecord) omap"
  rc_rateLimiter :: MigrateDataRateLimiter

definition RATE_RECORD_EXPIRE_MS :: nat where "RATE_RECORD_EXPIRE_MS = 60000"

definition CalculateSmoothedRate :: "u64 \<Rightarrow> u64 \<Rightarrow> u64" where
  "CalculateSmoothedRate lastRate availableBandwidth =
     (if availableBandwidth < lastRate then availableBandwidth
      else (lastRate + availableBandwidth) div RATE_SMOOTHING_DIVISOR)"

definition last_rate :: "string \<Rightarrow> MigrateDataRateController \<Rightarrow> u64" where
  "last_rate workerAddr rc =
     (case map_of (rc_rateTable rc) workerAddr of
        None \<Rightarrow> rl_maxBandwidth (rc_rateLimiter rc) div RATE_SMOOTHING_DIVISOR
      | Some r \<Rightarrow> rr_rate r)"

text \<open>\<open>now\<close> is the steady clock in nanoseconds; GetSteadyClockTimeStampMs reads it in milliseconds.\<close>

definition CalculateNewRate :: "nat \<Rightarrow> string \<Rightarrow> MigrateDataRateController \<Rightarrow> u64 \<times> MigrateDataRateController" where
  "CalculateNewRate now workerAddr rc =
     (case GetAvailableBandwidth now (rc_rateLimiter rc) of
        (available, rl) \<Rightarrow>
          let newRate = CalculateSmoothedRate (last_rate workerAddr rc) available
          in (newRate, rc\<lparr>rc_rateLimiter := rl,
                rc_rateTable := omap_set workerAddr \<lparr>rr_rate = newRate, rr_timestampMs = now div 10 ^ 6\<rparr> (rc_rateTable rc)\<rparr>))"

definition PeekAvailableRate :: "nat \<Rightarrow> string \<Rightarrow> MigrateDataRateController \<Rightarrow> u64 \<times> MigrateDataRateController" where
  "PeekAvailableRate now workerAddr rc =
     (case GetAvailableBandwidth now (rc_rateLimiter rc) of
        (available, rl) \<Rightarrow> (CalculateSmoothedRate (last_rate workerAddr rc) available, rc\<lparr>rc_rateLimiter := rl\<rparr>))"

definition ClearExpiredRate :: "nat \<Rightarrow> string \<Rightarrow> nat \<Rightarrow> nat \<Rightarrow> MigrateDataRateController \<Rightarrow> MigrateDataRateController" where
  "ClearExpiredRate now workerAddr expireMs lastUpdateTimeMs rc =
     (case map_of (rc_rateTable rc) workerAddr of
        None \<Rightarrow> rc
      | Some r \<Rightarrow>
          if rr_timestampMs r \<noteq> lastUpdateTimeMs then rc
          else if now div 10 ^ 6 - rr_timestampMs r \<ge> expireMs then rc\<lparr>rc_rateTable := omap_erase workerAddr (rc_rateTable rc)\<rparr>
          else rc)"

definition Controller_SlidingWindowUpdateRate :: "nat \<Rightarrow> u64 \<Rightarrow> MigrateDataRateController \<Rightarrow> MigrateDataRateController" where
  "Controller_SlidingWindowUpdateRate now bytesReceived rc =
     rc\<lparr>rc_rateLimiter := SlidingWindowUpdateRate now bytesReceived (rc_rateLimiter rc)\<rparr>"

subsection \<open>Senders sharing a token bucket\<close>

record senders =
  sd_limiter :: DataLimiter
  sd_waiters :: "nat \<Rightarrow> waiter option"
  sd_granted :: "(nat \<times> u64) list"

datatype sender_event =
    Call nat u64 bool u64 bool u64
  | Wake nat bool u64
  | Rate u64

definition settle :: "nat \<Rightarrow> waiter \<Rightarrow> turn \<times> DataLimiter \<Rightarrow> senders \<Rightarrow> senders" where
  "settle t w r s =
     (case r of
        (Granted, dl) \<Rightarrow> s\<lparr>sd_limiter := dl, sd_waiters := (sd_waiters s)(t := None), sd_granted := (t, wt_requiredSize w) # sd_granted s\<rparr>
      | (Refused, dl) \<Rightarrow> s\<lparr>sd_limiter := dl, sd_waiters := (sd_waiters s)(t := None)\<rparr>
      | (Sleeping w', dl) \<Rightarrow> s\<lparr>sd_limiter := dl, sd_waiters := (sd_waiters s)(t := Some w')\<rparr>)"

text \<open>A call runs to its return or first sleep under the mutex; a sleeper that wakes up runs to its return or next sleep.\<close>

fun sender_step :: "senders \<Rightarrow> sender_event \<Rightarrow> senders" where
  "sender_step s (Call t size' cancellable maxWaitMs cancelled now) =
     (if sd_waiters s t \<noteq> None then s
      else case enter_wait size' cancellable maxWaitMs (sd_limiter s) of (w, dl) \<Rightarrow> settle t w (wait_turn cancelled now w dl) s)"
| "sender_step s (Wake t cancelled now) =
     (case sd_waiters s t of None \<Rightarrow> s | Some w \<Rightarrow> settle t w (wait_turn cancelled now w (sd_limiter s)) s)"
| "sender_step s (Rate rate) = s\<lparr>sd_limiter := UpdateRate rate (sd_limiter s)\<rparr>"

definition new_senders :: "u64 \<Rightarrow> u64 \<Rightarrow> u64 \<Rightarrow> senders" where
  "new_senders rate maxTokenSize now =
     \<lparr>sd_limiter = new_DataLimiter rate maxTokenSize now, sd_waiters = (\<lambda>_. None), sd_granted = []\<rparr>"

definition granted_bytes :: "senders \<Rightarrow> nat" where
  "granted_bytes s = (\<Sum>g \<leftarrow> sd_granted s. unat (snd g))"

fun event_clock :: "sender_event \<Rightarrow> u64 option" where
  "event_clock (Call t size' cancellable maxWaitMs cancelled now) = Some now"
| "event_clock (Wake t cancelled now) = Some now"
| "event_clock (Rate rate) = None"

subsection \<open>The rate is respected\<close>

lemma UINT64_MAX_nat: "unat UINT64_MAX = 2 ^ 64 - 1"
  by (simp add: UINT64_MAX_def)

lemma u64_bound: "unat (x :: u64) < 2 ^ 64"
  using unsigned_less [of x, where ?'a = nat] by simp

lemma refilled_tokens_le: "unat (refilled_tokens e dl) \<le> unat (dl_tokens dl) + unat (dl_rate dl) * unat e div 1000 + 1"
proof -
  let ?r = "unat (dl_rate dl)" and ?e = "unat e"
  define product where "product = (if dl_rate dl \<le> UINT64_MAX div (if e = 0 then 1 else e) then dl_rate dl * e else UINT64_MAX)"
  have "unat product \<le> ?r * ?e"
  proof (cases "dl_rate dl \<le> UINT64_MAX div (if e = 0 then 1 else e)")
    case True
    then show ?thesis by (simp add: product_def unat_word_ariths(2))
  next
    case False
    then have e: "e \<noteq> 0" and "(2 ^ 64 - 1) div ?e < ?r"
      using u64_bound [of "dl_rate dl"] by (auto simp: word_le_nat_alt unat_div_distrib UINT64_MAX_nat not_le split: if_splits)
    have "(2 ^ 64 - 1 :: nat) < ?r * ?e"
      using \<open>(2 ^ 64 - 1) div ?e < ?r\<close> e by (simp add: div_less_iff_less_mult unat_gt_0)
    with False show ?thesis by (simp add: product_def UINT64_MAX_nat)
  qed
  then have "unat (product div S2MS + 1) \<le> ?r * ?e div 1000 + 1"
    by (simp add: S2MS_def unat_word_ariths(1) unat_div_distrib)
  moreover have "unat (refilled_tokens e dl) \<le> unat (product div S2MS + 1) + unat (dl_tokens dl)"
  proof (cases "product div S2MS + 1 + dl_tokens dl > dl_tokens dl")
    case True
    then show ?thesis by (simp add: refilled_tokens_def Let_def product_def unat_word_ariths(1))
  next
    case False
    have "unat (product div S2MS + 1) + unat (dl_tokens dl) \<ge> 2 ^ 64"
    proof (rule ccontr)
      assume "\<not> ?thesis"
      then have "unat (product div S2MS + 1 + dl_tokens dl) = unat (product div S2MS + 1) + unat (dl_tokens dl)"
        by (simp add: unat_word_ariths(1))
      moreover have "unat (product div S2MS) \<le> (2 ^ 64 - 1) div 1000"
        using u64_bound [of product] by (simp add: S2MS_def unat_div_distrib div_le_mono)
      then have "0 < unat (product div S2MS + 1)" by (simp add: unat_word_ariths(1))
      ultimately show False using False by (simp add: word_less_nat_alt)
    qed
    with False show ?thesis by (simp add: refilled_tokens_def Let_def product_def [symmetric] UINT64_MAX_nat)
  qed
  ultimately show ?thesis by simp
qed

lemma Refill_le:
  assumes "unat (dl_timestamp dl) \<le> unat now"
  shows "unat (dl_tokens (Refill now dl))
    \<le> unat (dl_tokens dl) + unat (dl_rate dl) * (unat now - unat (dl_timestamp dl)) div 1000 + 1"
proof -
  have "unat (now - dl_timestamp dl) = unat now - unat (dl_timestamp dl)"
    using assms by (simp add: unat_sub word_le_nat_alt)
  then show ?thesis using refilled_tokens_le [of "now - dl_timestamp dl" dl]
    by (auto simp: Refill_def Let_def word_less_nat_alt)
qed

text \<open>
  The budget after \<open>n\<close> steps at clock reading \<open>T\<close>: bytes already granted and tokens still in the bucket.
\<close>

definition within_budget :: "nat \<Rightarrow> nat \<Rightarrow> nat \<Rightarrow> nat \<Rightarrow> nat \<Rightarrow> DataLimiter \<Rightarrow> bool" where
  "within_budget first R t0 n g dl \<longleftrightarrow> unat (dl_rate dl) \<le> R \<and> t0 \<le> unat (dl_timestamp dl)
     \<and> g + unat (dl_tokens dl) \<le> first + R * (unat (dl_timestamp dl) - t0) div 1000 + n"

lemma Refill_fields [simp]:
  "dl_timestamp (Refill now dl) = now" "dl_rate (Refill now dl) = dl_rate dl" "dl_maxTokenSize (Refill now dl) = dl_maxTokenSize dl"
  by (simp_all add: Refill_def Let_def)

lemma div_add_le: "a div k + b div k \<le> (a + b) div (k :: nat)"
  by (metis div_add1_eq le_add1)

lemma within_budget_refill:
  assumes "within_budget first R t0 n g dl" "unat (dl_timestamp dl) \<le> unat now"
  shows "within_budget first R t0 (n + 1) g (Refill now dl)"
proof -
  let ?t = "unat (dl_timestamp dl)" and ?T = "unat now"
  have "unat (dl_rate dl) * (?T - ?t) div 1000 \<le> R * (?T - ?t) div 1000"
    using assms by (auto simp: within_budget_def intro!: div_le_mono)
  moreover have "R * (?t - t0) div 1000 + R * (?T - ?t) div 1000 \<le> (R * (?t - t0) + R * (?T - ?t)) div 1000"
    by (rule div_add_le)
  moreover have "(?t - t0) + (?T - ?t) = ?T - t0" using assms by (simp add: within_budget_def)
  then have "R * (?t - t0) + R * (?T - ?t) = R * (?T - t0)" by (metis distrib_left)
  ultimately show ?thesis using assms Refill_le [OF assms(2)] by (simp add: within_budget_def)
qed

lemma within_budget_max [simp]: "within_budget first R t0 n g (dl\<lparr>dl_maxTokenSize := m\<rparr>) = within_budget first R t0 n g dl"
  by (simp add: within_budget_def)

lemma within_budget_restore [simp]: "within_budget first R t0 n g (restore_max w dl) = within_budget first R t0 n g dl"
  by (simp add: restore_max_def)

lemma within_budget_mono: "within_budget first R t0 n g dl \<Longrightarrow> n \<le> m \<Longrightarrow> within_budget first R t0 m g dl"
  by (simp add: within_budget_def)

lemma within_budget_consume:
  assumes "within_budget first R t0 n g dl" "\<not> dl_tokens dl < wt_requiredSize w"
  shows "within_budget first R t0 n (g + unat (wt_requiredSize w)) (consume w dl)"
  unfolding consume_def within_budget_restore using assms by (simp add: within_budget_def unat_sub word_le_nat_alt not_less)

text \<open>The ways in which a turn of a waiting call ends.\<close>

lemma wait_turn_cases:
  obtains (granted) "\<not> dl_tokens dl < wt_requiredSize w" "wait_turn cancelled now w dl = (Granted, consume w dl)"
  | (refused) "dl_tokens dl < wt_requiredSize w" "wait_turn cancelled now w dl = (Refused, restore_max w dl)"
  | (sleeping) k where "dl_tokens dl < wt_requiredSize w" "wait_turn cancelled now w dl = (Sleeping (w\<lparr>wt_waitedMs := k\<rparr>), Refill now dl)"
  | (refilled) "\<not> dl_tokens (Refill now dl) < wt_requiredSize w" "wait_turn cancelled now w dl = (Granted, consume w (Refill now dl))"
proof (cases "dl_tokens dl < wt_requiredSize w")
  case False
  then show thesis by (intro granted) (simp_all add: wait_turn_def)
next
  case low: True
  show thesis
  proof (cases "wt_cancellable w \<and> cancelled \<or> wt_waitedMs w \<ge> wt_maxWaitMs w")
    case True
    with low show thesis by (intro refused) (auto simp: wait_turn_def)
  next
    case going: False
    show thesis
    proof (cases "dl_tokens (Refill now dl) < wt_requiredSize w")
      case True
      let ?ms = "min (WaitMilliseconds (wt_requiredSize w) (Refill now dl)) (wt_maxWaitMs w - wt_waitedMs w)"
      show thesis using low going True
        by (intro sleeping [of "wt_waitedMs w + (if wt_cancellable w then min ?ms CANCEL_POLL_MS else ?ms)"]) (auto simp: wait_turn_def Let_def)
    next
      case False
      with low going show thesis by (intro refilled) (auto simp: wait_turn_def Let_def)
    qed
  qed
qed

definition turn_bytes :: "waiter \<Rightarrow> turn \<Rightarrow> nat" where
  "turn_bytes w r = (if r = Granted then unat (wt_requiredSize w) else 0)"

lemma within_budget_turn:
  assumes "within_budget first R t0 n g dl" "unat (dl_timestamp dl) \<le> unat now" "wait_turn cancelled now w dl = (r, dl')"
  shows "within_budget first R t0 (n + 1) (g + turn_bytes w r) dl' \<and> (dl_timestamp dl' = dl_timestamp dl \<or> dl_timestamp dl' = now)"
proof -
  note refill = within_budget_refill [OF assms(1,2)] and mono = within_budget_mono [OF assms(1), of "n + 1"]
  have time: "dl_timestamp (consume w d) = dl_timestamp d" "dl_timestamp (restore_max w d) = dl_timestamp d" for d
    by (simp_all add: consume_def restore_max_def)
  note consumed = within_budget_consume [OF refill, of w] within_budget_consume [OF mono, of w]
  show ?thesis
    by (cases rule: wait_turn_cases [of dl w cancelled now]) (use assms(3) refill mono consumed time in \<open>auto simp: turn_bytes_def\<close>)
qed

fun rate_at_most :: "u64 \<Rightarrow> sender_event \<Rightarrow> bool" where
  "rate_at_most R (Rate r) \<longleftrightarrow> r \<le> R"
| "rate_at_most R _ \<longleftrightarrow> True"

definition event_clocks :: "sender_event list \<Rightarrow> u64 list" where
  "event_clocks evs = List.map_filter event_clock evs"

lemma event_clocks_snoc: "event_clocks (evs @ [ev]) = event_clocks evs @ (case event_clock ev of None \<Rightarrow> [] | Some t \<Rightarrow> [t])"
  by (simp add: event_clocks_def map_filter_def split: option.splits)

lemma settle_budget:
  assumes "within_budget first R t0 n (granted_bytes s) dl" "unat (dl_timestamp dl) \<le> unat now"
  shows "within_budget first R t0 (n + 1) (granted_bytes (settle t w (wait_turn cancelled now w dl) s)) (sd_limiter (settle t w (wait_turn cancelled now w dl) s))
    \<and> dl_timestamp (sd_limiter (settle t w (wait_turn cancelled now w dl) s)) \<in> {dl_timestamp dl, now}"
proof (cases "wait_turn cancelled now w dl")
  case (Pair r dl')
  then show ?thesis using within_budget_turn [OF assms Pair]
    by (cases r) (auto simp: settle_def granted_bytes_def turn_bytes_def add.commute)
qed

lemma senders_budget:
  fixes m :: u64
  assumes "sorted (t0 # event_clocks evs)" "rate \<le> R" "list_all (rate_at_most R) evs"
  defines "s \<equiv> foldl sender_step (new_senders rate m t0) evs"
  shows "within_budget (unat rate) (unat R) (unat t0) (length evs) (granted_bytes s) (sd_limiter s)
    \<and> dl_timestamp (sd_limiter s) \<le> last (t0 # event_clocks evs)"
  using assms(1,3) unfolding s_def
proof (induction evs rule: rev_induct)
  case Nil
  then show ?case using assms(2)
    by (simp add: new_senders_def new_DataLimiter_def within_budget_def granted_bytes_def event_clocks_def map_filter_def word_le_nat_alt)
next
  case (snoc ev evs)
  let ?s = "foldl sender_step (new_senders rate m t0) evs"
  have prefix: "sorted (t0 # event_clocks evs)" using snoc.prems(1) by (auto simp: event_clocks_snoc sorted_append)
  have IH: "within_budget (unat rate) (unat R) (unat t0) (length evs) (granted_bytes ?s) (sd_limiter ?s)"
    and le: "dl_timestamp (sd_limiter ?s) \<le> last (t0 # event_clocks evs)" using snoc.IH [OF prefix] snoc.prems by auto
  have clock: "dl_timestamp (sd_limiter ?s) \<le> now" if "event_clock ev = Some now" for now
  proof -
    have "last (t0 # event_clocks evs) \<le> now"
      using snoc.prems(1) that by (auto simp: event_clocks_snoc sorted_append)
    with le show ?thesis by order
  qed
  show ?case
  proof (cases ev)
    case (Call t sz c mw cancelled now)
    obtain w dl where e: "enter_wait sz c mw (sd_limiter ?s) = (w, dl)" by fastforce
    then have dl: "within_budget (unat rate) (unat R) (unat t0) (length evs) (granted_bytes ?s) dl"
      "dl_timestamp dl = dl_timestamp (sd_limiter ?s)" using IH by (auto simp: enter_wait_def Let_def)
    have "unat (dl_timestamp dl) \<le> unat now" using clock Call dl(2) by (simp add: word_le_nat_alt)
    from settle_budget [OF dl(1) this, of t w cancelled] within_budget_mono [OF IH, of "length evs + 1"] clock le dl(2) show ?thesis
      using Call e by (auto simp: event_clocks_snoc)
  next
    case (Wake t cancelled now)
    have "unat (dl_timestamp (sd_limiter ?s)) \<le> unat now" using clock Wake by (simp add: word_le_nat_alt)
    note settled = settle_budget [OF IH this, of t _ cancelled]
    show ?thesis
    proof (cases "sd_waiters ?s t")
      case None
      then show ?thesis using Wake within_budget_mono [OF IH, of "length evs + 1"] clock by (simp add: event_clocks_snoc)
    next
      case (Some w)
      then show ?thesis using Wake settled [of w] clock by (auto simp: event_clocks_snoc)
    qed
  next
    case (Rate r)
    then show ?thesis using IH le snoc.prems(2)
      by (simp add: event_clocks_snoc within_budget_def UpdateRate_def granted_bytes_def word_le_nat_alt)
  qed
qed

text \<open>
  C38. The rate limit holds however many senders share the limiter. Take any interleaving of WaitAllow calls, their
  wake-ups and rate updates, with clock readings that never go back and no rate above R. The bytes that have been
  granted by the clock reading T are at most the initial rate (the first second's burst) plus R bytes for each
  second since the start, plus one byte per step.
\<close>

theorem limiter_rate_bounded:
  assumes "sorted (t0 # event_clocks evs)" "rate \<le> R" "list_all (rate_at_most R) evs" "T = last (t0 # event_clocks evs)"
  shows "granted_bytes (foldl sender_step (new_senders rate maxTokenSize t0) evs)
    \<le> unat rate + unat R * (unat T - unat t0) div 1000 + length evs"
proof -
  let ?dl = "sd_limiter (foldl sender_step (new_senders rate maxTokenSize t0) evs)"
  note budget = senders_budget [OF assms(1-3), of maxTokenSize]
  have "unat (dl_timestamp ?dl) \<le> unat T" using conjunct2 [OF budget] assms(4) by (simp add: word_le_nat_alt)
  then have "unat R * (unat (dl_timestamp ?dl) - unat t0) div 1000 \<le> unat R * (unat T - unat t0) div 1000"
    by (intro div_le_mono mult_le_mono2 diff_le_mono)
  with conjunct1 [OF budget] show ?thesis by (simp add: within_budget_def)
qed

definition two_sends :: "sender_event list" where
  "two_sends = [Call 1 150 False UINT64_MAX False 0, Call 2 200 False UINT64_MAX False 0, Wake 1 False 1000]"

theorem limiter_rate_bounded_witness:
  "granted_bytes (foldl sender_step (new_senders 100 100 0) two_sends) = 150
   \<and> granted_bytes (foldl sender_step (new_senders 100 100 0) two_sends) \<le> 203"
proof -
  have "sorted (0 # event_clocks two_sends)" "list_all (rate_at_most 100) two_sends" "1000 = last (0 # event_clocks two_sends)"
    by code_simp+
  from limiter_rate_bounded [OF this(1) order_refl this(2,3), of 100]
  have "granted_bytes (foldl sender_step (new_senders 100 100 0) two_sends) \<le> 203" by (simp add: two_sends_def)
  moreover have "granted_bytes (foldl sender_step (new_senders 100 100 0) two_sends) = 150" by code_simp
  ultimately show ?thesis by simp
qed

subsection \<open>An oversized request can starve\<close>

text \<open>Nobody but \<open>t\<close> asks for more than the bucket can hold, and the bucket cannot hold what \<open>t\<close> asks for.\<close>

definition starving :: "nat \<Rightarrow> u64 \<Rightarrow> u64 \<Rightarrow> senders \<Rightarrow> bool" where
  "starving t M R s \<longleftrightarrow> M \<le> dl_maxTokenSize (sd_limiter s) \<and> dl_maxTokenSize (sd_limiter s) < R \<and> dl_tokens (sd_limiter s) < R
     \<and> (\<forall>w. sd_waiters s t = Some w \<longrightarrow> wt_requiredSize w = R \<and> M \<le> wt_originalMax w \<and> wt_originalMax w < R)
     \<and> (\<forall>u w. u \<noteq> t \<longrightarrow> sd_waiters s u = Some w \<longrightarrow> \<not> wt_needRestore w)
     \<and> t \<notin> fst ` set (sd_granted s)"

fun harmless :: "nat \<Rightarrow> u64 \<Rightarrow> sender_event \<Rightarrow> bool" where
  "harmless t M (Call u size' cancellable maxWaitMs cancelled now) \<longleftrightarrow> u \<noteq> t \<and> size' \<le> M"
| "harmless t M _ \<longleftrightarrow> True"

lemma Refill_capped: "dl_tokens (Refill now dl) \<le> dl_maxTokenSize dl"
  by (simp add: Refill_def Let_def not_less)

lemma consume_tokens:
  assumes "\<not> dl_tokens dl < wt_requiredSize w" "dl_tokens dl < R"
  shows "dl_tokens (consume w dl) < R"
proof -
  have "dl_tokens dl - wt_requiredSize w \<le> dl_tokens dl" using assms(1) by (simp add: word_sub_le not_less)
  with assms(2) show ?thesis by (simp add: consume_def restore_max_def)
qed

lemma other_turn:
  assumes "starving t M R s" "u \<noteq> t" "\<not> wt_needRestore w"
  shows "starving t M R (settle u w (wait_turn cancelled now w (sd_limiter s)) s)"
proof -
  let ?dl = "sd_limiter s"
  have low: "dl_tokens ?dl < R" "dl_tokens (Refill now ?dl) < R"
    using assms(1) Refill_capped [of now ?dl] by (auto simp: starving_def)
  note consumed = consume_tokens [OF _ low(1), of w] consume_tokens [OF _ low(2), of w]
  have max: "dl_maxTokenSize (consume w d) = dl_maxTokenSize d" "restore_max w d = d" for d
    using assms(3) by (simp_all add: consume_def restore_max_def)
  show ?thesis
    by (cases rule: wait_turn_cases [of ?dl w cancelled now])
      (use assms low consumed max in \<open>auto simp: starving_def settle_def\<close>)
qed

lemma own_turn:
  assumes "starving t M R s" "sd_waiters s t = Some w"
  shows "starving t M R (settle t w (wait_turn cancelled now w (sd_limiter s)) s)"
proof -
  let ?dl = "sd_limiter s"
  have w: "wt_requiredSize w = R" "M \<le> wt_originalMax w" "wt_originalMax w < R" using assms by (auto simp: starving_def)
  have low: "dl_tokens ?dl < R" "dl_tokens (Refill now ?dl) < R"
    using assms(1) Refill_capped [of now ?dl] by (auto simp: starving_def)
  show ?thesis
    by (cases rule: wait_turn_cases [of ?dl w cancelled now])
      (use assms low w in \<open>auto simp: starving_def settle_def restore_max_def\<close>)
qed

lemma starving_step:
  assumes "starving t M R s" "harmless t M ev"
  shows "starving t M R (sender_step s ev)"
proof (cases ev)
  case (Call u sz c mw cancelled now)
  then have "sz \<le> M" and u: "u \<noteq> t" using assms(2) by auto
  then have "enter_wait sz c mw (sd_limiter s) = (fst (enter_wait sz c mw (sd_limiter s)), sd_limiter s)"
    "\<not> wt_needRestore (fst (enter_wait sz c mw (sd_limiter s)))"
    using assms(1) by (auto simp: enter_wait_def Let_def starving_def)
  with other_turn [OF assms(1) u] Call assms(1) show ?thesis by (auto split: prod.splits)
next
  case (Wake u cancelled now)
  show ?thesis
  proof (cases "sd_waiters s u")
    case (Some w)
    show ?thesis
    proof (cases "u = t")
      case True
      with own_turn [OF assms(1)] Some Wake show ?thesis by simp
    next
      case False
      moreover have "\<not> wt_needRestore w" using assms(1) Some False by (auto simp: starving_def)
      ultimately show ?thesis using other_turn [OF assms(1)] Some Wake by simp
    qed
  qed (use Wake assms in simp)
next
  case (Rate r)
  then show ?thesis using assms(1) by (simp add: starving_def UpdateRate_def)
qed

text \<open>
  C39. A sender with an oversized request can wait forever. The limiter holds at most 100 tokens. Sender 1 asks for
  150 bytes and sender 2 for 200, and each raises the limit of the bucket to its own request while it waits. When
  sender 1 is served it puts the limit back to 100, below what sender 2 needs. From then on no token count the
  bucket can reach serves sender 2: whatever the clock and the rate, however often it wakes up and however many
  requests of at most 100 bytes the other senders make, its request is never granted.
\<close>

theorem oversized_sender_starves:
  assumes "list_all (harmless 2 100) evs"
  shows "sd_granted (foldl sender_step (new_senders 100 100 0) two_sends) = [(1, 150)]
    \<and> map_option wt_requiredSize (sd_waiters (foldl sender_step (new_senders 100 100 0) two_sends) 2) = Some 200
    \<and> 2 \<notin> fst ` set (sd_granted (foldl sender_step (new_senders 100 100 0) (two_sends @ evs)))"
proof -
  let ?s = "foldl sender_step (new_senders 100 100 0) two_sends"
  have grants: "sd_granted ?s = [(1, 150)]" by code_simp
  have start: "starving 2 100 200 ?s"
    by (simp add: two_sends_def new_senders_def new_DataLimiter_def enter_wait_def wait_turn_def Let_def Refill_def refilled_tokens_def
        settle_def consume_def restore_max_def WaitMilliseconds_def UINT64_MAX_def S2MS_def starving_def)
  have "starving 2 100 200 (foldl sender_step s evs)" if "starving 2 100 200 s" for s
    using that assms by (induction evs arbitrary: s) (auto simp: starving_step)
  from this [OF start] have "2 \<notin> fst ` set (sd_granted (foldl sender_step (new_senders 100 100 0) (two_sends @ evs)))"
    by (simp add: starving_def)
  moreover have "map_option wt_requiredSize (sd_waiters ?s 2) = Some 200" by code_simp
  ultimately show ?thesis using grants by simp
qed

theorem oversized_sender_starves_witness:
  "2 \<notin> fst ` set (sd_granted (foldl sender_step (new_senders 100 100 0) (two_sends @ [Wake 2 False 100000, Call 3 50 False UINT64_MAX False 100000])))
   \<and> list_all (harmless 2 100) [Wake 2 False 100000, Call 3 50 False UINT64_MAX False 100000]"
proof -
  have "list_all (harmless 2 100) [Wake 2 False 100000, Call 3 50 False UINT64_MAX False 100000]" by simp
  with oversized_sender_starves [OF this] show ?thesis by blast
qed

subsection \<open>The advertised rate fits the free bandwidth\<close>

datatype rate_op = Receive nat u64 | NewRate nat string | PeekRate nat string | ExpireRate nat string nat

fun op_time :: "rate_op \<Rightarrow> nat" where
  "op_time (Receive now b) = now"
| "op_time (NewRate now a) = now"
| "op_time (PeekRate now a) = now"
| "op_time (ExpireRate now a t) = now"

fun rate_step :: "MigrateDataRateController \<Rightarrow> rate_op \<Rightarrow> MigrateDataRateController" where
  "rate_step rc (Receive now b) = Controller_SlidingWindowUpdateRate now b rc"
| "rate_step rc (NewRate now a) = snd (CalculateNewRate now a rc)"
| "rate_step rc (PeekRate now a) = snd (PeekAvailableRate now a rc)"
| "rate_step rc (ExpireRate now a t) = ClearExpiredRate now a RATE_RECORD_EXPIRE_MS t rc"

definition new_MigrateDataRateController :: "u64 \<Rightarrow> MigrateDataRateController" where
  "new_MigrateDataRateController maxBandwidthBytes = \<lparr>rc_rateTable = [], rc_rateLimiter = new_MigrateDataRateLimiter maxBandwidthBytes\<rparr>"

fun received_data :: "rate_op list \<Rightarrow> TimestampedData list" where
  "received_data [] = []"
| "received_data (Receive now b # ops) = \<lparr>td_timestamp = now, td_bytes = b\<rparr> # received_data ops"
| "received_data (_ # ops) = received_data ops"

definition data_bytes :: "TimestampedData list \<Rightarrow> nat" where
  "data_bytes ds = (\<Sum>d \<leftarrow> ds. unat (td_bytes d))"

text \<open>The bytes received less than a second before \<open>now\<close>.\<close>

definition recent_bytes :: "nat \<Rightarrow> rate_op list \<Rightarrow> nat" where
  "recent_bytes now ops = data_bytes (filter (\<lambda>d. now \<le> td_timestamp d + WINDOW_NS) (received_data ops))"

lemma received_data_append [simp]: "received_data (xs @ ys) = received_data xs @ received_data ys"
  by (induction xs rule: received_data.induct) auto

lemma received_times: "set (map td_timestamp (received_data ops)) \<subseteq> set (map op_time ops)"
  by (induction ops rule: received_data.induct) auto

lemma prune_window_dropWhile:
  "prune_window now ds c = (dropWhile (\<lambda>d. td_timestamp d + WINDOW_NS < now) ds,
     c - (\<Sum>d \<leftarrow> takeWhile (\<lambda>d. td_timestamp d + WINDOW_NS < now) ds. td_bytes d))"
  by (induction ds arbitrary: c) (auto simp: algebra_simps)

definition window_inv :: "nat \<Rightarrow> TimestampedData list \<Rightarrow> MigrateDataRateLimiter \<Rightarrow> bool" where
  "window_inv T ds rl \<longleftrightarrow> rl_window rl = dropWhile (\<lambda>d. td_timestamp d + WINDOW_NS < T) ds
     \<and> rl_currentBandwidth rl = (\<Sum>d \<leftarrow> rl_window rl. td_bytes d)"

lemma dropWhile_later:
  assumes "T \<le> now"
  shows "dropWhile (\<lambda>d. td_timestamp d + WINDOW_NS < now) (dropWhile (\<lambda>d. td_timestamp d + WINDOW_NS < T) ds)
    = dropWhile (\<lambda>d. td_timestamp d + WINDOW_NS < now) ds"
  using assms by (induction ds) auto

lemma sum_split_while:
  "(\<Sum>d \<leftarrow> ds. td_bytes d) - (\<Sum>d \<leftarrow> takeWhile P ds. td_bytes d) = (\<Sum>d \<leftarrow> dropWhile P ds. td_bytes d)"
proof -
  have "(\<Sum>d \<leftarrow> takeWhile P ds @ dropWhile P ds. td_bytes d) = (\<Sum>d \<leftarrow> takeWhile P ds. td_bytes d) + (\<Sum>d \<leftarrow> dropWhile P ds. td_bytes d)"
    by (simp only: map_append sum_list.append)
  then show ?thesis unfolding takeWhile_dropWhile_id by simp
qed

lemma window_inv_prune:
  assumes "window_inv T ds rl" "T \<le> now"
  shows "window_inv now ds (PruneExpiredLocked now rl) \<and> rl_maxBandwidth (PruneExpiredLocked now rl) = rl_maxBandwidth rl"
  using assms dropWhile_later [OF assms(2), of ds]
  by (simp add: window_inv_def PruneExpiredLocked_def prune_window_dropWhile sum_split_while)

lemma window_inv_receive:
  assumes "window_inv T ds rl" "T \<le> now"
  shows "window_inv now (ds @ [\<lparr>td_timestamp = now, td_bytes = b\<rparr>]) (SlidingWindowUpdateRate now b rl)
    \<and> rl_maxBandwidth (SlidingWindowUpdateRate now b rl) = rl_maxBandwidth rl"
proof -
  have "window_inv T (ds @ [\<lparr>td_timestamp = now, td_bytes = b\<rparr>]) (rl\<lparr>rl_window := rl_window rl @ [\<lparr>td_timestamp = now, td_bytes = b\<rparr>],
      rl_currentBandwidth := rl_currentBandwidth rl + b\<rparr>)"
    using assms by (auto simp: window_inv_def dropWhile_append)
  from window_inv_prune [OF this assms(2)] show ?thesis by (simp add: SlidingWindowUpdateRate_def)
qed

lemma rate_run_inv:
  fixes m :: u64
  assumes "sorted (map op_time ops)" "\<forall>p \<in> set ops. op_time p \<le> now"
  defines "rc \<equiv> foldl rate_step (new_MigrateDataRateController m) ops"
  shows "\<exists>T \<le> now. window_inv T (received_data ops) (rc_rateLimiter rc) \<and> rl_maxBandwidth (rc_rateLimiter rc) = m"
  using assms(1,2) unfolding rc_def
proof (induction ops arbitrary: now rule: rev_induct)
  case Nil
  show ?case by (auto simp: window_inv_def new_MigrateDataRateController_def new_MigrateDataRateLimiter_def)
next
  case (snoc p ops)
  let ?rc = "foldl rate_step (new_MigrateDataRateController m) ops"
  from snoc.prems have "sorted (map op_time ops)" "\<forall>q \<in> set ops. op_time q \<le> op_time p" "op_time p \<le> now" by (auto simp: sorted_append)
  with snoc.IH obtain T where T: "T \<le> op_time p" "op_time p \<le> now" and inv: "window_inv T (received_data ops) (rc_rateLimiter ?rc)"
    and m: "rl_maxBandwidth (rc_rateLimiter ?rc) = m" by blast
  note pruned = window_inv_prune [OF inv T(1)] and got = window_inv_receive [OF inv T(1)]
  show ?case
  proof (cases p)
    case (Receive n b)
    then show ?thesis using got [of b] T(2) m by (auto simp: Controller_SlidingWindowUpdateRate_def)
  next
    case (NewRate n a)
    then show ?thesis using pruned T(2) m by (auto simp: CalculateNewRate_def GetAvailableBandwidth_def Let_def)
  next
    case (PeekRate n a)
    then show ?thesis using pruned T(2) m by (auto simp: PeekAvailableRate_def GetAvailableBandwidth_def Let_def)
  next
    case (ExpireRate n a t)
    then have "rc_rateLimiter (rate_step ?rc p) = rc_rateLimiter ?rc" by (simp add: ClearExpiredRate_def split: option.splits)
    then show ?thesis using ExpireRate T inv m by (intro exI [of _ T]) auto
  qed
qed

lemma sum_words: "unat (\<Sum>d \<leftarrow> ds. td_bytes d) = data_bytes ds mod 2 ^ 64"
  by (induction ds) (simp_all add: data_bytes_def unat_word_ariths(1) mod_add_right_eq)

lemma smoothed_rate_le: "CalculateSmoothedRate lastRate available \<le> available"
proof (cases "available < lastRate")
  case False
  then have "unat (lastRate + available) \<le> 2 * unat available"
    by (auto simp: unat_word_ariths(1) not_less word_le_nat_alt intro: order_trans [OF mod_less_eq_dividend])
  then show ?thesis using False
    by (simp add: CalculateSmoothedRate_def RATE_SMOOTHING_DIVISOR_def word_le_nat_alt unat_div_distrib)
qed (simp add: CalculateSmoothedRate_def)

lemma dropWhile_sorted_filter:
  assumes "sorted (map td_timestamp ds)"
  shows "dropWhile (\<lambda>d. td_timestamp d + WINDOW_NS < now) ds = filter (\<lambda>d. now \<le> td_timestamp d + WINDOW_NS) ds"
  using assms
proof (induction ds)
  case (Cons d ds)
  have "filter (\<lambda>d. now \<le> td_timestamp d + WINDOW_NS) ds = ds" if "now \<le> td_timestamp d + WINDOW_NS"
    using Cons.prems that by (intro filter_True) fastforce
  with Cons show ?case by auto
qed simp

lemma received_sorted: "sorted (map op_time ops) \<Longrightarrow> sorted (map td_timestamp (received_data ops))"
proof (induction ops rule: received_data.induct)
  case (2 now b ops)
  then show ?case using received_times [of ops] by fastforce
qed auto

lemma available_bandwidth:
  fixes m :: u64
  assumes "sorted (map op_time ops)" "\<forall>p \<in> set ops. op_time p \<le> now" "data_bytes (received_data ops) < 2 ^ 64"
  defines "rl \<equiv> rc_rateLimiter (foldl rate_step (new_MigrateDataRateController m) ops)"
  shows "unat (fst (GetAvailableBandwidth now rl)) = unat m - recent_bytes now ops"
proof -
  obtain T where T: "T \<le> now" and inv: "window_inv T (received_data ops) rl" and m: "rl_maxBandwidth rl = m"
    using rate_run_inv [OF assms(1,2), of m] unfolding rl_def by blast
  let ?ds = "filter (\<lambda>d. now \<le> td_timestamp d + WINDOW_NS) (received_data ops)"
  have cur: "rl_currentBandwidth (PruneExpiredLocked now rl) = (\<Sum>d \<leftarrow> ?ds. td_bytes d)"
    using window_inv_prune [OF inv T] dropWhile_sorted_filter [OF received_sorted [OF assms(1)]] by (simp add: window_inv_def)
  have "data_bytes (filter P ds) \<le> data_bytes ds" for P ds by (induction ds) (auto simp: data_bytes_def)
  then have "data_bytes ?ds < 2 ^ 64" using assms(3) by (rule le_less_trans)
  then have "unat (rl_currentBandwidth (PruneExpiredLocked now rl)) = recent_bytes now ops"
    unfolding cur recent_bytes_def sum_words by simp
  then show ?thesis using window_inv_prune [OF inv T] m
    by (auto simp: GetAvailableBandwidth_def Let_def word_le_nat_alt unat_sub)
qed

text \<open>
  C40. A worker never advertises more migration bandwidth than it has left. Take any sequence of received batches,
  rate requests, probes and expiry timers with clock readings that never go back, and fewer than 2^64 bytes in
  all. The rate that CalculateNewRate or PeekAvailableRate then returns for any worker is at most the configured
  bandwidth minus the bytes received in the last second, and it is 0 when these use up the bandwidth. When nothing
  was received, a worker without a history gets the mean of half of the bandwidth and all of it.
\<close>

theorem advertised_rate_fits:
  assumes "sorted (map op_time ops)" "\<forall>p \<in> set ops. op_time p \<le> now" "data_bytes (received_data ops) < 2 ^ 64"
    and rc: "rc = foldl rate_step (new_MigrateDataRateController maxBandwidth) ops"
  shows "unat (fst (CalculateNewRate now a rc)) \<le> unat maxBandwidth - recent_bytes now ops
    \<and> fst (PeekAvailableRate now a rc) = fst (CalculateNewRate now a rc)
    \<and> (map_of (rc_rateTable rc) a = None \<and> recent_bytes now ops = 0 \<longrightarrow>
        fst (CalculateNewRate now a rc) = (maxBandwidth div 2 + maxBandwidth) div 2)"
proof -
  let ?av = "fst (GetAvailableBandwidth now (rc_rateLimiter rc))"
  have av: "unat ?av = unat maxBandwidth - recent_bytes now ops"
    unfolding rc by (rule available_bandwidth [OF assms(1-3)])
  have new: "fst (CalculateNewRate now a rc) = CalculateSmoothedRate (last_rate a rc) ?av"
    "fst (PeekAvailableRate now a rc) = CalculateSmoothedRate (last_rate a rc) ?av"
    by (simp_all add: CalculateNewRate_def PeekAvailableRate_def Let_def split: prod.splits)
  have "rl_maxBandwidth (rc_rateLimiter rc) = maxBandwidth" unfolding rc using rate_run_inv [OF assms(1,2)] by blast
  moreover have "?av = maxBandwidth" if "recent_bytes now ops = 0" using av that by (simp add: word_unat_eq_iff)
  moreover have "maxBandwidth div 2 \<le> maxBandwidth" by (simp add: word_le_nat_alt unat_div_distrib)
  moreover have "unat (fst (CalculateNewRate now a rc)) \<le> unat ?av"
    unfolding new using smoothed_rate_le by (simp add: word_le_nat_alt)
  ultimately show ?thesis
    using av by (auto simp: new last_rate_def CalculateSmoothedRate_def RATE_SMOOTHING_DIVISOR_def not_less [symmetric])
qed

definition busy_receiver :: "rate_op list" where
  "busy_receiver = [Receive 0 30, NewRate 1 ''w'', Receive (5 * 10 ^ 8) 60]"

theorem advertised_rate_fits_witness:
  "recent_bytes (12 * 10 ^ 8) busy_receiver = 60
   \<and> unat (fst (CalculateNewRate (12 * 10 ^ 8) ''w'' (foldl rate_step (new_MigrateDataRateController 100) busy_receiver))) \<le> 40"
proof -
  let ?rc = "foldl rate_step (new_MigrateDataRateController 100) busy_receiver"
  have "sorted (map op_time busy_receiver)" "\<forall>p \<in> set busy_receiver. op_time p \<le> 12 * 10 ^ 8"
    "data_bytes (received_data busy_receiver) < 2 ^ 64" "recent_bytes (12 * 10 ^ 8) busy_receiver = 60"
    by (simp_all add: busy_receiver_def data_bytes_def recent_bytes_def WINDOW_NS_def)
  with advertised_rate_fits [OF this(1-3) refl, of "''w''" 100] show ?thesis by simp
qed

end
