(* ===== verification/Spec2Isabelle.thy ===== *)
theory Spec2Isabelle
  imports DS_Prelude MemoryKv TtlManager WatchRegistry WatchChannel WatchDispatcher Leases
    CoordinatorStore HashRingToken TopologyTypes BalancedRing TokenPlacement OwnerDiff HashAlgorithm
    TopologySnapshot KeyHelper RepositoryCodec ClientRouting PlanBuilder FailureClassifier
    Hasher TaskMaterializer EvictionList DataLimiter
begin

text \<open>
  A verification library for the data system: its coordinator, the cluster topology the coordinator
  keeps, the routing of clients over that topology, and the eviction list and the bandwidth limits of
  a worker. Paths below are those of the repository, with src/datasystem/ left out.

  \<^bold>\<open>The program and its parts.\<close> Workers cache objects and serve clients. The coordinator holds
  the shared state of the cluster in a key-value store with revisions, leases and watches. A
  controller reads the members that hold a live lease, decides which of them joined, leave or failed, and
  writes the next topology, a hash ring of tokens, with one batch of tasks at a time. Workers carry
  the tasks out, that is, they move the keys of the ranges that change their owner. Clients fetch the
  topology and select for each key the worker that owns it.

  \<^bold>\<open>The coordinator store\<close> (common/coordinator).
  \<^item> MemoryKv models memory_kv_store: Put with its three compare-and-swap guards, Range, Delete,
    KeepAlive, DeleteIfTtlExpired and the events for the mutation callback. A snapshot followed by
    the later events is the store (C1), an expiry that was overtaken deletes nothing (C2), Put is a
    compare-and-swap (C3), a range delete is exact (C4).
  \<^item> TtlManager models ttl_manager: the multimap of deadlines with the index of its iterators. It
    refines a map from keys to their newest lease (C5); an expiration pass reports exactly the due
    leases up to its limit (C6), and repeated passes report all of them (C7).
  \<^item> WatchRegistry models watch_registry: registration with deduplication (C8) and the matching of a
    key against exact and range watches (C9).
  \<^item> WatchChannel and WatchDispatcher model watch_dispatcher. A channel delivers events of increasing
    revisions above its snapshot in order, without gaps or repetitions (C10), and drains (C11); a
    range delete of more keys than one batch holds loses events (C12). The dispatcher is a step relation whose
    steps are the critical sections of the caller, the fan-out thread and the dispatch threads: no
    wake-up is lost (C13), queues are bounded (C14), a request to watch again can be lost (C15).
  \<^item> Leases composes the store and the TTL manager without a common lock: a live lease is always
    tracked (C16) and never ends early (C17). The two components enter by the locales
    \<open>lease_store\<close> and \<open>expiry_queue\<close>, interpreted on their models.
  \<^item> CoordinatorStore models coordinator_store, the facade over the four: the watch tables agree
    (C18), a commit reaches the watchers it matches (C19), and after shutdown nothing more is observed, queued or
    expired (C20).

  \<^bold>\<open>The hash ring\<close> (common/util, cluster/algorithm).
  \<^item> HashRingToken models MurmurHash3 and hash_ring_token with its reused text buffer: the batched
    derivation gives the tokens of the single one (C21).
  \<^item> BalancedRing models balanced_ring: arcs and shares are exact after every insertion (C22).
  \<^item> TokenPlacement models token_placement: the shortcut finds the candidate of the full scan (C23),
    selected tokens are fresh and can be rebuilt from their seeds (C24).
  \<^item> OwnerDiff and HashAlgorithm model hash_algorithm.cpp: the difference of two rings is exact (C25),
    and so are the plans for scale-out, scale-in and failure (C26 to C28). The choice of tokens enters
    by the locale \<open>token_chooser\<close>.

  \<^bold>\<open>The topology\<close> (cluster/model, cluster/repository, cluster/control).
  \<^item> TopologyTypes and TopologySnapshot model topology_types.h and topology_snapshot: validation gives
    a canonical form (C29), on which the indexes of a snapshot and the owner lookup rest.
  \<^item> KeyHelper models topology_key_helper: valid names give disjoint keys, and a key is classified as
    what it was built from. RepositoryCodec models topology_repository_codec: a stored
    topology reads back as its canonical form (C30); tasks and notifications have round trips.
  \<^item> PlanBuilder models topology_plan_builder over the interface of the planning algorithm, the locale
    \<open>planning_algorithm\<close>, which the hash algorithm interprets: each transition from a
    storable topology gives a storable one (C32).
  \<^item> FailureClassifier models topology_failure_classifier: a member is confirmed as failed exactly
    when it was absent for the timeout while the membership could be read (C33).
  \<^item> Hasher models the SHA-256 part of common/ak_sk/hasher. TaskMaterializer models
    topology_task_materializer: the tasks move exactly the ranges of the plan and their executors are
    notified of exactly their tasks (C34), and equal task ids mean equal tasks as far as the digest
    distinguishes them (C35). The locale \<open>prefix_code\<close> is the contract of the length-prefixed
    encodings that both use.

  \<^bold>\<open>Clients and workers.\<close>
  \<^item> ClientRouting models client/object_cache/routing with HostPort of net_util.h: token index, filters
    and selection. C31, at the end of this theory, joins it with the codec, the snapshot and the ring:
    the client selects the worker where the servers place the key.
  \<^item> EvictionList models the clock strategy of worker/object_cache/eviction_list: the victim is the
    one of the clock algorithm (C36), and every operation changes list, index and hand as specified (C37).
  \<^item> DataLimiter models worker/object_cache/limiter/data_limiter: granted bytes are bounded by rate and
    time (C38), a sender that waits for more than the bucket can starve after another one restores the
    size of the bucket (C39), and the advertised rates fit the limit (C40).

  \<^bold>\<open>Conventions.\<close> A Status with output parameters is \<open>'a result\<close>, \<open>Inl\<close> being the error (DS_Prelude);
  objects are records passed through the operations; std::map and std::set are sorted association lists;
  unordered maps are maps, or association lists where the order of iteration is seen. Integers have the
  width of the code: tokens are 32-bit words, epochs, generations, sizes and rates 64-bit words,
  counters of the eviction list 8-bit words; int64 revisions and times are integers, wrapped
  by \<open>wrap_s64\<close> where the code adds. Theorems on revisions therefore assume that fewer than 2^63
  operations ran. A body under a mutex is one step; where a lock is released in
  between, the parts are separate steps and the locals that survive are part of the state.
  Clock readings, random draws and the order of threads are arguments.

  \<^bold>\<open>Termination.\<close> There is no fuel. Loops are structural recursions or have a termination proof with a
  measure: the hand of the eviction list decreases a counter in each step, the digits of a number get fewer,
  the chunks of a list get shorter. Loops that run until shutdown are step relations. The bounds are the
  constants of the code (MAX_EXPIRED_KEYS_PER_CHECK, MAX_WATCH_EVENTS_PER_BATCH,
  MAX_TOPOLOGY_MEMBERS, MAX_TOPOLOGY_TOKENS, MAX_TOPOLOGY_TASK_RANGES and so on), never smaller ones.

  \<^bold>\<open>Libraries.\<close> What is not part of the repository is a parameter with its documented behaviour as a
  hypothesis: HostPort parsing (regular expressions), protobuf serialization and parsing
  (\<open>topology_pb_round_trip\<close>), the SHA-256 function (\<open>sha256_sized\<close>). Witnesses give instances.

  \<^bold>\<open>Not modelled.\<close>
  \<^item> Of the parts above: log lines, metrics, fault injection points and condition-variable waits
    throughout; the HMAC, MD5 and Base64 wrappers of hasher; the heat strategy of the eviction list
    (floating-point exponentials); the bandwidth scheduler and the UB health registry of the client
    router; the 64-bit and 128-bit variants of MurmurHash3, which the ring does not use.
  \<^item> The controller loop, the task janitor and executor, the repository and the coordination backends
    (cluster/control/topology_controller, cluster/executor, cluster/coordination_backend): they run the
    modelled functions against etcd or the coordinator over RPC, with retries and threads.
  \<^item> The coordinator process with its Raft adapters (coordinator/, coordinator/raft): brpc handlers and
    calls of braft.
  \<^item> Object, stream and device caches of worker, master and client (worker/, master/, client/):
    shared memory, RDMA, RocksDB, RPC and file input and output, in which the little pure code is
    spread over callbacks; the schedulers of the master compute with floating-point ratios.
  \<^item> Allocators, RPC, storage clients, event loop, thread pools, logging, metrics, flags, encryption and
    language bindings (common/, c_api/, java_api/, pybind_api/): interfaces of the operating system
    or of libraries.
\<close>

text \<open>
  C31. Clients route a key as the servers place it. Take a topology that the repository accepts, the
  message a client fetched and the snapshot a server built from it. The client accepts the message,
  and with the index installed the worker it selects for a key by the metadata owner policy is the
  owner that the ring of the members usable for the client locates for the hash of the key. A
  usable member is ACTIVE, not excluded, not isolated and passes the other filters. Without a usable member it
  fails with K_NO_AVAILABLE_WORKER, or K_NOT_FOUND when no member is routable at all. When every
  committed member is usable, the selected worker is the owner LocateOwner returns on the server.
\<close>

theorem client_routes_to_server_owner:
  assumes protobuf: "topology_pb_round_trip serialize parsePb"
    and encoded: "EncodeTopology (canonical_address parse) serialize st = Inr v"
    and fetched: "parsePb v = Some pb"
    and snapshot: "Create (canonical_address parse) sha st revision digest hostIds known coordinator = Inr sn"
  shows "\<exists>prepared. Create_Prepared parse pb = Inr prepared
    \<and> (\<forall>router t0 hostIdMap router' extra now key action exclude.
         router' = UpdateHashRing parse router t0 prepared hostIdMap \<longrightarrow>
         SelectWorker router' extra now key PREFERRED_META_OWNER action exclude =
           (case LocateIndexedOwner (token_owners (usable parse router' extra now action exclude)
                   (ts_members (sn_state sn))) (Hash key) of
              Inr m \<Rightarrow> Inr (member_worker parse m)
            | Inl _ \<Rightarrow> Inl (if \<exists>m \<in> set (ts_members (sn_state sn)). routable m
                            then K_NO_AVAILABLE_WORKER else K_NOT_FOUND))
         \<and> (sn_committedMembers sn \<noteq> [] \<and> (\<forall>m \<in> set (sn_committedMembers sn). usable parse router' extra now action exclude m)
            \<longrightarrow> SelectWorker router' extra now key PREFERRED_META_OWNER action exclude
                = bind_result (LocateOwner sn (Hash key)) (\<lambda>m. Inr (member_worker parse m))))"
proof -
  obtain c prepared where c: "ValidateAndCanonicalizeTopologyState (canonical_address parse) st = Inr c"
    and prepared: "Create_Prepared parse pb = Inr prepared"
    and select: "\<forall>router t0 hostIdMap router' extra now key action exclude.
       router' = UpdateHashRing parse router t0 prepared hostIdMap \<longrightarrow>
       SelectWorker router' extra now key PREFERRED_META_OWNER action exclude =
         (case LocateIndexedOwner (token_owners (usable parse router' extra now action exclude) (ts_members c)) (Hash key) of
            Inr m \<Rightarrow> Inr (member_worker parse m)
          | Inl _ \<Rightarrow> Inl (if \<exists>m \<in> set (ts_members c). routable m then K_NO_AVAILABLE_WORKER else K_NOT_FOUND))"
    by (rule client_selection [OF protobuf encoded fetched])
  note sn = Create_fields [OF snapshot c]
  have same: "token_owners (usable parse router' extra now action exclude) (ts_members c) = sn_committedTokenOwners sn"
    if "\<forall>m \<in> set (sn_committedMembers sn). usable parse router' extra now action exclude m"
    for router' extra now action exclude
    using that sn by (auto simp: usable_def IsCommittedMemberState_def intro!: token_owners_cong)
  have nonempty: "sn_committedTokenOwners sn \<noteq> []" if "sn_committedMembers sn \<noteq> []"
    using that sn canonicalize_idem [OF c] by (auto simp: topology_wf_def token_owners_def sort_key_Nil filter_empty_conv)
  show ?thesis
    using prepared sn select same nonempty by (intro exI [of _ prepared]) (auto simp: LocateOwner_def LocateIndexedOwner_hd)
qed

definition demo_parse :: "string \<Rightarrow> HostPort option" where
  "demo_parse address =
     (if address = ''a:1'' then Some \<lparr>hp_host = ''a'', hp_port = 1, hp_isIPv6 = False\<rparr>
      else if address = ''b:1'' then Some \<lparr>hp_host = ''b'', hp_port = 1, hp_isIPv6 = False\<rparr> else None)"

theorem client_routes_to_server_owner_witness:
  "\<exists>prepared sn. topology_pb_round_trip codec_serialize codec_parse
     \<and> EncodeTopology (canonical_address demo_parse) codec_serialize codec_state = Inr ''v''
     \<and> Create (canonical_address demo_parse) (\<lambda>_. Inr []) codec_state 1 (replicate 64 CHR ''0'') [] False [] = Inr sn
     \<and> SelectWorker (UpdateHashRing demo_parse (new_WorkerRouter []) 0 prepared Map.empty) [] 0 ''k'' PREFERRED_META_OWNER GET []
         = bind_result (LocateOwner sn (Hash ''k'')) (\<lambda>m. Inr (member_worker demo_parse m))"
proof -
  let ?c = "codec_state\<lparr>ts_members := rev (ts_members codec_state)\<rparr>"
  have can: "ValidateAndCanonicalizeTopologyState (canonical_address demo_parse) codec_state = Inr ?c" by code_simp
  have enc: "EncodeTopology (canonical_address demo_parse) codec_serialize codec_state = Inr ''v''"
    by (rule codec_encodes [OF can])
  have hex: "IsSha256Hex (replicate 64 CHR ''0'')" by (simp add: IsSha256Hex_def SHA256_HEX_SIZE_def list_all_iff)
  then obtain sn where sn: "Create (canonical_address demo_parse) (\<lambda>_. Inr []) codec_state 1 (replicate 64 CHR ''0'') [] False [] = Inr sn"
    by (simp add: Create_def can)
  have pb: "codec_parse ''v'' = Some (codec_pb\<lparr>ctp_members := rev (ctp_members codec_pb)\<rparr>)" by (simp add: codec_parse_def)
  have one: "sn_committedMembers sn = [ts_members codec_state ! 1]"
    using Create_fields [OF sn can] by (simp add: codec_state_def IsCommittedMemberState_def)
  let ?r = "\<lambda>prepared. UpdateHashRing demo_parse (new_WorkerRouter []) 0 prepared Map.empty"
  have use: "\<forall>m \<in> set (sn_committedMembers sn). usable demo_parse (?r prepared) [] 0 GET [] m" for prepared
    unfolding one by (simp add: codec_state_def usable_def IsExcluded_def UpdateHashRing_def new_WorkerRouter_def
        Broken_OnHashRingUpdated_def Broken_IsAvailable_def)
  have ne: "sn_committedMembers sn \<noteq> []" by (simp add: one)
  have "\<exists>prepared. SelectWorker (?r prepared) [] 0 ''k'' PREFERRED_META_OWNER GET []
      = bind_result (LocateOwner sn (Hash ''k'')) (\<lambda>m. Inr (member_worker demo_parse m))"
    by (rule exE [OF client_routes_to_server_owner [OF codec_round_trip enc pb sn]], elim conjE, rule exI,
        drule spec, drule spec, drule spec, drule spec, drule spec, drule spec, drule spec, drule spec, drule spec,
        drule mp, rule refl, erule conjunct2 [THEN mp], intro conjI ne use)
  then show ?thesis using codec_round_trip enc sn by blast
qed

end
